(* ===== verification/Prelude.thy ===== *)
theory Prelude
  imports Main "HOL-Library.Word"
begin

text \<open>
  Shared vocabulary of the development: the machine types of the C++ code, the result type
  that carries an aborted \<open>CHECK\<close> or undefined behaviour as a value, and the word and
  divisibility lemmas that the ring-buffer arithmetic of every component rests on.
\<close>

section \<open>Machine types and results\<close>

type_synonym u8 = "8 word"
type_synonym u32 = "32 word"
type_synonym u64 = "64 word"
type_synonym size_t = "64 word"
type_synonym ptr = "64 word"

abbreviation (input) nullptr :: ptr where "nullptr \<equiv> 0"

text \<open>
  \<open>CheckFailed\<close> is a failing \<open>hardware::details::check\<close>, which aborts the process;
  \<open>Undefined\<close> is behaviour that C++ leaves undefined (a null dereference, a remainder by
  zero, an overlapping \<open>memcpy\<close>, an index past a native handle).
\<close>

datatype failure = CheckFailed | Undefined

type_synonym 'a res = "failure + 'a"

definition bind_res :: "'a res \<Rightarrow> ('a \<Rightarrow> 'b res) \<Rightarrow> 'b res" where
  "bind_res m f = (case m of Inl e \<Rightarrow> Inl e | Inr x \<Rightarrow> f x)"

text \<open>Facts that run a model program forward belong to \<open>run\<close>.\<close>

named_theorems run

lemma bind_res_simps [simp]:
  "bind_res (Inl e) f = Inl e"
  "bind_res (Inr x) f = f x"
  by (simp_all add: bind_res_def)

lemma bind_res_eq_Inr:
  "bind_res m f = Inr y \<longleftrightarrow> (\<exists>x. m = Inr x \<and> f x = Inr y)"
  by (cases m) auto

lemma bind_res_eq_Inl:
  "bind_res m f = Inl e \<longleftrightarrow> m = Inl e \<or> (\<exists>x. m = Inr x \<and> f x = Inl e)"
  by (cases m) auto

lemma bind_res_cong [cong]:
  "m = m' \<Longrightarrow> (\<And>x. m' = Inr x \<Longrightarrow> f x = f' x) \<Longrightarrow> bind_res m f = bind_res m' f'"
  by (cases m') auto

lemma bind_res_if:
  "bind_res (if b then m else m') f = (if b then bind_res m f else bind_res m' f)"
  by simp

lemma ex_not [simp]: "Ex Not"
  by (rule exI [of Not False]) simp

section \<open>Words read as naturals\<close>

lemma unat_u64_less [simp]: "unat (x :: u64) < 18446744073709551616"
  using unsigned_less [of x] by simp

lemma unat_of_nat_u64 [simp]:
  "i < 18446744073709551616 \<Longrightarrow> unat (of_nat i :: u64) = i"
  by (simp add: unat_of_nat take_bit_eq_mod)

lemma word_of_nat_unat: "(of_nat (unat x) :: u64) = x"
  by simp

lemma unat_add_u64:
  "unat ((a :: u64) + b) = (unat a + unat b) mod 18446744073709551616"
  by (simp add: unat_word_ariths)

lemma unat_mult_u64:
  "unat ((a :: u64) * b) = (unat a * unat b) mod 18446744073709551616"
  by (simp add: unat_word_ariths)

lemma unat_mult_no_wrap:
  "unat (a :: u64) * unat b < 18446744073709551616 \<Longrightarrow> unat (a * b) = unat a * unat b"
  by (simp add: unat_mult_u64)

lemma unat_add_of_nat:
  "unat ((a :: u64) + of_nat i) = (unat a + i) mod 18446744073709551616"
proof -
  have "unat (of_nat i :: u64) = i mod 18446744073709551616"
    by (simp add: unat_of_nat take_bit_eq_mod)
  then show ?thesis by (simp add: unat_add_u64 mod_simps)
qed

lemma unat_diff_le:
  "b \<le> a \<Longrightarrow> unat ((a :: u64) - b) = unat a - unat b"
  by (simp add: unat_sub)

lemma u64_decompose: "(a :: u64) = b + of_nat (unat (a - b))"
  by simp

lemma of_nat_u64_eq_iff:
  "i < 18446744073709551616 \<Longrightarrow> j < 18446744073709551616 \<Longrightarrow>
     (of_nat i :: u64) = of_nat j \<longleftrightarrow> i = j"
  by (metis unat_of_nat_u64)

lemma mod_zero_below_twice:
  assumes "s mod M = (0 :: nat)" and "0 < s" and "s < 2 * M"
  shows "s = M"
proof -
  from assms(1) obtain k where k: "s = M * k" by (auto elim: dvdE)
  with assms(2,3) have "0 < k" "k < 2" by auto
  with k show ?thesis by simp
qed

lemma sint_small:
  assumes "unat (w :: u32) < 2147483648"
  shows "sint w = int (unat w)"
proof -
  have "sint w = signed_take_bit 31 (int (unat w))" by (simp add: sint_uint)
  also have "\<dots> = int (unat w)"
  proof (rule signed_take_bit_int_eq_self)
    show "- (2 ^ 31) \<le> int (unat w)" by (rule order_trans [of _ 0]) simp_all
    have "int (unat w) < 2147483648" using assms by linarith
    then show "int (unat w) < 2 ^ 31" by simp
  qed
  finally show ?thesis .
qed

lemma sint64_small:
  assumes "unat (w :: u64) < 9223372036854775808"
  shows "sint w = int (unat w)"
proof -
  have "sint w = signed_take_bit 63 (int (unat w))" by (simp add: sint_uint)
  also have "\<dots> = int (unat w)"
  proof (rule signed_take_bit_int_eq_self)
    show "- (2 ^ 63) \<le> int (unat w)" by (rule order_trans [of _ 0]) simp_all
    have "int (unat w) < 9223372036854775808" using assms by linarith
    then show "int (unat w) < 2 ^ 63" by simp
  qed
  finally show ?thesis .
qed

section \<open>Positions of a ring\<close>

text \<open>
  A byte counter \<open>p\<close> is a free running 64-bit word; the byte it names lies at offset
  \<open>p mod S\<close> of a ring of \<open>S\<close> bytes. Advancing the counter advances the offset as long as
  the counter does not pass \<open>2 ^ 64\<close>, or the ring size divides \<open>2 ^ 64\<close>: \<open>no_seam S p k\<close>
  says that the \<open>k\<close> steps from \<open>p\<close> meet no such seam.
\<close>

definition no_seam :: "size_t \<Rightarrow> u64 \<Rightarrow> nat \<Rightarrow> bool" where
  "no_seam S p k \<longleftrightarrow> unat S dvd 2 ^ 64 \<or> unat p + k < 2 ^ 64"

lemma no_seam_mono: "no_seam S p k \<Longrightarrow> j \<le> k \<Longrightarrow> no_seam S p j"
  by (auto simp: no_seam_def)

lemma ring_offset_add:
  assumes "no_seam S p k" and "i \<le> k"
  shows "unat ((p + of_nat i) mod S) = (unat p + i) mod unat S"
proof (cases "unat S dvd 2 ^ 64")
  case True
  then have "unat S dvd 18446744073709551616" by simp
  then show ?thesis
    by (simp add: unat_mod unat_add_of_nat mod_mod_cancel)
next
  case False
  with assms have "unat p + i < 18446744073709551616" by (simp add: no_seam_def)
  then show ?thesis by (simp add: unat_mod unat_add_of_nat)
qed

lemma mod_inj_near:
  assumes "(a + i) mod S = (a + j) mod S" and "i \<le> j" and "j < i + (S :: nat)"
  shows "i = j"
proof -
  from assms(1,2) have "S dvd (a + j) - (a + i)"
    by (metis add_le_mono1 add.commute mod_eq_dvd_iff_nat)
  then have "S dvd j - i" by simp
  with assms(2,3) show ?thesis by (auto dest: dvd_imp_le)
qed

lemma mod_inj_window:
  assumes "(a + i) mod S = (a + j) mod S" and "i < (S :: nat)" and "j < S"
  shows "i = j"
  using mod_inj_near [of a i S j] mod_inj_near [of a j S i] assms
  by (cases "i \<le> j") auto

end
