(* ===== verification/Memory.thy ===== *)
theory Memory
  imports Prelude
begin

text \<open>
  The memory the queue code works on. A heap holds three kinds of cells, addressed by
  64-bit addresses: the bytes of ring buffers and caller buffers, the 64-bit atomic counters
  (\<open>std::atomic<uint64_t>\<close>) and the 32-bit atomic event-flag words
  (\<open>std::atomic<uint32_t>\<close>). Cells of different kinds do not overlap; that the grantors
  of a queue really are disjoint is proved in the theory of the descriptors.
\<close>

record heap =
  bytes :: "ptr \<Rightarrow> u8"
  words64 :: "ptr \<Rightarrow> u64"
  words32 :: "ptr \<Rightarrow> u32"

section \<open>Atomic cells\<close>

definition load64 :: "heap \<Rightarrow> ptr \<Rightarrow> u64 res" where
  "load64 h p = (if p = nullptr then Inl Undefined else Inr (words64 h p))"

definition store64 :: "heap \<Rightarrow> ptr \<Rightarrow> u64 \<Rightarrow> heap res" where
  "store64 h p v =
     (if p = nullptr then Inl Undefined else Inr (h\<lparr>words64 := (words64 h)(p := v)\<rparr>))"

lemma load64_Inr [simp]: "p \<noteq> 0 \<Longrightarrow> load64 h p = Inr (words64 h p)"
  by (simp add: load64_def)

lemma store64_Inr [simp]:
  "p \<noteq> 0 \<Longrightarrow> store64 h p v = Inr (h\<lparr>words64 := (words64 h)(p := v)\<rparr>)"
  by (simp add: store64_def)

section \<open>Address ranges\<close>

definition disjoint_ranges :: "ptr \<Rightarrow> nat \<Rightarrow> ptr \<Rightarrow> nat \<Rightarrow> bool" where
  "disjoint_ranges a n b m \<longleftrightarrow>
     n = 0 \<or> m = 0 \<or> (n \<le> unat (b - a) \<and> m \<le> unat (a - b))"

text \<open>The addresses of \<open>n\<close> bytes from \<open>a\<close> on.\<close>

definition byte_range :: "ptr \<Rightarrow> nat \<Rightarrow> ptr set" where
  "byte_range a n = (\<lambda>j. a + of_nat j) ` {..<n}"

lemma byte_rangeI: "j < n \<Longrightarrow> a + of_nat j \<in> byte_range a n"
  by (simp add: byte_range_def)

lemma disjoint_ranges_sym: "disjoint_ranges a n b m = disjoint_ranges b m a n"
  by (auto simp: disjoint_ranges_def)

lemma unat_minus_flip:
  assumes "(a :: u64) \<noteq> b"
  shows "unat (a - b) + unat (b - a) = 18446744073709551616"
proof (rule mod_zero_below_twice)
  have "(unat (a - b) + unat (b - a)) mod 18446744073709551616 = unat ((a - b) + (b - a))"
    by (rule unat_add_u64 [symmetric])
  also have "\<dots> = 0" by simp
  finally show "(unat (a - b) + unat (b - a)) mod 18446744073709551616 = 0" .
  show "0 < unat (a - b) + unat (b - a)" using assms by (simp add: unat_gt_0)
  show "unat (a - b) + unat (b - a) < 2 * 18446744073709551616"
    using unat_u64_less [of "a - b"] unat_u64_less [of "b - a"] by linarith
qed

lemma disjoint_ranges_neq:
  assumes "disjoint_ranges a n b m" and "i < n" and "j < m"
  shows "a + of_nat i \<noteq> b + of_nat j"
proof
  assume eq: "a + of_nat i = b + of_nat j"
  from assms have le: "n \<le> unat (b - a)" "m \<le> unat (a - b)"
    by (auto simp: disjoint_ranges_def)
  with assms have b: "i < 18446744073709551616" "j < 18446744073709551616"
    using unat_u64_less [of "b - a"] unat_u64_less [of "a - b"] by linarith+
  show False
  proof (cases "j \<le> i")
    case True
    then have "b - a = of_nat (i - j)" using eq by (simp add: algebra_simps)
    with b le(1) assms(2) show False by simp
  next
    case False
    then have "a - b = of_nat (j - i)" using eq by (simp add: algebra_simps)
    with b le(2) assms(3) show False by simp
  qed
qed

lemma disjoint_ranges_sub:
  assumes dis: "disjoint_ranges a n b m" and i: "i + k \<le> n" and j: "j + l \<le> m"
  shows "disjoint_ranges (a + of_nat i) k (b + of_nat j) l"
proof (cases "k = 0 \<or> l = 0")
  case True
  then show ?thesis by (auto simp: disjoint_ranges_def)
next
  case False
  define d where "d = unat (b - a)"
  define e where "e = unat (a - b)"
  from dis False i j have le: "n \<le> d" "m \<le> e" by (auto simp: disjoint_ranges_def d_def e_def)
  with False i have "a \<noteq> b" by (auto simp: d_def)
  then have de: "d + e = 18446744073709551616"
    unfolding d_def e_def by (metis unat_minus_flip add.commute)
  have "(b + of_nat j) - (a + of_nat i) = of_nat (d + j - i)"
    using le i by (simp add: d_def algebra_simps)
  moreover have "d + j - i < 18446744073709551616" using de le j False by linarith
  ultimately have 1: "unat ((b + of_nat j) - (a + of_nat i)) = d + j - i" by simp
  have "(a + of_nat i) - (b + of_nat j) = of_nat (e + i - j)"
    using le j by (simp add: e_def algebra_simps)
  moreover have "e + i - j < 18446744073709551616" using de le i False by linarith
  ultimately have 2: "unat ((a + of_nat i) - (b + of_nat j)) = e + i - j" by simp
  have "k \<le> d + j - i" "l \<le> e + i - j" using le i j by arith+
  with 1 2 show ?thesis by (simp add: disjoint_ranges_def)
qed

lemma disjoint_ranges_zero [simp]:
  "disjoint_ranges a 0 b m" "disjoint_ranges a n b 0"
  by (simp_all add: disjoint_ranges_def)

lemma disjoint_ranges_adjacent:
  assumes "k + m < 18446744073709551616"
  shows "disjoint_ranges a k (a + of_nat k) m"
proof (cases "k = 0")
  case False
  define w :: u64 where "w = of_nat k"
  have w: "unat w = k" using assms by (simp add: w_def)
  with False have "a + w \<noteq> a" by auto
  then have "unat (a + w - a) + unat (a - (a + w)) = 18446744073709551616"
    by (rule unat_minus_flip)
  then have "unat (a - (a + w)) = 18446744073709551616 - k" using w by simp
  moreover have "m \<le> 18446744073709551616 - k" using assms by linarith
  ultimately show ?thesis using w by (simp add: disjoint_ranges_def flip: w_def)
qed simp

lemma disjoint_ranges_part:
  assumes "disjoint_ranges a n b m"
    and "k \<noteq> 0 \<Longrightarrow> i + k \<le> n" and "l \<noteq> 0 \<Longrightarrow> j + l \<le> m"
  shows "disjoint_ranges (a + of_nat i) k (b + of_nat j) l"
  using assms disjoint_ranges_sub [OF assms(1), of i k j l]
  by (cases "k = 0 \<or> l = 0") auto

section \<open>memcpy\<close>

text \<open>
  \<open>memcpy(dst, src, n)\<close>: the \<open>n\<close> bytes at \<open>src\<close> replace those at \<open>dst\<close>. Overlapping
  ranges are undefined behaviour. An address is in the destination exactly if its distance
  from \<open>dst\<close>, as a word, is below \<open>n\<close>.
\<close>

definition memcpy :: "heap \<Rightarrow> ptr \<Rightarrow> ptr \<Rightarrow> size_t \<Rightarrow> heap res" where
  "memcpy h dst src n =
     (if \<not> disjoint_ranges dst (unat n) src (unat n) then Inl Undefined
      else Inr (h\<lparr>bytes :=
             (\<lambda>a. if a - dst < n then bytes h (src + (a - dst)) else bytes h a)\<rparr>))"

definition mem_bytes :: "heap \<Rightarrow> ptr \<Rightarrow> nat \<Rightarrow> u8 list" where
  "mem_bytes h a n = map (\<lambda>i. bytes h (a + of_nat i)) [0..<n]"

lemma length_mem_bytes [simp]: "length (mem_bytes h a n) = n"
  by (simp add: mem_bytes_def)

lemma nth_mem_bytes [simp]: "i < n \<Longrightarrow> mem_bytes h a n ! i = bytes h (a + of_nat i)"
  by (simp add: mem_bytes_def)

lemma mem_bytes_append:
  "mem_bytes h a (m + n) = mem_bytes h a m @ mem_bytes h (a + of_nat m) n"
  by (rule nth_equalityI) (auto simp: nth_append algebra_simps of_nat_diff)

text \<open>The two facts that describe a copy: what it writes, and what it leaves alone.\<close>

lemma memcpy_ok:
  assumes "disjoint_ranges dst (unat n) src (unat n)"
  obtains h' where "memcpy h dst src n = Inr h'"
    and "words64 h' = words64 h" and "words32 h' = words32 h"
    and "\<And>i. i < unat n \<Longrightarrow> bytes h' (dst + of_nat i) = bytes h (src + of_nat i)"
    and "\<And>a. (\<And>i. i < unat n \<Longrightarrow> a \<noteq> dst + of_nat i) \<Longrightarrow> bytes h' a = bytes h a"
proof
  let ?h = "h\<lparr>bytes := (\<lambda>a. if a - dst < n then bytes h (src + (a - dst)) else bytes h a)\<rparr>"
  show "memcpy h dst src n = Inr ?h" using assms by (simp add: memcpy_def)
  show "words64 ?h = words64 h" "words32 ?h = words32 h" by simp_all
  show "bytes ?h (dst + of_nat i) = bytes h (src + of_nat i)" if "i < unat n" for i
  proof -
    have "i < 18446744073709551616" using that unat_u64_less [of n] by linarith
    with that have "(of_nat i :: u64) < n" by (simp add: word_less_nat_alt)
    then show ?thesis by simp
  qed
  show "bytes ?h a = bytes h a" if "\<And>i. i < unat n \<Longrightarrow> a \<noteq> dst + of_nat i" for a
  proof -
    have "\<not> unat (a - dst) < unat n" using that [of "unat (a - dst)"] by auto
    then show ?thesis by (simp add: word_less_nat_alt)
  qed
qed

lemma memcpy_zero [simp]: "memcpy h dst src 0 = Inr h"
  by (simp add: memcpy_def disjoint_ranges_def)

text \<open>
  Two copies in a row, neither of which disturbs the other: the shape of every transfer
  between a caller's buffer and the two regions of a transaction.
\<close>

definition two_copies ::
  "heap \<Rightarrow> ptr \<Rightarrow> ptr \<Rightarrow> size_t \<Rightarrow> ptr \<Rightarrow> ptr \<Rightarrow> size_t \<Rightarrow> heap res" where
  "two_copies h d1 s1 n1 d2 s2 n2 =
     bind_res (memcpy h d1 s1 n1) (\<lambda>h1. memcpy h1 d2 s2 n2)"

lemma two_copies_ok:
  assumes d1s1: "disjoint_ranges d1 (unat n1) s1 (unat n1)"
    and d2s2: "disjoint_ranges d2 (unat n2) s2 (unat n2)"
    and d1d2: "disjoint_ranges d1 (unat n1) d2 (unat n2)"
    and d1s2: "disjoint_ranges d1 (unat n1) s2 (unat n2)"
  obtains h' where "two_copies h d1 s1 n1 d2 s2 n2 = Inr h'"
    and "words64 h' = words64 h" and "words32 h' = words32 h"
    and "\<And>i. i < unat n1 \<Longrightarrow> bytes h' (d1 + of_nat i) = bytes h (s1 + of_nat i)"
    and "\<And>i. i < unat n2 \<Longrightarrow> bytes h' (d2 + of_nat i) = bytes h (s2 + of_nat i)"
    and "\<And>a. (\<And>i. i < unat n1 \<Longrightarrow> a \<noteq> d1 + of_nat i) \<Longrightarrow>
               (\<And>i. i < unat n2 \<Longrightarrow> a \<noteq> d2 + of_nat i) \<Longrightarrow> bytes h' a = bytes h a"
proof -
  obtain h1 where h1: "memcpy h d1 s1 n1 = Inr h1"
    "words64 h1 = words64 h" "words32 h1 = words32 h"
    "\<And>i. i < unat n1 \<Longrightarrow> bytes h1 (d1 + of_nat i) = bytes h (s1 + of_nat i)"
    "\<And>a. (\<And>i. i < unat n1 \<Longrightarrow> a \<noteq> d1 + of_nat i) \<Longrightarrow> bytes h1 a = bytes h a"
    using memcpy_ok [OF d1s1] by blast
  obtain h2 where h2: "memcpy h1 d2 s2 n2 = Inr h2"
    "words64 h2 = words64 h1" "words32 h2 = words32 h1"
    "\<And>i. i < unat n2 \<Longrightarrow> bytes h2 (d2 + of_nat i) = bytes h1 (s2 + of_nat i)"
    "\<And>a. (\<And>i. i < unat n2 \<Longrightarrow> a \<noteq> d2 + of_nat i) \<Longrightarrow> bytes h2 a = bytes h1 a"
    using memcpy_ok [OF d2s2] by blast
  show ?thesis
  proof (rule that [of h2])
    show "two_copies h d1 s1 n1 d2 s2 n2 = Inr h2"
      by (simp add: two_copies_def h1 h2)
    show "words64 h2 = words64 h" "words32 h2 = words32 h" by (simp_all add: h1 h2)
    show "bytes h2 (d1 + of_nat i) = bytes h (s1 + of_nat i)" if "i < unat n1" for i
      using that disjoint_ranges_neq [OF d1d2] by (simp add: h1 h2)
    show "bytes h2 (d2 + of_nat i) = bytes h (s2 + of_nat i)" if i: "i < unat n2" for i
    proof -
      have "bytes h1 (s2 + of_nat i) = bytes h (s2 + of_nat i)"
        using disjoint_ranges_neq [OF d1s2 _ i] by (intro h1) metis
      with i show ?thesis by (simp add: h2)
    qed
    show "bytes h2 a = bytes h a" if "\<And>i. i < unat n1 \<Longrightarrow> a \<noteq> d1 + of_nat i"
      "\<And>i. i < unat n2 \<Longrightarrow> a \<noteq> d2 + of_nat i" for a
      using that by (simp add: h1 h2)
  qed
qed

end
