(* ===== verification/Mem_Transaction.thy ===== *)
theory Mem_Transaction
  imports Memory
begin

text \<open>
  \<open>struct MemRegion\<close> and \<open>struct MemTransaction\<close> of \<open>include/fmq/MessageQueueBase.h\<close>: the
  one or two pieces of the ring that a read or a write touches, and the copies in and out of
  them. The size of the message type, \<open>sizeof(T)\<close>, is the argument \<open>sizeofT\<close>.
\<close>

section \<open>State and operations\<close>

record MemRegion =
  address :: ptr
  region_length :: size_t

record MemTransaction =
  first :: MemRegion
  second :: MemRegion

definition MemRegion_default :: MemRegion where
  "MemRegion_default = \<lparr>address = nullptr, region_length = 0\<rparr>"

definition MemTransaction_default :: MemTransaction where
  "MemTransaction_default = \<lparr>first = MemRegion_default, second = MemRegion_default\<rparr>"

definition getLengthInBytes :: "size_t \<Rightarrow> MemRegion \<Rightarrow> size_t" where
  "getLengthInBytes sizeofT r = region_length r * sizeofT"

text \<open>Adding \<open>n\<close> to a \<open>T*\<close> moves it by \<open>n * sizeof(T)\<close> bytes.\<close>

definition getSlot :: "size_t \<Rightarrow> MemTransaction \<Rightarrow> size_t \<Rightarrow> ptr" where
  "getSlot sizeofT tx idx =
     (let firstRegionLength = region_length (first tx);
          secondRegionLength = region_length (second tx)
      in if idx > firstRegionLength + secondRegionLength then nullptr
         else if idx < firstRegionLength then address (first tx) + idx * sizeofT
         else address (second tx) + idx * sizeofT - firstRegionLength * sizeofT)"

text \<open>
  The reference arguments of \<open>getMemRegionInfo\<close> are results here: \<open>None\<close> for \<open>false\<close>,
  otherwise the two counts and the two base addresses. A base address is only assigned when
  its count is not zero, and keeps the caller's value otherwise.
\<close>

definition getMemRegionInfo ::
  "size_t \<Rightarrow> MemTransaction \<Rightarrow> size_t \<Rightarrow> size_t \<Rightarrow> ptr \<Rightarrow> ptr \<Rightarrow>
     (size_t \<times> size_t \<times> ptr \<times> ptr) option" where
  "getMemRegionInfo sizeofT tx startIdx nMessages firstBaseAddress secondBaseAddress =
     (let firstRegionLength = region_length (first tx);
          secondRegionLength = region_length (second tx)
      in if startIdx + nMessages > firstRegionLength + secondRegionLength then None
         else
           let firstCount = (if startIdx < firstRegionLength
                             then min nMessages (firstRegionLength - startIdx) else 0);
               secondCount = nMessages - firstCount;
               firstBase = (if firstCount \<noteq> 0 then address (first tx) + startIdx * sizeofT
                            else firstBaseAddress);
               secondStartIdx = (if startIdx > firstRegionLength
                                 then startIdx - firstRegionLength else 0);
               secondBase = (if secondCount \<noteq> 0
                             then address (second tx) + secondStartIdx * sizeofT
                             else secondBaseAddress)
           in Some (firstCount, secondCount, firstBase, secondBase))"

definition copyFrom ::
  "size_t \<Rightarrow> MemTransaction \<Rightarrow> heap \<Rightarrow> ptr \<Rightarrow> size_t \<Rightarrow> size_t \<Rightarrow> (bool \<times> heap) res" where
  "copyFrom sizeofT tx h data startIdx nMessages =
     (if data = nullptr then Inr (False, h)
      else case getMemRegionInfo sizeofT tx startIdx nMessages nullptr nullptr of
        None \<Rightarrow> Inr (False, h)
      | Some (firstReadCount, secondReadCount, firstBaseAddress, secondBaseAddress) \<Rightarrow>
          bind_res (if firstReadCount \<noteq> 0
                    then memcpy h data firstBaseAddress (firstReadCount * sizeofT)
                    else Inr h) (\<lambda>h1.
          bind_res (if secondReadCount \<noteq> 0
                    then memcpy h1 (data + firstReadCount * sizeofT) secondBaseAddress
                           (secondReadCount * sizeofT)
                    else Inr h1) (\<lambda>h2.
          Inr (True, h2))))"

definition copyTo ::
  "size_t \<Rightarrow> MemTransaction \<Rightarrow> heap \<Rightarrow> ptr \<Rightarrow> size_t \<Rightarrow> size_t \<Rightarrow> (bool \<times> heap) res" where
  "copyTo sizeofT tx h data startIdx nMessages =
     (if data = nullptr then Inr (False, h)
      else case getMemRegionInfo sizeofT tx startIdx nMessages nullptr nullptr of
        None \<Rightarrow> Inr (False, h)
      | Some (firstWriteCount, secondWriteCount, firstBaseAddress, secondBaseAddress) \<Rightarrow>
          bind_res (if firstWriteCount \<noteq> 0
                    then memcpy h firstBaseAddress data (firstWriteCount * sizeofT)
                    else Inr h) (\<lambda>h1.
          bind_res (if secondWriteCount \<noteq> 0
                    then memcpy h1 secondBaseAddress (data + firstWriteCount * sizeofT)
                           (secondWriteCount * sizeofT)
                    else Inr h1) (\<lambda>h2.
          Inr (True, h2))))"

section \<open>The bytes of a transaction\<close>

text \<open>
  \<open>tx_addr\<close> numbers the bytes of a transaction through the first region and on into the
  second one. \<open>tx_ok\<close> collects what every transaction of a queue satisfies: the regions do
  not overlap and their sizes fit into a \<open>size_t\<close>.
\<close>

definition tx_addr :: "size_t \<Rightarrow> MemTransaction \<Rightarrow> nat \<Rightarrow> ptr" where
  "tx_addr sizeofT tx i =
     (if i < unat (region_length (first tx)) * unat sizeofT
      then address (first tx) + of_nat i
      else address (second tx) + of_nat (i - unat (region_length (first tx)) * unat sizeofT))"

definition tx_length :: "MemTransaction \<Rightarrow> nat" where
  "tx_length tx = unat (region_length (first tx)) + unat (region_length (second tx))"

definition tx_ok :: "size_t \<Rightarrow> MemTransaction \<Rightarrow> bool" where
  "tx_ok sizeofT tx \<longleftrightarrow> 0 < unat sizeofT \<and> tx_length tx * unat sizeofT < 2 ^ 64 \<and>
     disjoint_ranges (address (first tx)) (unat (region_length (first tx)) * unat sizeofT)
       (address (second tx)) (unat (region_length (second tx)) * unat sizeofT)"

text \<open>The caller's buffer of \<open>n\<close> bytes lies apart from both regions.\<close>

definition buffer_apart :: "size_t \<Rightarrow> MemTransaction \<Rightarrow> ptr \<Rightarrow> nat \<Rightarrow> bool" where
  "buffer_apart sizeofT tx data n \<longleftrightarrow>
     disjoint_ranges data n
       (address (first tx)) (unat (region_length (first tx)) * unat sizeofT) \<and>
     disjoint_ranges data n
       (address (second tx)) (unat (region_length (second tx)) * unat sizeofT)"

lemma tx_length_small:
  assumes "tx_ok sizeofT tx"
  shows "tx_length tx < 18446744073709551616"
proof -
  have "tx_length tx \<le> tx_length tx * unat sizeofT"
    using assms by (simp add: tx_ok_def)
  moreover have "tx_length tx * unat sizeofT < 18446744073709551616"
    using assms by (simp add: tx_ok_def)
  ultimately show ?thesis by linarith
qed

lemma tx_bytes_small:
  assumes "tx_ok sizeofT tx" and "n \<le> tx_length tx"
  shows "n * unat sizeofT < 18446744073709551616"
proof -
  have "n * unat sizeofT \<le> tx_length tx * unat sizeofT" using assms(2) by (rule mult_le_mono1)
  also have "\<dots> < 18446744073709551616" using assms(1) by (simp add: tx_ok_def)
  finally show ?thesis .
qed

text \<open>
  What \<open>getMemRegionInfo\<close> computes when the requested messages fit: how many of them fall
  into the first region, and where in the second one the rest begins.
\<close>

definition first_part :: "MemTransaction \<Rightarrow> nat \<Rightarrow> nat \<Rightarrow> nat" where
  "first_part tx s n = min n (unat (region_length (first tx)) - s)"

definition second_start :: "MemTransaction \<Rightarrow> nat \<Rightarrow> nat" where
  "second_start tx s = s - unat (region_length (first tx))"

lemma getMemRegionInfo_fits:
  assumes ok: "tx_ok sizeofT tx" and fits: "unat startIdx + unat nMessages \<le> tx_length tx"
  obtains c1 c2 b1 b2 where
    "getMemRegionInfo sizeofT tx startIdx nMessages fb sb = Some (c1, c2, b1, b2)"
    and "unat c1 = first_part tx (unat startIdx) (unat nMessages)"
    and "unat c2 = unat nMessages - first_part tx (unat startIdx) (unat nMessages)"
    and "c1 \<noteq> 0 \<longrightarrow> b1 = address (first tx) + of_nat (unat startIdx * unat sizeofT)"
    and "c2 \<noteq> 0 \<longrightarrow> b2 = address (second tx) +
           of_nat (second_start tx (unat startIdx) * unat sizeofT)"
proof -
  let ?l1 = "region_length (first tx)" and ?l2 = "region_length (second tx)"
  have sum: "unat (?l1 + ?l2) = unat ?l1 + unat ?l2"
    using tx_length_small [OF ok] by (simp add: tx_length_def unat_add_u64)
  have req: "unat (startIdx + nMessages) = unat startIdx + unat nMessages"
    using tx_length_small [OF ok] fits by (simp add: unat_add_u64)
  have notbig: "\<not> startIdx + nMessages > ?l1 + ?l2"
    using fits by (simp add: word_less_nat_alt sum req tx_length_def)
  define c1 where "c1 = (if startIdx < ?l1 then min nMessages (?l1 - startIdx) else 0)"
  have c1: "unat c1 = first_part tx (unat startIdx) (unat nMessages)"
    by (auto simp: c1_def first_part_def min_def word_less_nat_alt word_le_nat_alt unat_diff_le
        split: if_splits)
  have "c1 \<le> nMessages" by (simp add: word_le_nat_alt c1 first_part_def)
  then have c2: "unat (nMessages - c1) = unat nMessages - unat c1" by (rule unat_diff_le)
  have st: "(if startIdx > ?l1 then startIdx - ?l1 else 0) = of_nat (second_start tx (unat startIdx))"
    by (auto simp: second_start_def word_less_nat_alt of_nat_diff)
  show ?thesis
    by (rule that [of c1 "nMessages - c1"
          "if c1 \<noteq> 0 then address (first tx) + startIdx * sizeofT else fb"
          "if nMessages - c1 \<noteq> 0
           then address (second tx) + of_nat (second_start tx (unat startIdx)) * sizeofT else sb"])
      (simp_all add: getMemRegionInfo_def notbig c1_def [symmetric] st c1 [symmetric] c2 Let_def)
qed

text \<open>
  Both copies are two plain \<open>memcpy\<close>s between the caller's buffer and the same two pieces of
  the ring; \<open>copy_pieces\<close> is what is known about those pieces.
\<close>

definition piece1 :: "size_t \<Rightarrow> MemTransaction \<Rightarrow> nat \<Rightarrow> ptr" where
  "piece1 sizeofT tx s = address (first tx) + of_nat (s * unat sizeofT)"

definition piece2 :: "size_t \<Rightarrow> MemTransaction \<Rightarrow> nat \<Rightarrow> ptr" where
  "piece2 sizeofT tx s = address (second tx) + of_nat (second_start tx s * unat sizeofT)"

lemma tx_addr_piece1:
  assumes "i < first_part tx s n * unat sizeofT"
  shows "tx_addr sizeofT tx (s * unat sizeofT + i) = piece1 sizeofT tx s + of_nat i"
proof -
  have "s * unat sizeofT + i < (s + first_part tx s n) * unat sizeofT"
    using assms by (simp add: add_mult_distrib)
  also have "\<dots> \<le> unat (region_length (first tx)) * unat sizeofT"
  proof (rule mult_le_mono1)
    have "first_part tx s n \<noteq> 0" by (rule notI) (use assms in simp)
    then show "s + first_part tx s n \<le> unat (region_length (first tx))"
      by (auto simp: first_part_def)
  qed
  finally show ?thesis by (simp add: tx_addr_def piece1_def)
qed

lemma tx_addr_piece2:
  assumes "first_part tx s n < n"
  shows "tx_addr sizeofT tx (s * unat sizeofT + first_part tx s n * unat sizeofT + i) =
    piece2 sizeofT tx s + of_nat i"
proof -
  let ?l1 = "unat (region_length (first tx))"
  have eq: "s + first_part tx s n = ?l1 + second_start tx s"
    using assms by (auto simp: first_part_def second_start_def min_def split: if_splits)
  have "s * unat sizeofT + first_part tx s n * unat sizeofT =
      ?l1 * unat sizeofT + second_start tx s * unat sizeofT"
    by (metis eq add_mult_distrib)
  then show ?thesis by (simp add: tx_addr_def piece2_def add.assoc)
qed

lemma pieces_within:
  assumes "s + n \<le> tx_length tx"
  shows "first_part tx s n \<noteq> 0 \<Longrightarrow> s + first_part tx s n \<le> unat (region_length (first tx))"
    and "n - first_part tx s n \<noteq> 0 \<Longrightarrow>
      second_start tx s + (n - first_part tx s n) \<le> unat (region_length (second tx))"
  using assms by (auto simp: first_part_def second_start_def tx_length_def min_def split: if_splits)

lemma scaled_within:
  "(k \<noteq> 0 \<Longrightarrow> s + k \<le> (l :: nat)) \<Longrightarrow> k * z \<noteq> 0 \<Longrightarrow> s * z + k * z \<le> l * z"
  by (metis add_mult_distrib mult_0 mult_le_mono1)

text \<open>Every disjointness the two copies need, from the buffer lying apart from the regions.\<close>

lemma pieces_disjoint:
  fixes s n tx sizeofT data
  defines "z \<equiv> unat sizeofT" and "f \<equiv> first_part tx s n"
  assumes ok: "tx_ok sizeofT tx" and fits: "s + n \<le> tx_length tx"
    and apart: "buffer_apart sizeofT tx data (n * z)"
  shows "disjoint_ranges data (f * z) (piece1 sizeofT tx s) (f * z)"
    and "disjoint_ranges (data + of_nat (f * z)) ((n - f) * z) (piece2 sizeofT tx s) ((n - f) * z)"
    and "disjoint_ranges (piece1 sizeofT tx s) (f * z) (piece2 sizeofT tx s) ((n - f) * z)"
    and "disjoint_ranges data (f * z) (data + of_nat (f * z)) ((n - f) * z)"
    and "disjoint_ranges data (f * z) (piece2 sizeofT tx s) ((n - f) * z)"
    and "disjoint_ranges (piece1 sizeofT tx s) (f * z) (data + of_nat (f * z)) ((n - f) * z)"
proof -
  have fn: "f \<le> n" by (simp add: f_def first_part_def)
  then have nz: "f * z + (n - f) * z = n * z"
    by (metis add_mult_distrib le_add_diff_inverse)
  have w1: "f * z \<noteq> 0 \<Longrightarrow> s * z + f * z \<le> unat (region_length (first tx)) * z"
    using scaled_within pieces_within(1) [OF fits] unfolding f_def by metis
  have w2: "(n - f) * z \<noteq> 0 \<Longrightarrow>
      second_start tx s * z + (n - f) * z \<le> unat (region_length (second tx)) * z"
    using scaled_within pieces_within(2) [OF fits] unfolding f_def by metis
  have a1: "disjoint_ranges data (n * z) (address (first tx)) (unat (region_length (first tx)) * z)"
    and a2: "disjoint_ranges data (n * z) (address (second tx)) (unat (region_length (second tx)) * z)"
    using apart by (simp_all add: buffer_apart_def z_def)
  have r: "disjoint_ranges (address (first tx)) (unat (region_length (first tx)) * z)
      (address (second tx)) (unat (region_length (second tx)) * z)"
    using ok by (simp add: tx_ok_def z_def)
  have small: "n * z < 18446744073709551616"
    unfolding z_def by (rule tx_bytes_small [OF ok]) (use fits in linarith)
  have fz: "f * z \<le> n * z" using fn by (rule mult_le_mono1)
  show "disjoint_ranges data (f * z) (piece1 sizeofT tx s) (f * z)"
    using disjoint_ranges_part [OF a1, of "f * z" 0 "f * z" "s * z"] fz w1
    by (simp add: piece1_def z_def)
  show "disjoint_ranges (data + of_nat (f * z)) ((n - f) * z) (piece2 sizeofT tx s) ((n - f) * z)"
    using disjoint_ranges_part [OF a2, of "(n - f) * z" "f * z" "(n - f) * z"
        "second_start tx s * z"] nz w2
    by (simp add: piece2_def z_def)
  show "disjoint_ranges (piece1 sizeofT tx s) (f * z) (piece2 sizeofT tx s) ((n - f) * z)"
    using disjoint_ranges_part [OF r, of "f * z" "s * z" "(n - f) * z" "second_start tx s * z"] w1 w2
    by (simp add: piece1_def piece2_def z_def)
  show "disjoint_ranges data (f * z) (piece2 sizeofT tx s) ((n - f) * z)"
    using disjoint_ranges_part [OF a2, of "f * z" 0 "(n - f) * z" "second_start tx s * z"] fz w2
    by (simp add: piece2_def z_def)
  show "disjoint_ranges (piece1 sizeofT tx s) (f * z) (data + of_nat (f * z)) ((n - f) * z)"
    using disjoint_ranges_part [OF a1, of "(n - f) * z" "f * z" "f * z" "s * z"] nz w1
    by (simp add: piece1_def z_def disjoint_ranges_sym)
  show "disjoint_ranges data (f * z) (data + of_nat (f * z)) ((n - f) * z)"
    using small nz by (intro disjoint_ranges_adjacent) linarith
qed

lemma unat_scaled:
  assumes "unat (c :: size_t) \<le> n" and "n * unat sizeofT < 18446744073709551616"
  shows "unat (c * sizeofT) = unat c * unat sizeofT"
proof (rule unat_mult_no_wrap)
  have "unat c * unat sizeofT \<le> n * unat sizeofT" using assms(1) by (rule mult_le_mono1)
  then show "unat c * unat sizeofT < 18446744073709551616" using assms(2) by linarith
qed

lemma piece_index_split:
  assumes "i < n * (z :: nat)" and "f \<le> n"
  obtains "i < f * z" | j where "i = f * z + j" and "j < (n - f) * z" and "f < n"
proof (cases "i < f * z")
  case True
  then show ?thesis by (rule that(1))
next
  case False
  then have "i = f * z + (i - f * z)" by simp
  moreover from False assms have "i - f * z < (n - f) * z" by (simp add: diff_mult_distrib)
  ultimately show ?thesis using that(2) by fastforce
qed

lemma piece_index_first: "i < f * (z :: nat) \<Longrightarrow> f \<le> n \<Longrightarrow> i < n * z"
  by (meson le_trans mult_le_mono1 not_le)

lemma piece_index_second:
  assumes "i < (n - f) * (z :: nat)" and "f \<le> n"
  shows "f * z + i < n * z" and "f < n"
proof -
  have "f * z \<le> n * z" using assms(2) by (rule mult_le_mono1)
  then show "f * z + i < n * z" using assms(1) by (simp add: diff_mult_distrib)
  show "f < n" by (rule ccontr) (use assms in simp)
qed

text \<open>The outcome of \<open>getMemRegionInfo\<close> in bytes, as both copies use it.\<close>

lemma getMemRegionInfo_bytes:
  fixes tx startIdx nMessages sizeofT
  defines "f \<equiv> first_part tx (unat startIdx) (unat nMessages)"
  assumes ok: "tx_ok sizeofT tx" and fits: "unat startIdx + unat nMessages \<le> tx_length tx"
  obtains c1 c2 b1 b2 where
    "getMemRegionInfo sizeofT tx startIdx nMessages 0 0 = Some (c1, c2, b1, b2)"
    and "c1 \<noteq> 0 \<longrightarrow> b1 = piece1 sizeofT tx (unat startIdx)"
    and "c2 \<noteq> 0 \<longrightarrow> b2 = piece2 sizeofT tx (unat startIdx)"
    and "unat (c1 * sizeofT) = f * unat sizeofT"
    and "unat (c2 * sizeofT) = (unat nMessages - f) * unat sizeofT"
    and "c1 * sizeofT = of_nat (f * unat sizeofT)"
proof -
  have small: "unat nMessages * unat sizeofT < 18446744073709551616"
    by (rule tx_bytes_small [OF ok]) (use fits in linarith)
  obtain c1 c2 b1 b2 where
    info: "getMemRegionInfo sizeofT tx startIdx nMessages 0 0 = Some (c1, c2, b1, b2)"
    and c: "unat c1 = f" "unat c2 = unat nMessages - f"
    and b1: "c1 \<noteq> 0 \<longrightarrow> b1 = piece1 sizeofT tx (unat startIdx)"
    and b2: "c2 \<noteq> 0 \<longrightarrow> b2 = piece2 sizeofT tx (unat startIdx)"
    unfolding piece1_def piece2_def f_def by (rule getMemRegionInfo_fits [OF ok fits, of 0 0])
  have "f \<le> unat nMessages" by (simp add: f_def first_part_def)
  then have n1: "unat (c1 * sizeofT) = f * unat sizeofT"
    using unat_scaled [OF _ small, of c1] c by simp
  have n2: "unat (c2 * sizeofT) = (unat nMessages - f) * unat sizeofT"
    using unat_scaled [OF _ small, of c2] c by simp
  have "c1 * sizeofT = of_nat (f * unat sizeofT)" by (metis n1 word_of_nat_unat)
  with info b1 b2 n1 n2 show ?thesis by (rule that)
qed

section \<open>The two copies\<close>

text \<open>
  \<open>copyTo\<close> succeeds whenever the requested messages fit, puts byte \<open>i\<close> of the buffer at
  byte \<open>i\<close> of the transaction, counted from \<open>startIdx\<close>, and changes nothing else.
\<close>

lemma copyTo_transfers:
  assumes ok: "tx_ok sizeofT tx" and fits: "unat startIdx + unat nMessages \<le> tx_length tx"
    and data: "data \<noteq> 0"
    and apart: "buffer_apart sizeofT tx data (unat nMessages * unat sizeofT)"
  obtains h' where "copyTo sizeofT tx h data startIdx nMessages = Inr (True, h')"
    and "words64 h' = words64 h" and "words32 h' = words32 h"
    and "\<And>i. i < unat nMessages * unat sizeofT \<Longrightarrow>
      bytes h' (tx_addr sizeofT tx (unat startIdx * unat sizeofT + i)) = bytes h (data + of_nat i)"
    and "\<And>a. (\<And>i. i < unat nMessages * unat sizeofT \<Longrightarrow>
      a \<noteq> tx_addr sizeofT tx (unat startIdx * unat sizeofT + i)) \<Longrightarrow> bytes h' a = bytes h a"
proof -
  let ?s = "unat startIdx" and ?n = "unat nMessages" and ?z = "unat sizeofT"
  let ?f = "first_part tx ?s ?n"
  have fn: "?f \<le> ?n" by (simp add: first_part_def)
  obtain c1 c2 b1 b2 where
    info: "getMemRegionInfo sizeofT tx startIdx nMessages 0 0 = Some (c1, c2, b1, b2)"
    and b1: "c1 \<noteq> 0 \<longrightarrow> b1 = piece1 sizeofT tx ?s"
    and b2: "c2 \<noteq> 0 \<longrightarrow> b2 = piece2 sizeofT tx ?s"
    and n1: "unat (c1 * sizeofT) = ?f * ?z" and n2: "unat (c2 * sizeofT) = (?n - ?f) * ?z"
    and off: "c1 * sizeofT = of_nat (?f * ?z)"
    by (rule getMemRegionInfo_bytes [OF ok fits])
  note dis = pieces_disjoint [OF ok fits apart]
  obtain h' where h': "two_copies h (piece1 sizeofT tx ?s) data (c1 * sizeofT)
      (piece2 sizeofT tx ?s) (data + of_nat (?f * ?z)) (c2 * sizeofT) = Inr h'"
    "words64 h' = words64 h" "words32 h' = words32 h"
    "\<And>i. i < ?f * ?z \<Longrightarrow> bytes h' (piece1 sizeofT tx ?s + of_nat i) = bytes h (data + of_nat i)"
    "\<And>i. i < (?n - ?f) * ?z \<Longrightarrow> bytes h' (piece2 sizeofT tx ?s + of_nat i) =
       bytes h (data + of_nat (?f * ?z) + of_nat i)"
    "\<And>a. (\<And>i. i < ?f * ?z \<Longrightarrow> a \<noteq> piece1 sizeofT tx ?s + of_nat i) \<Longrightarrow>
         (\<And>i. i < (?n - ?f) * ?z \<Longrightarrow> a \<noteq> piece2 sizeofT tx ?s + of_nat i) \<Longrightarrow>
         bytes h' a = bytes h a"
    using two_copies_ok [of "piece1 sizeofT tx ?s" "c1 * sizeofT" data
        "piece2 sizeofT tx ?s" "c2 * sizeofT" "data + of_nat (?f * ?z)" h]
      dis(1) [THEN disjoint_ranges_sym [THEN iffD1]]
      dis(2) [THEN disjoint_ranges_sym [THEN iffD1]] dis(3) dis(6)
    unfolding n1 n2 by blast
  show ?thesis
  proof (rule that [of h'])
    show "copyTo sizeofT tx h data startIdx nMessages = Inr (True, h')"
      using data h'(1) [folded off] b1 b2
      by (cases "c1 = 0"; cases "c2 = 0") (simp_all add: copyTo_def info two_copies_def bind_res_eq_Inr)
    show "words64 h' = words64 h" "words32 h' = words32 h" by (fact h')+
    show "bytes h' (tx_addr sizeofT tx (?s * ?z + i)) = bytes h (data + of_nat i)"
      if "i < ?n * ?z" for i
      using that fn
    proof (cases rule: piece_index_split)
      case 1
      then show ?thesis by (simp add: tx_addr_piece1 h')
    next
      case (2 j)
      then show ?thesis
        using tx_addr_piece2 [OF 2(3), of sizeofT j] h'(5) [of j] by (simp add: add.assoc)
    qed
    show "bytes h' a = bytes h a"
      if outside: "\<And>i. i < ?n * ?z \<Longrightarrow> a \<noteq> tx_addr sizeofT tx (?s * ?z + i)" for a
    proof (rule h')
      show "a \<noteq> piece1 sizeofT tx ?s + of_nat i" if "i < ?f * ?z" for i
        using outside [of i] that fn by (simp add: tx_addr_piece1 piece_index_first)
      show "a \<noteq> piece2 sizeofT tx ?s + of_nat i" if "i < (?n - ?f) * ?z" for i
        using outside [of "?f * ?z + i"] that piece_index_second [OF that fn]
          tx_addr_piece2 [of tx ?s ?n sizeofT i]
        by (simp add: add.assoc)
    qed
  qed
qed

text \<open>
  \<open>copyFrom\<close> is its mirror image: byte \<open>i\<close> of the buffer receives byte \<open>i\<close> of the
  transaction, and the ring stays as it is.
\<close>

lemma copyFrom_transfers:
  assumes ok: "tx_ok sizeofT tx" and fits: "unat startIdx + unat nMessages \<le> tx_length tx"
    and data: "data \<noteq> 0"
    and apart: "buffer_apart sizeofT tx data (unat nMessages * unat sizeofT)"
  obtains h' where "copyFrom sizeofT tx h data startIdx nMessages = Inr (True, h')"
    and "words64 h' = words64 h" and "words32 h' = words32 h"
    and "\<And>i. i < unat nMessages * unat sizeofT \<Longrightarrow>
      bytes h' (data + of_nat i) = bytes h (tx_addr sizeofT tx (unat startIdx * unat sizeofT + i))"
    and "\<And>a. (\<And>i. i < unat nMessages * unat sizeofT \<Longrightarrow> a \<noteq> data + of_nat i) \<Longrightarrow>
      bytes h' a = bytes h a"
proof -
  let ?s = "unat startIdx" and ?n = "unat nMessages" and ?z = "unat sizeofT"
  let ?f = "first_part tx ?s ?n"
  have fn: "?f \<le> ?n" by (simp add: first_part_def)
  obtain c1 c2 b1 b2 where
    info: "getMemRegionInfo sizeofT tx startIdx nMessages 0 0 = Some (c1, c2, b1, b2)"
    and b1: "c1 \<noteq> 0 \<longrightarrow> b1 = piece1 sizeofT tx ?s"
    and b2: "c2 \<noteq> 0 \<longrightarrow> b2 = piece2 sizeofT tx ?s"
    and n1: "unat (c1 * sizeofT) = ?f * ?z" and n2: "unat (c2 * sizeofT) = (?n - ?f) * ?z"
    and off: "c1 * sizeofT = of_nat (?f * ?z)"
    by (rule getMemRegionInfo_bytes [OF ok fits])
  note dis = pieces_disjoint [OF ok fits apart]
  obtain h' where h': "two_copies h data (piece1 sizeofT tx ?s) (c1 * sizeofT)
      (data + of_nat (?f * ?z)) (piece2 sizeofT tx ?s) (c2 * sizeofT) = Inr h'"
    "words64 h' = words64 h" "words32 h' = words32 h"
    "\<And>i. i < ?f * ?z \<Longrightarrow> bytes h' (data + of_nat i) = bytes h (piece1 sizeofT tx ?s + of_nat i)"
    "\<And>i. i < (?n - ?f) * ?z \<Longrightarrow> bytes h' (data + of_nat (?f * ?z) + of_nat i) =
       bytes h (piece2 sizeofT tx ?s + of_nat i)"
    "\<And>a. (\<And>i. i < ?f * ?z \<Longrightarrow> a \<noteq> data + of_nat i) \<Longrightarrow>
         (\<And>i. i < (?n - ?f) * ?z \<Longrightarrow> a \<noteq> data + of_nat (?f * ?z) + of_nat i) \<Longrightarrow>
         bytes h' a = bytes h a"
    using two_copies_ok [of data "c1 * sizeofT" "piece1 sizeofT tx ?s"
        "data + of_nat (?f * ?z)" "c2 * sizeofT" "piece2 sizeofT tx ?s" h] dis(1,2,4,5)
    unfolding n1 n2 by blast
  show ?thesis
  proof (rule that [of h'])
    show "copyFrom sizeofT tx h data startIdx nMessages = Inr (True, h')"
      using data h'(1) [folded off] b1 b2
      by (cases "c1 = 0"; cases "c2 = 0")
        (simp_all add: copyFrom_def info two_copies_def bind_res_eq_Inr)
    show "words64 h' = words64 h" "words32 h' = words32 h" by (fact h')+
    show "bytes h' (data + of_nat i) = bytes h (tx_addr sizeofT tx (?s * ?z + i))"
      if "i < ?n * ?z" for i
      using that fn
    proof (cases rule: piece_index_split)
      case 1
      then show ?thesis by (simp add: tx_addr_piece1 h')
    next
      case (2 j)
      then show ?thesis
        using tx_addr_piece2 [OF 2(3), of sizeofT j] h'(5) [of j] by (simp add: add.assoc)
    qed
    show "bytes h' a = bytes h a" if outside: "\<And>i. i < ?n * ?z \<Longrightarrow> a \<noteq> data + of_nat i" for a
    proof (rule h')
      show "a \<noteq> data + of_nat i" if "i < ?f * ?z" for i
        using outside [of i] that fn by (simp add: piece_index_first)
      show "a \<noteq> data + of_nat (?f * ?z) + of_nat i" if "i < (?n - ?f) * ?z" for i
        using outside [of "?f * ?z + i"] piece_index_second [OF that fn]
        by (simp add: add.assoc)
    qed
  qed
qed

section \<open>Slots\<close>

text \<open>
  \<open>getSlot\<close> on a transaction of \<open>N\<close> messages. An index below \<open>N\<close> gives the address of the
  first byte of that message, across both regions; an index above \<open>N\<close> gives null. The index
  \<open>N\<close> itself, which is out of range, gives the address just past the second region.
\<close>

lemma getSlot_cases:
  assumes ok: "tx_ok sizeofT tx"
  shows "getSlot sizeofT tx idx =
    (if unat idx < tx_length tx then tx_addr sizeofT tx (unat idx * unat sizeofT)
     else if unat idx = tx_length tx
       then address (second tx) + region_length (second tx) * sizeofT
     else nullptr)"
proof -
  let ?f = "region_length (first tx)" and ?g = "region_length (second tx)"
  have "tx_length tx < 18446744073709551616" by (rule tx_length_small [OF ok])
  then have sum: "unat (?f + ?g) = tx_length tx" by (simp add: unat_add_u64 tx_length_def)
  have z: "0 < unat sizeofT" using ok by (simp add: tx_ok_def)
  have over: "idx > ?f + ?g \<longleftrightarrow> tx_length tx < unat idx" by (simp add: word_less_nat_alt sum)
  consider (in_first) "unat idx < unat ?f" | (in_second) "unat ?f \<le> unat idx" "unat idx < tx_length tx"
    | (at_end) "unat idx = tx_length tx" "unat ?f \<le> unat idx" | (beyond) "tx_length tx < unat idx"
    unfolding tx_length_def by linarith
  then show ?thesis
  proof cases
    case in_first
    then show ?thesis
      using z over by (simp add: getSlot_def tx_addr_def word_less_nat_alt tx_length_def sum)
  next
    case in_second
    then have "unat ?f * unat sizeofT \<le> unat idx * unat sizeofT" by simp
    then have "of_nat (unat idx * unat sizeofT - unat ?f * unat sizeofT) =
        idx * sizeofT - ?f * sizeofT"
      by (simp add: of_nat_diff)
    with in_second z over show ?thesis
      by (simp add: getSlot_def tx_addr_def word_less_nat_alt sum)
  next
    case at_end
    then have "idx = ?f + ?g" using sum by (metis word_of_nat_unat)
    with at_end show ?thesis
      by (simp add: getSlot_def word_less_nat_alt sum algebra_simps)
  next
    case beyond
    then show ?thesis using over by (simp add: getSlot_def)
  qed
qed

end
