(* ===== verification/Descriptor_Base.thy ===== *)
theory Descriptor_Base
  imports Memory
begin

unbundle bit_operations_syntax

text \<open>
  \<open>base/fmq/MQDescriptorBase.h\<close>: the flavors of a queue, the grantor descriptors that
  say where its counters, its ring and its event-flag word lie in shared memory, and the
  word alignment of their offsets.
\<close>

section \<open>Flavors and grantors\<close>

datatype MQFlavor = kSynchronizedReadWrite | kUnsynchronizedWrite

fun MQFlavor_value :: "MQFlavor \<Rightarrow> u32" where
  "MQFlavor_value kSynchronizedReadWrite = 1"
| "MQFlavor_value kUnsynchronizedWrite = 2"

record GrantorDescriptor =
  flags :: u32
  fdIndex :: u32
  offset :: u32
  extent :: u64

text \<open>\<open>GrantorDescriptor()\<close>: the elements that \<open>std::vector::resize\<close> appends.\<close>

definition GrantorDescriptor_zero :: GrantorDescriptor where
  "GrantorDescriptor_zero = \<lparr>flags = 0, fdIndex = 0, offset = 0, extent = 0\<rparr>"

definition READPTRPOS :: nat where "READPTRPOS = 0"
definition WRITEPTRPOS :: nat where "WRITEPTRPOS = 1"
definition DATAPTRPOS :: nat where "DATAPTRPOS = 2"
definition EVFLAGWORDPOS :: nat where "EVFLAGWORDPOS = 3"

definition kMinGrantorCount :: nat where
  "kMinGrantorCount = DATAPTRPOS + 1"

definition kMinGrantorCountForEvFlagSupport :: nat where
  "kMinGrantorCountForEvFlagSupport = EVFLAGWORDPOS + 1"

lemmas grantor_pos_defs [simp] =
  READPTRPOS_def WRITEPTRPOS_def DATAPTRPOS_def EVFLAGWORDPOS_def
  kMinGrantorCount_def kMinGrantorCountForEvFlagSupport_def

text \<open>\<open>sizeof(RingBufferPosition)\<close> and \<open>sizeof(std::atomic<uint32_t>)\<close>.\<close>

definition sizeof_RingBufferPosition :: size_t where "sizeof_RingBufferPosition = 8"
definition sizeof_EventFlagWord :: size_t where "sizeof_EventFlagWord = 4"

section \<open>Alignment\<close>

definition kAlignmentSize :: size_t where "kAlignmentSize = 64"

text \<open>\<open>SIZE_MAX\<close> is the largest \<open>size_t\<close>, the word \<open>- 1\<close>.\<close>

definition alignToWordBoundary :: "size_t \<Rightarrow> size_t res" where
  "alignToWordBoundary len =
     (if len \<le> - 1 - kAlignmentSize div 8 + 1
      then Inr ((len + kAlignmentSize div 8 - 1) AND NOT (kAlignmentSize div 8 - 1))
      else Inl CheckFailed)"

definition isAlignedToWordBoundary :: "size_t \<Rightarrow> bool" where
  "isAlignedToWordBoundary off \<longleftrightarrow> off AND (kAlignmentSize div 8 - 1) = 0"

lemma and_not_eq_diff: "(x :: u64) AND NOT m = x - (x AND m)"
proof -
  have "(x AND m) + (x AND NOT m) = (x AND m) OR (x AND NOT m)"
    by (rule disjunctive_add) (simp add: bit_simps)
  also have "\<dots> = x" by (rule bit_eqI) (auto simp: bit_simps)
  finally show ?thesis by (simp add: algebra_simps)
qed

lemma and_not_7: "unat ((x :: u64) AND - 8) = unat x - unat x mod 8"
proof -
  have "x AND 7 = x mod 8"
    using take_bit_eq_mask [of 3 x] by (simp add: mask_eq_exp_minus_1 take_bit_eq_mod)
  moreover have "(- 8 :: u64) = NOT 7" by simp
  ultimately have "x AND - 8 = x - x mod 8"
    by (simp only: and_not_eq_diff)
  moreover have "x mod 8 \<le> x" by (simp add: word_le_nat_alt unat_mod)
  ultimately show ?thesis by (simp add: unat_sub unat_mod)
qed

lemma isAlignedToWordBoundary_iff: "isAlignedToWordBoundary off \<longleftrightarrow> 8 dvd unat off"
proof -
  have "off AND 7 = off mod 8"
    using take_bit_eq_mask [of 3 off] by (simp add: mask_eq_exp_minus_1 take_bit_eq_mod)
  then have "isAlignedToWordBoundary off \<longleftrightarrow> unat (off mod 8) = 0"
    by (simp add: isAlignedToWordBoundary_def kAlignmentSize_def unat_0_iff)
  then show ?thesis by (simp add: unat_mod dvd_eq_mod_eq_0)
qed

text \<open>Rounding up to a multiple of eight, on naturals.\<close>

definition round_up8 :: "nat \<Rightarrow> nat" where
  "round_up8 n = (n + 7) div 8 * 8"

lemma round_up8_bounds: "n \<le> round_up8 n" "round_up8 n \<le> n + 7" "8 dvd round_up8 n"
  by (auto simp: round_up8_def)

lemma round_up8_id: "8 dvd n \<Longrightarrow> round_up8 n = n"
  by (auto simp: round_up8_def elim!: dvdE)

lemma alignToWordBoundary_Inr:
  assumes "unat len \<le> 18446744073709551608"
  shows "alignToWordBoundary len = Inr (of_nat (round_up8 (unat len)))"
    and "round_up8 (unat len) < 18446744073709551616"
proof -
  have le: "len \<le> - 1 - kAlignmentSize div 8 + 1"
    using assms by (simp add: kAlignmentSize_def word_le_nat_alt)
  have plus: "unat (len + 7) = unat len + 7"
    using assms by (simp add: unat_add_u64)
  have "unat ((len + 7) AND - 8) = round_up8 (unat len)"
    unfolding and_not_7 plus round_up8_def by (rule minus_mod_eq_div_mult)
  then have "(len + 7) AND - 8 = of_nat (round_up8 (unat len))"
    by (metis word_of_nat_unat)
  then have "7 + len AND - 8 = of_nat (round_up8 (unat len))"
    by (simp add: add.commute)
  then show "alignToWordBoundary len = Inr (of_nat (round_up8 (unat len)))"
    using le by (simp add: alignToWordBoundary_def kAlignmentSize_def)
  show "round_up8 (unat len) < 18446744073709551616"
    using round_up8_bounds(2) [of "unat len"] assms by (simp add: round_up8_def)
qed

lemma alignToWordBoundary_Inl:
  assumes "18446744073709551608 < unat len"
  shows "alignToWordBoundary len = Inl CheckFailed"
  using assms by (simp add: alignToWordBoundary_def kAlignmentSize_def word_le_nat_alt)

text \<open>
  \<open>alignToWordBoundary\<close> aborts exactly for the lengths above \<open>2 ^ 64 - 8\<close>; otherwise its
  result is the least word-aligned length that is not below the argument.
\<close>

lemma alignToWordBoundary_least:
  "alignToWordBoundary len =
     (if unat len \<le> 2 ^ 64 - 8
      then Inr (of_nat (LEAST m. unat len \<le> m \<and> 8 dvd m))
      else Inl CheckFailed)"
proof (cases "unat len \<le> 18446744073709551608")
  case True
  have "(LEAST m. unat len \<le> m \<and> 8 dvd m) = round_up8 (unat len)"
  proof (rule Least_equality)
    show "unat len \<le> round_up8 (unat len) \<and> 8 dvd round_up8 (unat len)"
      by (simp add: round_up8_bounds)
    show "round_up8 (unat len) \<le> m" if "unat len \<le> m \<and> 8 dvd m" for m
      using that by (auto simp: round_up8_def elim!: dvdE)
  qed
  with True show ?thesis by (simp add: alignToWordBoundary_Inr)
next
  case False
  then show ?thesis by (simp add: alignToWordBoundary_Inl)
qed

end
