(* ===== verification/Shim_Descriptor.thy ===== *)
theory Shim_Descriptor
  imports Descriptor_Base
begin

text \<open>
  \<open>include/fmq/AidlMQDescriptorShim.h\<close>: the descriptor object a queue owns. This theory
  holds the record, its accessors and the two constructors that build a fresh descriptor;
  the layout they give to the shared memory is the subject of the lemmas. Copying and the
  exchange with AIDL descriptors are in \<open>Descriptor_Exchange\<close>.
\<close>

section \<open>State and accessors\<close>

text \<open>
  A \<open>native_handle_t\<close> is its two counts and its array of file descriptors followed by
  plain integers. The template argument \<open>flavor\<close> of the class is an argument of the
  constructors.
\<close>

record native_handle =
  numFds :: int
  numInts :: int
  handle_data :: "int list"

record Shim =
  mGrantors :: "GrantorDescriptor list"
  mHandle :: "native_handle option"
  mQuantum :: u32
  mFlags :: u32
  mName :: string

definition getSize :: "Shim \<Rightarrow> size_t" where
  "getSize d = (if length (mGrantors d) > DATAPTRPOS
                then extent (mGrantors d ! DATAPTRPOS) else 0)"

definition getQuantum :: "Shim \<Rightarrow> size_t" where
  "getQuantum d = ucast (mQuantum d)"

definition getFlags :: "Shim \<Rightarrow> u32" where
  "getFlags d = mFlags d"

definition isHandleValid :: "Shim \<Rightarrow> bool" where
  "isHandleValid d \<longleftrightarrow> mHandle d \<noteq> None"

definition countGrantors :: "Shim \<Rightarrow> nat" where
  "countGrantors d = length (mGrantors d)"

text \<open>The name of the shared memory, on Windows.\<close>

definition setName :: "string \<Rightarrow> Shim \<Rightarrow> Shim" where
  [simp]: "setName a_name d = d\<lparr>mName := a_name\<rparr>"

definition getName :: "Shim \<Rightarrow> string" where
  [simp]: "getName d = mName d"

section \<open>Constructors\<close>

definition shim_of_grantors ::
  "MQFlavor \<Rightarrow> GrantorDescriptor list \<Rightarrow> native_handle option \<Rightarrow> size_t \<Rightarrow> Shim" where
  "shim_of_grantors flavor grantors nhandle quantumSize =
     \<lparr>mGrantors = grantors, mHandle = nhandle, mQuantum = ucast quantumSize,
      mFlags = MQFlavor_value flavor, mName = ''''\<rparr>"

text \<open>
  The loop that fills the grantors: \<open>memSize\<close> is the part of the table still to be visited
  and \<open>off\<close> the running offset, the unaligned sum of the sizes before it.
\<close>

fun contiguous_grantors :: "size_t \<Rightarrow> size_t list \<Rightarrow> GrantorDescriptor list res" where
  "contiguous_grantors off [] = Inr []"
| "contiguous_grantors off (memSize # rest) =
     bind_res (alignToWordBoundary off) (\<lambda>aligned.
     bind_res (contiguous_grantors (off + memSize) rest) (\<lambda>gs.
     Inr (\<lparr>flags = 0, fdIndex = 0, offset = ucast aligned, extent = memSize\<rparr> # gs)))"

definition shim_of_size ::
  "MQFlavor \<Rightarrow> size_t \<Rightarrow> native_handle option \<Rightarrow> size_t \<Rightarrow> bool \<Rightarrow> Shim res" where
  "shim_of_size flavor bufferSize nHandle messageSize configureEventFlag =
     (let empty = \<lparr>mGrantors = [], mHandle = nHandle, mQuantum = ucast messageSize,
                   mFlags = MQFlavor_value flavor, mName = ''''\<rparr>;
          overflow = bufferSize > - 1 - (sizeof_RingBufferPosition + sizeof_RingBufferPosition)
      in bind_res (alignToWordBoundary
           (sizeof_RingBufferPosition + sizeof_RingBufferPosition + bufferSize)) (\<lambda>largestOffset.
         if overflow \<or> largestOffset > 2147483647 \<or> messageSize > 2147483647 then Inr empty
         else
           let grantorCount = (if configureEventFlag then kMinGrantorCountForEvFlagSupport
                               else kMinGrantorCount);
               memSize = [sizeof_RingBufferPosition, sizeof_RingBufferPosition, bufferSize,
                          sizeof_EventFlagWord]
           in bind_res (contiguous_grantors 0 (take grantorCount memSize)) (\<lambda>gs.
              Inr (empty\<lparr>mGrantors := gs\<rparr>))))"

section \<open>The layout of a fresh descriptor\<close>

text \<open>A grantor names the bytes from its offset up to its offset plus its extent.\<close>

definition grantor_range :: "GrantorDescriptor \<Rightarrow> nat \<times> nat" where
  "grantor_range g = (unat (offset g), unat (offset g) + unat (extent g))"

definition grantors_disjoint :: "GrantorDescriptor list \<Rightarrow> bool" where
  "grantors_disjoint gs \<longleftrightarrow>
     (\<forall>i<length gs. \<forall>j<i. snd (grantor_range (gs ! j)) \<le> fst (grantor_range (gs ! i)))"

definition grantors_aligned :: "GrantorDescriptor list \<Rightarrow> bool" where
  "grantors_aligned gs \<longleftrightarrow> (\<forall>g\<in>set gs. isAlignedToWordBoundary (ucast (offset g)))"

text \<open>The bytes of shared memory the grantors need, from offset zero.\<close>

definition grantors_end :: "GrantorDescriptor list \<Rightarrow> nat" where
  "grantors_end gs = Max (insert 0 ((snd \<circ> grantor_range) ` set gs))"

lemma unat_ucast_32_64 [simp]: "unat (ucast (x :: u32) :: u64) = unat x"
proof -
  have "unat x < 4294967296" using unsigned_less [of x] by simp
  then show ?thesis by (simp add: unsigned_ucast_eq take_bit_eq_mod)
qed

lemma unat_ucast_64_32:
  "unat (x :: u64) < 4294967296 \<Longrightarrow> unat (ucast x :: u32) = unat x"
  by (simp add: unsigned_ucast_eq take_bit_eq_mod)

lemma unat_ucast_of_nat:
  "n < 4294967296 \<Longrightarrow> unat (ucast (of_nat n :: u64) :: u32) = n"
  by (simp add: unat_ucast_64_32)

lemma ucast_of_nat_32:
  assumes "n < 4294967296"
  shows "(ucast (of_nat n :: u64) :: u32) = of_nat n"
proof -
  have "(of_nat (unat (ucast (of_nat n :: u64) :: u32)) :: u32) = of_nat n"
    by (simp only: unat_ucast_of_nat [OF assms])
  then show ?thesis by simp
qed

text \<open>The four grantors that a small enough buffer gets.\<close>

definition default_grantors :: "size_t \<Rightarrow> bool \<Rightarrow> GrantorDescriptor list" where
  "default_grantors bufferSize ev =
     [\<lparr>flags = 0, fdIndex = 0, offset = 0, extent = 8\<rparr>,
      \<lparr>flags = 0, fdIndex = 0, offset = 8, extent = 8\<rparr>,
      \<lparr>flags = 0, fdIndex = 0, offset = 16, extent = bufferSize\<rparr>] @
     (if ev then [\<lparr>flags = 0, fdIndex = 0,
        offset = of_nat (round_up8 (16 + unat bufferSize)), extent = 4\<rparr>] else [])"

lemma align_small [simp]:
  "alignToWordBoundary 0 = Inr 0"
  "alignToWordBoundary 8 = Inr 8"
  "alignToWordBoundary 16 = Inr 16"
  by (simp_all add: alignToWordBoundary_def kAlignmentSize_def)

lemma contiguous_grantors_default:
  assumes small: "16 + unat bufferSize \<le> 2147483640"
  shows "contiguous_grantors 0 (take (if ev then 4 else 3) [8, 8, bufferSize, 4]) =
    Inr (default_grantors bufferSize ev)"
proof -
  have plus: "unat (16 + bufferSize) = 16 + unat bufferSize"
    using small by (simp add: unat_add_u64)
  have al: "alignToWordBoundary (16 + bufferSize) =
      Inr (of_nat (round_up8 (16 + unat bufferSize)))"
    using small by (simp add: alignToWordBoundary_Inr plus)
  have "round_up8 (16 + unat bufferSize) < 4294967296"
    using round_up8_bounds(2) [of "16 + unat bufferSize"] small by linarith
  then show ?thesis
    by (simp add: default_grantors_def al ucast_of_nat_32)
qed

lemma shim_of_size_ok:
  assumes small: "16 + unat bufferSize \<le> 2147483640" and msg: "unat messageSize < 2147483648"
  shows "shim_of_size flavor bufferSize nHandle messageSize ev =
    Inr \<lparr>mGrantors = default_grantors bufferSize ev, mHandle = nHandle,
         mQuantum = ucast messageSize, mFlags = MQFlavor_value flavor, mName = ''''\<rparr>"
proof -
  have plus: "unat (16 + bufferSize) = 16 + unat bufferSize"
    using small by (simp add: unat_add_u64)
  have r: "round_up8 (16 + unat bufferSize) \<le> 2147483647"
    using round_up8_bounds(2) [of "16 + unat bufferSize"] small by linarith
  have al: "alignToWordBoundary (16 + bufferSize) =
      Inr (of_nat (round_up8 (16 + unat bufferSize)))"
    using small by (simp add: alignToWordBoundary_Inr plus)
  have c: "\<not> bufferSize > - 1 - 16" "\<not> messageSize > 2147483647"
    "\<not> (of_nat (round_up8 (16 + unat bufferSize)) :: u64) > 2147483647"
    using small msg r by (simp_all add: word_less_nat_alt)
  show ?thesis
    using c contiguous_grantors_default [OF small, of ev]
    by (cases ev) (simp_all add: shim_of_size_def sizeof_RingBufferPosition_def
        sizeof_EventFlagWord_def al Let_def)
qed

lemma shim_of_size_refused:
  assumes big: "\<not> (16 + unat bufferSize \<le> 2147483640 \<and> unat messageSize < 2147483648)"
    and al: "unat (16 + bufferSize) \<le> 18446744073709551608"
  shows "shim_of_size flavor bufferSize nHandle messageSize ev =
    Inr \<lparr>mGrantors = [], mHandle = nHandle, mQuantum = ucast messageSize,
         mFlags = MQFlavor_value flavor, mName = ''''\<rparr>"
proof -
  note run = alignToWordBoundary_Inr [OF al]
  have "bufferSize > - 1 - 16 \<or> 2147483647 < round_up8 (unat (16 + bufferSize)) \<or>
      messageSize > 2147483647"
  proof (cases "16 + unat bufferSize < 18446744073709551616")
    case False
    then show ?thesis by (simp add: word_less_nat_alt)
  next
    case True
    then have "unat (16 + bufferSize) = 16 + unat bufferSize" by (simp add: unat_add_u64)
    moreover have "2147483647 < round_up8 k" if "2147483640 < k" for k
      using that div_le_mono [of 2147483648 "k + 7" 8] by (simp add: round_up8_def)
    ultimately show ?thesis using big by (auto simp: word_less_nat_alt)
  qed
  then have "bufferSize > - 1 - 16 \<or>
      (of_nat (round_up8 (unat (16 + bufferSize))) :: u64) > 2147483647 \<or> messageSize > 2147483647"
    using run(2) by (simp add: word_less_nat_alt)
  then show ?thesis
    by (auto simp: shim_of_size_def sizeof_RingBufferPosition_def run(1) Let_def)
qed

text \<open>
  C25: the constructor that lays out one block of shared memory either aborts (only for sizes
  within eight of the top of \<open>size_t\<close>), or refuses the request by leaving the grantors empty,
  or produces the read counter, the write counter, the data buffer and, when asked for, the
  event-flag word, in this order and without gaps beyond the alignment.
\<close>

theorem shim_of_size_outcomes:
  "shim_of_size flavor bufferSize nHandle messageSize ev =
     (if unat (16 + bufferSize) > 2 ^ 64 - 8 then Inl CheckFailed
      else Inr \<lparr>mGrantors = (if 16 + unat bufferSize \<le> 2147483640 \<and> unat messageSize < 2147483648
                             then default_grantors bufferSize ev else []),
                mHandle = nHandle, mQuantum = ucast messageSize,
                mFlags = MQFlavor_value flavor, mName = ''''\<rparr>)"
proof (cases "unat (16 + bufferSize) > 18446744073709551608")
  case True
  then show ?thesis
    by (simp add: shim_of_size_def sizeof_RingBufferPosition_def alignToWordBoundary_Inl Let_def)
next
  case False
  then show ?thesis
    using shim_of_size_ok [of bufferSize messageSize flavor nHandle ev]
      shim_of_size_refused [of bufferSize messageSize flavor nHandle ev] by simp
qed

lemma grantors_disjoint_Cons:
  "grantors_disjoint (g # gs) \<longleftrightarrow>
     (\<forall>g'\<in>set gs. snd (grantor_range g) \<le> fst (grantor_range g')) \<and> grantors_disjoint gs"
proof
  assume l: "grantors_disjoint (g # gs)"
  have "snd (grantor_range g) \<le> fst (grantor_range (gs ! i))" if "i < length gs" for i
    using l [unfolded grantors_disjoint_def, rule_format, of "Suc i" 0] that by simp
  moreover have "snd (grantor_range (gs ! j)) \<le> fst (grantor_range (gs ! i))"
    if "i < length gs" "j < i" for i j
    using l [unfolded grantors_disjoint_def, rule_format, of "Suc i" "Suc j"] that by simp
  ultimately show "(\<forall>g'\<in>set gs. snd (grantor_range g) \<le> fst (grantor_range g')) \<and>
      grantors_disjoint gs"
    by (auto simp: grantors_disjoint_def in_set_conv_nth)
next
  assume r: "(\<forall>g'\<in>set gs. snd (grantor_range g) \<le> fst (grantor_range g')) \<and>
    grantors_disjoint gs"
  show "grantors_disjoint (g # gs)"
    unfolding grantors_disjoint_def
  proof (intro allI impI)
    fix i j
    assume "i < length (g # gs)" "j < i"
    with r show "snd (grantor_range ((g # gs) ! j)) \<le> fst (grantor_range ((g # gs) ! i))"
      by (cases i; cases j) (auto simp: grantors_disjoint_def)
  qed
qed

lemma unat_offset_default:
  assumes "16 + unat bufferSize \<le> 2147483640"
  shows "unat (of_nat (round_up8 (16 + unat bufferSize)) :: u32) =
    round_up8 (16 + unat bufferSize)"
  using round_up8_bounds(2) [of "16 + unat bufferSize"] assms
  by (simp add: unat_of_nat take_bit_eq_mod)

lemma default_grantors_layout:
  assumes small: "16 + unat bufferSize \<le> 2147483640"
  shows "grantors_disjoint (default_grantors bufferSize ev)"
    and "grantors_aligned (default_grantors bufferSize ev)"
    and "grantors_end (default_grantors bufferSize ev) \<le>
      round_up8 (unat bufferSize) + 16 + (if ev then 4 else 0)"
proof -
  note off = unat_offset_default [OF small]
  have r: "16 + unat bufferSize \<le> round_up8 (16 + unat bufferSize)"
    "8 dvd round_up8 (16 + unat bufferSize)" "unat bufferSize \<le> round_up8 (unat bufferSize)"
    by (rule round_up8_bounds)+
  have "grantors_disjoint []" by (simp add: grantors_disjoint_def)
  with r(1) off show "grantors_disjoint (default_grantors bufferSize ev)"
    by (simp add: default_grantors_def grantors_disjoint_Cons grantor_range_def)
  show "grantors_aligned (default_grantors bufferSize ev)"
    using r(2) off
    by (simp add: default_grantors_def grantors_aligned_def isAlignedToWordBoundary_iff)
  have "round_up8 (16 + unat bufferSize) = round_up8 (unat bufferSize) + 16"
    using div_mult_self1 [of 8 "unat bufferSize + 7" 2]
    unfolding round_up8_def by (simp add: add.commute add_mult_distrib)
  with r(3) off show "grantors_end (default_grantors bufferSize ev) \<le>
      round_up8 (unat bufferSize) + 16 + (if ev then 4 else 0)"
    by (simp add: default_grantors_def grantors_end_def grantor_range_def)
qed

lemma shim_of_size_made:
  assumes run: "shim_of_size flavor bufferSize nHandle messageSize ev = Inr d"
    and made: "mGrantors d \<noteq> []"
  shows "16 + unat bufferSize \<le> 2147483640" and "unat messageSize < 2147483648"
    and "mGrantors d = default_grantors bufferSize ev"
    and "getQuantum d = messageSize" and "mHandle d = nHandle"
proof -
  let ?D = "\<lambda>gs. \<lparr>mGrantors = gs, mHandle = nHandle, mQuantum = ucast messageSize,
    mFlags = MQFlavor_value flavor, mName = ''''\<rparr>"
  have al: "unat (16 + bufferSize) \<le> 18446744073709551608"
  proof (rule ccontr)
    assume "\<not> ?thesis"
    then have "shim_of_size flavor bufferSize nHandle messageSize ev = Inl CheckFailed"
      by (simp add: shim_of_size_def sizeof_RingBufferPosition_def alignToWordBoundary_Inl Let_def)
    with run show False by simp
  qed
  have small: "16 + unat bufferSize \<le> 2147483640 \<and> unat messageSize < 2147483648"
  proof (rule ccontr)
    assume "\<not> ?thesis"
    from shim_of_size_refused [OF this al, of flavor nHandle ev] run have "d = ?D []" by simp
    with made show False by simp
  qed
  then have small: "16 + unat bufferSize \<le> 2147483640" "unat messageSize < 2147483648" by simp_all
  have d: "d = ?D (default_grantors bufferSize ev)"
    using shim_of_size_ok [OF small, of flavor nHandle ev] run by simp
  have "unat (getQuantum d) = unat messageSize"
    using small(2) by (simp add: getQuantum_def d unat_ucast_64_32)
  then show "getQuantum d = messageSize" by (metis word_of_nat_unat)
  show "16 + unat bufferSize \<le> 2147483640" "unat messageSize < 2147483648"
    "mGrantors d = default_grantors bufferSize ev" "mHandle d = nHandle"
    using small by (simp_all add: d)
qed

text \<open>
  C24: in every descriptor this constructor produces, the grantors are word-aligned and pairwise
  disjoint, end within the bytes that the queue's constructor allocates, and the accessors
  report the sizes that were asked for.
\<close>

theorem shim_of_size_layout:
  assumes run: "shim_of_size flavor bufferSize nHandle messageSize ev = Inr d"
    and made: "mGrantors d \<noteq> []"
  shows "grantors_disjoint (mGrantors d) \<and> grantors_aligned (mGrantors d) \<and>
    grantors_end (mGrantors d) \<le> round_up8 (unat bufferSize) + 16 + (if ev then 4 else 0) \<and>
    countGrantors d = (if ev then 4 else 3) \<and>
    getSize d = bufferSize \<and> getQuantum d = messageSize \<and> mHandle d = nHandle"
proof -
  note M = shim_of_size_made [OF run made]
  show ?thesis
    using default_grantors_layout [OF M(1), of ev] M(4,5)
    by (simp add: M(3) countGrantors_def getSize_def default_grantors_def)
qed

end
