(* ===== verification/Event_Flag.thy ===== *)
theory Event_Flag
  imports Memory "HOL-Library.Signed_Division"
begin

unbundle bit_operations_syntax

text \<open>
  \<open>EventFlag.cpp\<close>: a 32-bit word in shared memory on which readers and writers wait for and
  signal bits. The kernel, the clocks and the other threads are parameters: a record \<open>os\<close> of
  the calls the code makes, each of which may change the heap, because other threads run
  meanwhile, and a state \<open>'w\<close> of the rest of the world. The two sides of
  \<open>#ifdef _MSC_VER\<close> are the two values of \<open>platform\<close>; on the Windows side the futex calls
  are replaced by \<open>ret = 0\<close>.
\<close>

section \<open>Status codes\<close>

text \<open>\<open>status_t\<close> and \<open>errno\<close> values, as in \<open>utils/Errors.h\<close> over the POSIX error numbers.\<close>

definition NO_ERROR :: int where "NO_ERROR = 0"
definition EINTR :: int where "EINTR = 4"
definition EAGAIN :: int where "EAGAIN = 11"
definition ENOMEM :: int where "ENOMEM = 12"
definition EINVAL :: int where "EINVAL = 22"
definition ETIMEDOUT :: int where "ETIMEDOUT = 110"
definition NO_MEMORY :: int where "NO_MEMORY = - ENOMEM"
definition BAD_VALUE :: int where "BAD_VALUE = - EINVAL"
definition TIMED_OUT :: int where "TIMED_OUT = - ETIMEDOUT"

lemmas status_defs =
  NO_ERROR_def EINTR_def EAGAIN_def ENOMEM_def EINVAL_def ETIMEDOUT_def
  NO_MEMORY_def BAD_VALUE_def TIMED_OUT_def

section \<open>The environment\<close>

datatype platform = MSVC | POSIX

record timespec =
  tv_sec :: int
  tv_nsec :: int

type_synonym 'w st = "heap \<times> 'w"

text \<open>
  \<open>others\<close> is what the other threads do before the next atomic operation of this one. A
  system call returns its result and its \<open>errno\<close>. \<open>clock_gettime\<close> stands for the
  monotonic clock on POSIX, \<open>GetTickCount64\<close> for the millisecond counter on Windows.
\<close>

record 'w os =
  others :: "'w st \<Rightarrow> 'w st"
  elapsedRealtimeNano :: "'w st \<Rightarrow> int \<times> 'w st"
  clock_gettime :: "'w st \<Rightarrow> timespec \<times> 'w st"
  GetTickCount64 :: "'w st \<Rightarrow> int \<times> 'w st"
  futex_wake :: "ptr \<Rightarrow> u32 \<Rightarrow> 'w st \<Rightarrow> (int \<times> int) \<times> 'w st"
  futex_wait :: "ptr \<Rightarrow> u32 \<Rightarrow> timespec option \<Rightarrow> u32 \<Rightarrow> 'w st \<Rightarrow> (int \<times> int) \<times> 'w st"
  munmap :: "ptr \<Rightarrow> size_t \<Rightarrow> 'w st \<Rightarrow> (int \<times> int) \<times> 'w st"

section \<open>Atomic operations on the word\<close>

definition atomic_fetch_or :: "ptr \<Rightarrow> u32 \<Rightarrow> heap \<Rightarrow> (u32 \<times> heap) res" where
  "atomic_fetch_or p m h =
     (if p = nullptr then Inl Undefined
      else Inr (words32 h p, h\<lparr>words32 := (words32 h)(p := words32 h p OR m)\<rparr>))"

definition atomic_fetch_and :: "ptr \<Rightarrow> u32 \<Rightarrow> heap \<Rightarrow> (u32 \<times> heap) res" where
  "atomic_fetch_and p m h =
     (if p = nullptr then Inl Undefined
      else Inr (words32 h p, h\<lparr>words32 := (words32 h)(p := words32 h p AND m)\<rparr>))"

section \<open>The EventFlag object\<close>

record EventFlag =
  mEfWordNeedsUnmapping :: bool
  mEfWordPtr :: ptr

definition EventFlag_new :: "ptr \<Rightarrow> int \<times> EventFlag" where
  "EventFlag_new fwAddr =
     (if fwAddr = nullptr
      then (BAD_VALUE, \<lparr>mEfWordNeedsUnmapping = False, mEfWordPtr = nullptr\<rparr>)
      else (NO_ERROR, \<lparr>mEfWordNeedsUnmapping = False, mEfWordPtr = fwAddr\<rparr>))"

text \<open>
  A pointer argument \<open>EventFlag** flag\<close> is \<open>None\<close> when it is null and otherwise
  \<open>Some\<close> of the pointer it points to. \<open>allocated\<close> says whether \<open>new (std::nothrow)\<close>
  returned an object.
\<close>

definition createEventFlag ::
  "bool \<Rightarrow> ptr \<Rightarrow> EventFlag option option \<Rightarrow> int \<times> EventFlag option option" where
  "createEventFlag allocated fwAddr flag =
     (case flag of
        None \<Rightarrow> (BAD_VALUE, None)
      | Some _ \<Rightarrow>
          if allocated then
            (let (status, evFlag) = EventFlag_new fwAddr
             in if status = NO_ERROR then (status, Some (Some evFlag))
                else (status, Some None))
          else (NO_MEMORY, Some None))"

definition unmapEventFlagWord ::
  "'w os \<Rightarrow> ptr \<Rightarrow> bool \<Rightarrow> 'w st \<Rightarrow> int \<times> bool \<times> 'w st" where
  "unmapEventFlagWord sys efWordPtr efWordNeedsUnmapping s =
     (if efWordNeedsUnmapping then
        (case munmap sys efWordPtr 4 s of ((ret, errno), s') \<Rightarrow>
           (if ret \<noteq> 0 then - errno else NO_ERROR, False, s'))
      else (NO_ERROR, efWordNeedsUnmapping, s))"

text \<open>\<open>delete\<close> runs the destructor, which unmaps the word if that is still to be done.\<close>

definition EventFlag_destroy :: "'w os \<Rightarrow> EventFlag \<Rightarrow> 'w st \<Rightarrow> 'w st" where
  "EventFlag_destroy sys ef s =
     (case unmapEventFlagWord sys (mEfWordPtr ef) (mEfWordNeedsUnmapping ef) s of
        (status, needs, s') \<Rightarrow> s')"

definition deleteEventFlag ::
  "'w os \<Rightarrow> EventFlag option option \<Rightarrow> 'w st \<Rightarrow> int \<times> EventFlag option option \<times> 'w st" where
  "deleteEventFlag sys evFlag s =
     (case evFlag of
        None \<Rightarrow> (BAD_VALUE, None, s)
      | Some None \<Rightarrow> (BAD_VALUE, Some None, s)
      | Some (Some ef) \<Rightarrow>
          (case unmapEventFlagWord sys (mEfWordPtr ef) (mEfWordNeedsUnmapping ef) s of
             (status, needs, s1) \<Rightarrow>
               (status, Some None, EventFlag_destroy sys (ef\<lparr>mEfWordNeedsUnmapping := needs\<rparr>) s1)))"

section \<open>Waking\<close>

definition wake :: "'w os \<Rightarrow> platform \<Rightarrow> EventFlag \<Rightarrow> u32 \<Rightarrow> 'w st \<Rightarrow> (int \<times> 'w st) res" where
  "wake sys pf ef bitmask s =
     (if bitmask = 0 then Inr (NO_ERROR, s)
      else (case others sys s of (h, w) \<Rightarrow>
        bind_res (atomic_fetch_or (mEfWordPtr ef) bitmask h) (\<lambda>(old, h').
        if NOT old AND bitmask \<noteq> 0 then
          (case (case pf of MSVC \<Rightarrow> ((0, 0), (h', w))
                 | POSIX \<Rightarrow> futex_wake sys (mEfWordPtr ef) bitmask (h', w)) of
             ((ret, errno), s') \<Rightarrow> Inr (if ret = - 1 then - errno else NO_ERROR, s'))
        else Inr (NO_ERROR, (h', w)))))"

section \<open>Waiting\<close>

definition kNanosPerSecond :: int where "kNanosPerSecond = 1000000000"

text \<open>C division and remainder truncate towards zero: \<open>sdiv\<close> and \<open>smod\<close>.\<close>

definition addNanoseconds :: "int \<Rightarrow> timespec \<Rightarrow> timespec" where
  "addNanoseconds nanoSeconds t =
     (let sec = tv_sec t + (nanoSeconds sdiv kNanosPerSecond);
          nsec = tv_nsec t + (nanoSeconds smod kNanosPerSecond)
      in if nsec \<ge> kNanosPerSecond
         then \<lparr>tv_sec = sec + 1, tv_nsec = nsec - kNanosPerSecond\<rparr>
         else \<lparr>tv_sec = sec, tv_nsec = nsec\<rparr>)"

definition addNanosecondsToCurrentTime ::
  "'w os \<Rightarrow> platform \<Rightarrow> int \<Rightarrow> 'w st \<Rightarrow> timespec \<times> 'w st" where
  "addNanosecondsToCurrentTime sys pf nanoSeconds s =
     (case (case pf of
              MSVC \<Rightarrow> (case GetTickCount64 sys s of (cnt, s') \<Rightarrow>
                (\<lparr>tv_sec = cnt sdiv 1000, tv_nsec = (cnt - (cnt sdiv 1000) * 1000) * 1000000\<rparr>, s'))
            | POSIX \<Rightarrow> clock_gettime sys s) of
        (waitTime, s') \<Rightarrow> (addNanoseconds nanoSeconds waitTime, s'))"

text \<open>The branch of \<open>waitHelper\<close> that puts the thread to sleep, with its absolute timeout.\<close>

definition waitSyscall ::
  "'w os \<Rightarrow> platform \<Rightarrow> EventFlag \<Rightarrow> u32 \<Rightarrow> int \<Rightarrow> u32 \<Rightarrow> 'w st \<Rightarrow> (int \<times> int) \<times> 'w st" where
  "waitSyscall sys pf ef efWord timeoutNanoSeconds bitmask s =
     (if timeoutNanoSeconds \<noteq> 0 then
        (case addNanosecondsToCurrentTime sys pf timeoutNanoSeconds s of (waitTimeAbsolute, s1) \<Rightarrow>
           (case pf of MSVC \<Rightarrow> ((0, 0), s1)
            | POSIX \<Rightarrow> futex_wait sys (mEfWordPtr ef) efWord (Some waitTimeAbsolute) bitmask s1))
      else
        (case pf of MSVC \<Rightarrow> ((0, 0), s)
         | POSIX \<Rightarrow> futex_wait sys (mEfWordPtr ef) efWord None bitmask s))"

text \<open>
  The out parameter \<open>uint32_t* efState\<close> is \<open>None\<close> when null and otherwise \<open>Some\<close> of the
  value it points to; the new contents are returned.
\<close>

definition waitHelper ::
  "'w os \<Rightarrow> platform \<Rightarrow> EventFlag \<Rightarrow> u32 \<Rightarrow> u32 option \<Rightarrow> int \<Rightarrow> 'w st \<Rightarrow>
     (int \<times> u32 option \<times> 'w st) res" where
  "waitHelper sys pf ef bitmask efState timeoutNanoSeconds s =
     (if bitmask = 0 \<or> efState = None then Inr (BAD_VALUE, efState, s)
      else (case others sys s of (h, w) \<Rightarrow>
        bind_res (atomic_fetch_and (mEfWordPtr ef) (NOT bitmask) h) (\<lambda>(old, h').
        let setBits = old AND bitmask in
        if setBits \<noteq> 0 then Inr (NO_ERROR, Some setBits, (h', w))
        else
          let efWord = old AND NOT bitmask in
          (case waitSyscall sys pf ef efWord timeoutNanoSeconds bitmask (h', w) of
             ((ret, errno), s2) \<Rightarrow>
               if ret = - 1 then Inr (- errno, Some 0, s2)
               else (case others sys s2 of (h3, w3) \<Rightarrow>
                 bind_res (atomic_fetch_and (mEfWordPtr ef) (NOT bitmask) h3) (\<lambda>(old, h4).
                 Inr (if old AND bitmask = 0 then - EINTR else NO_ERROR,
                      Some (old AND bitmask), (h4, w3))))))))"

text \<open>
  The loop of \<open>wait\<close> with \<open>retry\<close>; \<open>None\<close> means that the fuel ran out before the loop was
  left.
\<close>

primrec wait_loop ::
  "nat \<Rightarrow> 'w os \<Rightarrow> platform \<Rightarrow> EventFlag \<Rightarrow> u32 \<Rightarrow> bool \<Rightarrow> u32 option \<Rightarrow> int \<Rightarrow> int \<Rightarrow> 'w st \<Rightarrow>
     (int \<times> u32 option \<times> 'w st) res option" where
  "wait_loop 0 sys pf ef bitmask shouldTimeOut efState timeout prevTimeNs s = None"
| "wait_loop (Suc fuel) sys pf ef bitmask shouldTimeOut efState timeout prevTimeNs s =
     (let (currentTimeNs, s1) = (if shouldTimeOut then elapsedRealtimeNano sys s else (prevTimeNs, s));
          timeout' = (if shouldTimeOut then timeout - (currentTimeNs - prevTimeNs) else timeout)
      in if shouldTimeOut \<and> timeout' \<le> 0 then
           Some (if efState = None then Inl Undefined else Inr (- ETIMEDOUT, Some 0, s1))
         else
           (case waitHelper sys pf ef bitmask efState timeout' s1 of
              Inl e \<Rightarrow> Some (Inl e)
            | Inr (status, efState', s2) \<Rightarrow>
                if status \<noteq> - EAGAIN \<and> status \<noteq> - EINTR then Some (Inr (status, efState', s2))
                else wait_loop fuel sys pf ef bitmask shouldTimeOut efState' timeout' currentTimeNs s2))"

declare wait_loop.simps(2) [simp del]

definition wait ::
  "nat \<Rightarrow> 'w os \<Rightarrow> platform \<Rightarrow> EventFlag \<Rightarrow> u32 \<Rightarrow> u32 option \<Rightarrow> int \<Rightarrow> bool \<Rightarrow> 'w st \<Rightarrow>
     (int \<times> u32 option \<times> 'w st) res option" where
  "wait fuel sys pf ef bitmask efState timeoutNanoSeconds retry s =
     (if \<not> retry then Some (waitHelper sys pf ef bitmask efState timeoutNanoSeconds s)
      else
        let shouldTimeOut = (timeoutNanoSeconds \<noteq> 0);
            (prevTimeNs, s1) = (if shouldTimeOut then elapsedRealtimeNano sys s else (0, s))
        in wait_loop fuel sys pf ef bitmask shouldTimeOut efState timeoutNanoSeconds prevTimeNs s1)"

section \<open>What waking and waiting guarantee\<close>

text \<open>The documented contract of the futex call: a failure comes with a positive error number.\<close>

definition futex_errno_positive :: "'w os \<Rightarrow> bool" where
  "futex_errno_positive sys \<longleftrightarrow>
     (\<forall>p expected t mask s errno s'.
        futex_wait sys p expected t mask s = ((- 1, errno), s') \<longrightarrow> 0 < errno)"

text \<open>The bits of \<open>b\<close> are set in the word at \<open>p\<close>.\<close>

definition bits_set :: "ptr \<Rightarrow> u32 \<Rightarrow> 'w st \<Rightarrow> bool" where
  "bits_set p b s \<longleftrightarrow> words32 (fst s) p AND b = b"

text \<open>While this thread runs, no other thread clears the bits \<open>b\<close> of the word at \<open>p\<close>.\<close>

definition bits_kept :: "'w os \<Rightarrow> ptr \<Rightarrow> u32 \<Rightarrow> bool" where
  "bits_kept sys p b \<longleftrightarrow>
     (\<forall>s. bits_set p b s \<longrightarrow> bits_set p b (others sys s)) \<and>
     (\<forall>q m s. bits_set p b s \<longrightarrow> bits_set p b (snd (futex_wake sys q m s)))"

lemma and_or_absorb: "(x OR m) AND (m AND k) = m AND (k :: u32)"
  by (rule bit_eqI) (auto simp: bit_simps)

lemma and_and_not: "(x AND m) AND NOT m = (0 :: u32)"
  by (rule bit_eqI) (auto simp: bit_simps)

lemma waitSyscall_errno:
  assumes "futex_errno_positive sys" and "waitSyscall sys pf ef efWord t m s = ((- 1, errno), s')"
  shows "0 < errno"
proof -
  have "\<And>p expected t mask s e s'.
      futex_wait sys p expected t mask s = ((- 1, e), s') \<Longrightarrow> 0 < e"
    using assms(1) unfolding futex_errno_positive_def by blast
  with assms(2) show ?thesis
    by (auto simp: waitSyscall_def split: if_splits prod.splits platform.splits)
qed

lemma waitHelper_outcome:
  assumes run: "waitHelper sys pf ef bitmask efState timeout s = Inr (status, efState', s')"
    and errno: "futex_errno_positive sys" and args: "bitmask \<noteq> 0" "efState \<noteq> None"
  obtains v where "efState' = Some v" and "v AND NOT bitmask = 0"
    and "status = NO_ERROR \<longleftrightarrow> v \<noteq> 0"
proof -
  obtain h w where o1: "others sys s = (h, w)" by (rule prod.exhaust)
  obtain old h' where f1: "atomic_fetch_and (mEfWordPtr ef) (NOT bitmask) h = Inr (old, h')"
    using run args by (auto simp: waitHelper_def o1 bind_res_eq_Inr)
  show ?thesis
  proof (cases "old AND bitmask = 0")
    case False
    with run args that [of "old AND bitmask"] show ?thesis
      by (simp add: waitHelper_def o1 f1 Let_def and_and_not)
  next
    case True
    obtain ret e s2 where sc:
      "waitSyscall sys pf ef (old AND NOT bitmask) timeout bitmask (h', w) = ((ret, e), s2)"
      by (metis prod.exhaust)
    show ?thesis
    proof (cases "ret = - 1")
      case fail: True
      have "0 < e" using waitSyscall_errno [OF errno] sc fail by blast
      with run args True fail that [of 0] show ?thesis
        by (simp add: waitHelper_def o1 f1 sc Let_def status_defs)
    next
      case ok: False
      obtain h3 w3 where o2: "others sys s2 = (h3, w3)" by (rule prod.exhaust)
      from run args True ok obtain v where "efState' = Some (v AND bitmask)"
        "status = (if v AND bitmask = 0 then - EINTR else NO_ERROR)"
        by (auto simp: waitHelper_def o1 f1 sc o2 Let_def bind_res_eq_Inr split: prod.splits)
      with that [of "v AND bitmask"] show ?thesis
        by (auto simp: and_and_not status_defs)
    qed
  qed
qed

text \<open>One round of the loop, with the clock reading named.\<close>

lemma wait_loop_round:
  assumes "(if shouldTimeOut then elapsedRealtimeNano sys s else (prev, s)) = (cur, s1)"
    and "left = (if shouldTimeOut then timeout - (cur - prev) else timeout)"
  shows "wait_loop (Suc fuel) sys pf ef bitmask shouldTimeOut efState timeout prev s =
    (if shouldTimeOut \<and> left \<le> 0 then
       Some (if efState = None then Inl Undefined else Inr (- ETIMEDOUT, Some 0, s1))
     else
       (case waitHelper sys pf ef bitmask efState left s1 of
          Inl e \<Rightarrow> Some (Inl e)
        | Inr (status, efState', s2) \<Rightarrow>
            if status \<noteq> - EAGAIN \<and> status \<noteq> - EINTR then Some (Inr (status, efState', s2))
            else wait_loop fuel sys pf ef bitmask shouldTimeOut efState' left cur s2))"
  unfolding wait_loop.simps assms(1) Let_def prod.case assms(2) ..

lemma wait_loop_outcome:
  assumes errno: "futex_errno_positive sys" and args: "bitmask \<noteq> 0" "efState \<noteq> None"
    and run: "wait_loop fuel sys pf ef bitmask shouldTimeOut efState timeout prev s =
      Some (Inr (status, efState', s'))"
  shows "\<exists>v. efState' = Some v \<and> v AND NOT bitmask = 0 \<and> (status = NO_ERROR \<longleftrightarrow> v \<noteq> 0) \<and>
    status \<noteq> - EAGAIN \<and> status \<noteq> - EINTR"
  using args(2) run
proof (induction fuel arbitrary: efState timeout prev s)
  case 0
  then show ?case by simp
next
  case (Suc fuel)
  obtain cur s1 where tick: "(if shouldTimeOut then elapsedRealtimeNano sys s else (prev, s)) = (cur, s1)"
    by (rule prod.exhaust)
  define left where "left = (if shouldTimeOut then timeout - (cur - prev) else timeout)"
  note run = Suc.prems(2) [unfolded wait_loop_round [OF tick left_def]]
  show ?case
  proof (cases "shouldTimeOut \<and> left \<le> 0")
    case True
    with Suc.prems(1) run show ?thesis by (auto simp: status_defs)
  next
    case False
    then obtain st e s2 where hp: "waitHelper sys pf ef bitmask efState left s1 = Inr (st, e, s2)"
      and rest: "(if st \<noteq> - EAGAIN \<and> st \<noteq> - EINTR then Some (Inr (st, e, s2))
        else wait_loop fuel sys pf ef bitmask shouldTimeOut e left cur s2) =
        Some (Inr (status, efState', s'))"
      using run unfolding if_not_P [OF False] by (auto split: sum.splits)
    obtain v where v: "e = Some v" "v AND NOT bitmask = 0" "st = NO_ERROR \<longleftrightarrow> v \<noteq> 0"
      using waitHelper_outcome [OF hp errno args(1) Suc.prems(1)] by blast
    show ?thesis
    proof (cases "st \<noteq> - EAGAIN \<and> st \<noteq> - EINTR")
      case True
      with rest v show ?thesis by auto
    next
      case again: False
      have "e \<noteq> None" using v(1) by simp
      moreover from rest again have "wait_loop fuel sys pf ef bitmask shouldTimeOut e left cur s2 =
        Some (Inr (status, efState', s'))" by (simp only: if_False)
      ultimately show ?thesis by (rule Suc.IH)
    qed
  qed
qed

text \<open>
  C22: a \<open>wait\<close> with \<open>retry\<close> on a non-zero mask that returns without undefined behaviour
  reports only bits of the mask, reports at least one exactly if its status is \<open>NO_ERROR\<close>,
  and never hands a spurious wake-up (\<open>-EAGAIN\<close>, \<open>-EINTR\<close>) to its caller.
\<close>

theorem wait_reports_requested_bits:
  assumes "futex_errno_positive sys" and "bitmask \<noteq> 0" and "efState \<noteq> None"
    and "wait fuel sys pf ef bitmask efState timeout True s = Some (Inr (status, efState', s'))"
  shows "\<exists>v. efState' = Some v \<and> v AND NOT bitmask = 0 \<and> (status = NO_ERROR \<longleftrightarrow> v \<noteq> 0) \<and>
    status \<noteq> - EAGAIN \<and> status \<noteq> - EINTR"
proof -
  obtain prev s1 where "(if timeout \<noteq> 0 then elapsedRealtimeNano sys s else (0, s)) = (prev, s1)"
    by (rule prod.exhaust)
  with assms(4) have "wait_loop fuel sys pf ef bitmask (timeout \<noteq> 0) efState timeout prev s1 =
      Some (Inr (status, efState', s'))"
    by (simp add: wait_def Let_def)
  with assms(1-3) show ?thesis by (rule wait_loop_outcome)
qed

section \<open>Timed waits return\<close>

text \<open>
  The clock contract: \<open>now\<close> is the boot time of the rest of the world, every reading is later
  than it and becomes it, and no call turns it back.
\<close>

definition clock_advances :: "'w os \<Rightarrow> ('w \<Rightarrow> int) \<Rightarrow> bool" where
  "clock_advances sys now \<longleftrightarrow>
     (\<forall>s. fst (elapsedRealtimeNano sys s) = now (snd (snd (elapsedRealtimeNano sys s))) \<and>
          now (snd s) < fst (elapsedRealtimeNano sys s)) \<and>
     (\<forall>s. now (snd s) \<le> now (snd (others sys s))) \<and>
     (\<forall>s. now (snd s) \<le> now (snd (snd (clock_gettime sys s)))) \<and>
     (\<forall>s. now (snd s) \<le> now (snd (snd (GetTickCount64 sys s)))) \<and>
     (\<forall>p m s. now (snd s) \<le> now (snd (snd (futex_wake sys p m s)))) \<and>
     (\<forall>p e t m s. now (snd s) \<le> now (snd (snd (futex_wait sys p e t m s))))"

lemma clock_advancesD:
  assumes "clock_advances sys now"
  shows "fst (elapsedRealtimeNano sys s) = now (snd (snd (elapsedRealtimeNano sys s)))"
    and "now (snd s) < fst (elapsedRealtimeNano sys s)"
    and "now (snd s) \<le> now (snd (others sys s))"
    and "now (snd s) \<le> now (snd (snd (clock_gettime sys s)))"
    and "now (snd s) \<le> now (snd (snd (GetTickCount64 sys s)))"
    and "now (snd s) \<le> now (snd (snd (futex_wake sys p m s)))"
    and "now (snd s) \<le> now (snd (snd (futex_wait sys p e t m s)))"
  using assms unfolding clock_advances_def by blast+

lemma clock_reading:
  assumes "clock_advances sys now" and "elapsedRealtimeNano sys s = (t, s')"
  shows "now (snd s) < t" and "now (snd s') = t"
  using clock_advancesD(1,2) [OF assms(1), of s] assms(2) by simp_all

lemma clock_waitSyscall:
  assumes "clock_advances sys now" and "waitSyscall sys pf ef e t m s = (r, s')"
  shows "now (snd s) \<le> now (snd s')"
proof -
  obtain x s1 where add: "addNanosecondsToCurrentTime sys pf t s = (x, s1)" by (rule prod.exhaust)
  have le: "now (snd s) \<le> now (snd s1)"
    using add clock_advancesD(4,5) [OF assms(1), of s]
    by (cases pf) (auto simp: addNanosecondsToCurrentTime_def split: prod.splits)
  have futex: "now (snd u) \<le> now (snd u')"
    if "futex_wait sys q e y m u = (r, u')" for q y u u'
    using clock_advancesD(7) [OF assms(1), of u q e y m] that by simp
  show ?thesis
    using assms(2) add le futex order_trans [OF le]
    by (cases pf) (auto simp: waitSyscall_def split: if_splits)
qed

lemma clock_waitHelper:
  assumes clock: "clock_advances sys now"
    and run: "waitHelper sys pf ef m efState t s = Inr (status, efState', s')"
  shows "now (snd s) \<le> now (snd s')"
proof (cases "m = 0 \<or> efState = None")
  case True
  with run show ?thesis by (auto simp: waitHelper_def)
next
  case False
  obtain h w where o1: "others sys s = (h, w)" by (rule prod.exhaust)
  have le1: "now (snd s) \<le> now w" using clock_advancesD(3) [OF clock, of s] o1 by simp
  obtain old h' where f1: "atomic_fetch_and (mEfWordPtr ef) (NOT m) h = Inr (old, h')"
    using run False by (auto simp: waitHelper_def o1 bind_res_eq_Inr)
  obtain ret e s2 where sc: "waitSyscall sys pf ef (old AND NOT m) t m (h', w) = ((ret, e), s2)"
    by (metis prod.exhaust)
  have le2: "now w \<le> now (snd s2)" using clock_waitSyscall [OF clock sc] by simp
  obtain h3 w3 where o2: "others sys s2 = (h3, w3)" by (rule prod.exhaust)
  have le3: "now (snd s2) \<le> now w3" using clock_advancesD(3) [OF clock, of s2] o2 by simp
  from run False have "snd s' = w \<or> s' = s2 \<or> snd s' = w3"
    by (auto simp: waitHelper_def o1 f1 sc o2 Let_def bind_res_eq_Inr split: if_splits)
  with le1 le2 le3 show ?thesis by auto
qed

lemma wait_loop_timed_returns:
  assumes clock: "clock_advances sys now" and fuel: "nat timeout < fuel"
    and past: "prev \<le> now (snd s)"
  shows "wait_loop fuel sys pf ef m True efState timeout prev s \<noteq> None"
  using fuel past
proof (induction fuel arbitrary: efState timeout prev s)
  case 0
  then show ?case by simp
next
  case (Suc fuel)
  obtain cur s1 where read: "elapsedRealtimeNano sys s = (cur, s1)" by (rule prod.exhaust)
  then have tick: "(if True then elapsedRealtimeNano sys s else (prev, s)) = (cur, s1)" by simp
  define left where "left = (if True then timeout - (cur - prev) else timeout)"
  note round = wait_loop_round [OF tick left_def]
  have less: "left \<le> timeout - 1"
    using clock_reading [OF clock read] Suc.prems(2) by (simp add: left_def)
  show ?case
  proof (cases "left \<le> 0")
    case True
    then show ?thesis by (simp add: round del: not_None_eq)
  next
    case False
    have again: "wait_loop fuel sys pf ef m True e left cur s2 \<noteq> None"
      if "waitHelper sys pf ef m efState left s1 = Inr (st, e, s2)" for st e s2
    proof (rule Suc.IH)
      show "nat left < fuel" using less False Suc.prems(1) by linarith
      show "cur \<le> now (snd s2)"
        using clock_waitHelper [OF clock that] clock_reading [OF clock read] by simp
    qed
    with False show ?thesis
      by (auto simp: round simp del: not_None_eq split: sum.splits prod.splits)
  qed
qed


section \<open>No wake-up is lost\<close>

lemma wake_sets_bits:
  assumes run: "wake sys pf ef m s = Inr (status, s')" and m: "m \<noteq> 0"
    and kept: "bits_kept sys (mEfWordPtr ef) (m AND k)"
  shows "bits_set (mEfWordPtr ef) (m AND k) s'"
proof -
  let ?p = "mEfWordPtr ef"
  obtain h w where o1: "others sys s = (h, w)" by (rule prod.exhaust)
  let ?h' = "h\<lparr>words32 := (words32 h)(?p := words32 h ?p OR m)\<rparr>"
  have now: "bits_set ?p (m AND k) (?h', w)" by (simp add: bits_set_def and_or_absorb)
  obtain r s2 where fw: "futex_wake sys ?p m (?h', w) = (r, s2)" by (rule prod.exhaust)
  have "bits_set ?p (m AND k) s2"
    using kept now fw unfolding bits_kept_def by (metis snd_conv)
  moreover have "s' = (?h', w) \<or> s' = s2"
    using run m o1 fw
    by (auto simp: wake_def atomic_fetch_or_def Let_def split: if_splits platform.splits prod.splits)
  ultimately show ?thesis using now by auto
qed

lemma waitHelper_after_wake:
  assumes run: "wake sys pf ef m s = Inr (status, s1)" and m: "m AND k \<noteq> 0"
    and kept: "bits_kept sys (mEfWordPtr ef) (m AND k)" and out: "efState \<noteq> None"
  shows "\<exists>v s2. waitHelper sys pf' ef k efState timeout s1 = Inr (NO_ERROR, Some v, s2) \<and>
    (m AND k) AND v = m AND k \<and> v AND NOT k = 0 \<and> snd s2 = snd (others sys s1)"
proof -
  let ?p = "mEfWordPtr ef"
  from m have m0: "m \<noteq> 0" "k \<noteq> 0" by auto
  obtain h w where o1: "others sys s1 = (h, w)" by (rule prod.exhaust)
  have "bits_set ?p (m AND k) (h, w)"
    using wake_sets_bits [OF run m0(1) kept] kept o1 unfolding bits_kept_def by metis
  then have on: "words32 h ?p AND (m AND k) = m AND k" by (simp add: bits_set_def)
  have "(m AND k) AND (words32 h ?p AND k) = words32 h ?p AND (m AND k)"
    by (rule bit_eqI) (auto simp: bit_simps)
  with on have sub: "(m AND k) AND (words32 h ?p AND k) = m AND k" by simp
  with m have v: "words32 h ?p AND k \<noteq> 0" by auto
  have "?p \<noteq> 0"
    using run m0(1) by (auto simp: wake_def atomic_fetch_or_def split: prod.splits)
  with m0 out v sub show ?thesis
    by (simp add: waitHelper_def o1 atomic_fetch_and_def Let_def and_and_not)
qed

text \<open>
  A wake-up is never lost. After \<open>wake\<close> with a mask that shares a bit with the mask of a
  waiter, and as long as no other thread clears those bits, a waiter that calls \<open>wait\<close>
  returns in its first round, with \<open>NO_ERROR\<close> and with these bits among the ones it reports,
  without a system call (the rest of the world is as the other threads left it).
\<close>

lemma wake_then_wait_returns_at_once:
  assumes "wake sys pf ef m s = Inr (status, s1)" and "m AND k \<noteq> 0"
    and "bits_kept sys (mEfWordPtr ef) (m AND k)" and "efState \<noteq> None"
    and "retry \<Longrightarrow> timeout = 0"
  shows "\<exists>v s2. wait (Suc fuel) sys pf' ef k efState timeout retry s1 =
      Some (Inr (NO_ERROR, Some v, s2)) \<and>
    (m AND k) AND v = m AND k \<and> v AND NOT k = 0 \<and> snd s2 = snd (others sys s1)"
proof -
  obtain v s2 where w: "waitHelper sys pf' ef k efState timeout s1 = Inr (NO_ERROR, Some v, s2)"
    "(m AND k) AND v = m AND k" "v AND NOT k = 0" "snd s2 = snd (others sys s1)"
    using waitHelper_after_wake [OF assms(1-4)] by blast
  moreover have "wait (Suc fuel) sys pf' ef k efState timeout retry s1 =
      Some (Inr (NO_ERROR, Some v, s2))"
    using w(1) assms(5) by (auto simp: wait_def wait_loop.simps(2) status_defs)
  ultimately show ?thesis by blast
qed

section \<open>The absolute timeout\<close>

text \<open>
  C26: for a non-negative timeout and a normalised current time, the absolute time handed to
  the kernel is normalised and is exactly the timeout later.
\<close>

theorem addNanoseconds_exact:
  assumes "0 \<le> n" and "0 \<le> tv_nsec t" and "tv_nsec t < 1000000000"
  shows "0 \<le> tv_nsec (addNanoseconds n t) \<and> tv_nsec (addNanoseconds n t) < 1000000000 \<and>
    tv_sec (addNanoseconds n t) * 1000000000 + tv_nsec (addNanoseconds n t) =
      tv_sec t * 1000000000 + tv_nsec t + n"
proof -
  have d: "n sdiv 1000000000 = n div 1000000000" "n smod 1000000000 = n mod 1000000000"
    using assms(1) by (simp_all add: signed_divide_int_def signed_modulo_int_def sgn_if)
  have "0 \<le> n mod 1000000000" "n mod 1000000000 < 1000000000"
    "n = n div 1000000000 * 1000000000 + n mod 1000000000" by simp_all
  with assms show ?thesis
    by (auto simp: addNanoseconds_def kNanosPerSecond_def d Let_def)
qed

section \<open>What a client of the flag relies on\<close>

text \<open>
  The system calls and the other threads keep a property \<open>P\<close> of memory; the property does not
  depend on the event-flag words.
\<close>

definition env_keeps :: "'w os \<Rightarrow> (heap \<Rightarrow> bool) \<Rightarrow> bool" where
  "env_keeps sys P \<longleftrightarrow>
     (\<forall>s. P (fst s) \<longrightarrow> P (fst (others sys s))) \<and>
     (\<forall>s. P (fst s) \<longrightarrow> P (fst (snd (elapsedRealtimeNano sys s)))) \<and>
     (\<forall>s. P (fst s) \<longrightarrow> P (fst (snd (clock_gettime sys s)))) \<and>
     (\<forall>s. P (fst s) \<longrightarrow> P (fst (snd (GetTickCount64 sys s)))) \<and>
     (\<forall>p m s. P (fst s) \<longrightarrow> P (fst (snd (futex_wake sys p m s)))) \<and>
     (\<forall>p e t m s. P (fst s) \<longrightarrow> P (fst (snd (futex_wait sys p e t m s))))"

definition flag_free :: "(heap \<Rightarrow> bool) \<Rightarrow> bool" where
  "flag_free P \<longleftrightarrow> (\<forall>h f. P (h\<lparr>words32 := f\<rparr>) = P h)"

lemma env_keepsD:
  assumes "env_keeps sys P" and "P (fst s)"
  shows "P (fst (others sys s))" and "P (fst (snd (elapsedRealtimeNano sys s)))"
    and "P (fst (snd (clock_gettime sys s)))" and "P (fst (snd (GetTickCount64 sys s)))"
    and "P (fst (snd (futex_wake sys p m s)))" and "P (fst (snd (futex_wait sys p e t m s)))"
  using assms by (simp_all add: env_keeps_def del: split_paired_All)

lemma flag_freeD: "flag_free P \<Longrightarrow> P (h\<lparr>words32 := f\<rparr>) = P h"
  unfolding flag_free_def by blast

lemma waitSyscall_keeps:
  assumes env: "env_keeps sys P" and P: "P (fst s)" and run: "waitSyscall sys pf ef e t m s = (r, s')"
  shows "P (fst s')"
proof -
  obtain x s1 where add: "addNanosecondsToCurrentTime sys pf t s = (x, s1)" by (rule prod.exhaust)
  have P1: "P (fst s1)"
    using add env_keepsD(3,4) [OF env P]
    by (cases pf) (auto simp: addNanosecondsToCurrentTime_def split: prod.splits)
  have futex: "P (fst u')" if "futex_wait sys q e y m u = (r, u')" "P (fst u)" for q y u u'
    using env_keepsD(6) [OF env that(2), of q e y m] that(1) by simp
  have "s' = s \<or> s' = s1 \<or> (\<exists>y. futex_wait sys (mEfWordPtr ef) e y m s = (r, s')) \<or>
      (\<exists>y. futex_wait sys (mEfWordPtr ef) e y m s1 = (r, s'))"
    using run add by (cases pf; cases "t = 0") (auto simp: waitSyscall_def)
  with P P1 futex show ?thesis by blast
qed

lemma waitHelper_keeps:
  assumes env: "env_keeps sys P" and free: "flag_free P" and word: "mEfWordPtr ef \<noteq> 0"
    and P: "P (fst s)" and out: "efState \<noteq> None"
  obtains status v s' where "waitHelper sys pf ef m efState t s = Inr (status, Some v, s')"
    and "P (fst s')"
proof (cases "m = 0")
  case True
  with that P out show ?thesis by (auto simp: waitHelper_def)
next
  case False
  obtain h w where o1: "others sys s = (h, w)" by (rule prod.exhaust)
  obtain old h' where f1: "atomic_fetch_and (mEfWordPtr ef) (NOT m) h = Inr (old, h')"
    and Ph: "P h'"
    using word env_keepsD(1) [OF env P] o1 flag_freeD [OF free]
    by (auto simp: atomic_fetch_and_def)
  show ?thesis
  proof (cases "old AND m = 0")
    case False
    with that Ph \<open>m \<noteq> 0\<close> out show ?thesis by (simp add: waitHelper_def o1 f1 Let_def)
  next
    case True
    obtain ret e s2 where sc: "waitSyscall sys pf ef (old AND NOT m) t m (h', w) = ((ret, e), s2)"
      by (metis prod.exhaust)
    have P2: "P (fst s2)" using waitSyscall_keeps [OF env _ sc] Ph by simp
    obtain h3 w3 where o2: "others sys s2 = (h3, w3)" by (rule prod.exhaust)
    obtain old2 h4 where f2: "atomic_fetch_and (mEfWordPtr ef) (NOT m) h3 = Inr (old2, h4)"
      and "P h4"
      using word env_keepsD(1) [OF env P2] o2 flag_freeD [OF free]
      by (auto simp: atomic_fetch_and_def)
    with that P2 True \<open>m \<noteq> 0\<close> out show ?thesis
      by (cases "ret = - 1") (simp_all add: waitHelper_def o1 f1 sc o2 f2 Let_def)
  qed
qed

lemma wait_loop_keeps:
  assumes env: "env_keeps sys P" and free: "flag_free P" and word: "mEfWordPtr ef \<noteq> 0"
    and out: "efState \<noteq> None" and P: "P (fst s)"
    and run: "wait_loop fuel sys pf ef m shouldTimeOut efState timeout prev s = Some r"
  shows "\<exists>status v s'. r = Inr (status, Some v, s') \<and> P (fst s')"
  using out P run
proof (induction fuel arbitrary: efState timeout prev s)
  case 0
  then show ?case by simp
next
  case (Suc fuel)
  obtain cur s1 where tick: "(if shouldTimeOut then elapsedRealtimeNano sys s else (prev, s)) = (cur, s1)"
    by (rule prod.exhaust)
  have P1: "P (fst s1)"
    using tick env_keepsD(2) [OF env Suc.prems(2)] Suc.prems(2) by (cases shouldTimeOut) auto
  define left where "left = (if shouldTimeOut then timeout - (cur - prev) else timeout)"
  note run = Suc.prems(3) [unfolded wait_loop_round [OF tick left_def]]
  obtain status v s2 where hp: "waitHelper sys pf ef m efState left s1 = Inr (status, Some v, s2)"
    and P2: "P (fst s2)"
    using waitHelper_keeps [OF env free word P1 Suc.prems(1)] by metis
  show ?case
  proof (cases "shouldTimeOut \<and> left \<le> 0")
    case True
    with run P1 Suc.prems(1) show ?thesis
      by (intro exI [of _ "- ETIMEDOUT"] exI [of _ 0] exI [of _ s1]) simp
  next
    case False
    show ?thesis
    proof (cases "status \<noteq> - EAGAIN \<and> status \<noteq> - EINTR")
      case True
      with run False hp P2 show ?thesis
        by (intro exI [of _ status] exI [of _ v] exI [of _ s2]) auto
    next
      case again: False
      from run have "wait_loop fuel sys pf ef m shouldTimeOut (Some v) left cur s2 = Some r"
        unfolding if_not_P [OF False] hp by (simp add: if_not_P [OF again])
      from Suc.IH [OF _ P2 this] show ?thesis by simp
    qed
  qed
qed

lemma wait_retry:
  obtains prev s1 where
    "wait fuel sys pf ef m efState timeout True s =
       wait_loop fuel sys pf ef m (timeout \<noteq> 0) efState timeout prev s1"
    and "(if timeout \<noteq> 0 then elapsedRealtimeNano sys s else (0, s)) = (prev, s1)"
proof -
  obtain prev s1 where "(if timeout \<noteq> 0 then elapsedRealtimeNano sys s else (0, s)) = (prev, s1)"
    by (rule prod.exhaust)
  then show ?thesis using that by (simp add: wait_def Let_def)
qed

lemma wait_keeps:
  assumes env: "env_keeps sys P" and free: "flag_free P" and word: "mEfWordPtr ef \<noteq> 0"
    and out: "efState \<noteq> None" and P: "P (fst s)"
    and run: "wait fuel sys pf ef m efState timeout True s = Some r"
  shows "\<exists>status v s'. r = Inr (status, Some v, s') \<and> P (fst s')"
proof -
  obtain prev s1 where
    "wait fuel sys pf ef m efState timeout True s =
      wait_loop fuel sys pf ef m (timeout \<noteq> 0) efState timeout prev s1"
    and s1: "(if timeout \<noteq> 0 then elapsedRealtimeNano sys s else (0, s)) = (prev, s1)"
    by (rule wait_retry)
  moreover have "P (fst s1)"
    using s1 P env_keepsD(2) [OF env P] by (cases "timeout = 0") auto
  ultimately show ?thesis using wait_loop_keeps [OF env free word out] run by metis
qed

lemma clock_wait_loop:
  assumes clock: "clock_advances sys now"
    and run: "wait_loop fuel sys pf ef m shouldTimeOut efState timeout prev s =
      Some (Inr (status, efState', s'))"
  shows "now (snd s) \<le> now (snd s')"
  using run
proof (induction fuel arbitrary: efState timeout prev s)
  case 0
  then show ?case by simp
next
  case (Suc fuel)
  obtain cur s1 where tick: "(if shouldTimeOut then elapsedRealtimeNano sys s else (prev, s)) = (cur, s1)"
    by (rule prod.exhaust)
  have le: "now (snd s) \<le> now (snd s1)"
    using tick clock_reading [OF clock, of s] by (cases shouldTimeOut) auto
  define left where "left = (if shouldTimeOut then timeout - (cur - prev) else timeout)"
  note run = Suc.prems [unfolded wait_loop_round [OF tick left_def]]
  show ?case
  proof (cases "shouldTimeOut \<and> left \<le> 0")
    case True
    with run le show ?thesis by (auto split: if_splits)
  next
    case False
    then obtain st e s2 where hp: "waitHelper sys pf ef m efState left s1 = Inr (st, e, s2)"
      using run unfolding if_not_P [OF False] by (auto split: sum.splits)
    have le2: "now (snd s1) \<le> now (snd s2)" by (rule clock_waitHelper [OF clock hp])
    show ?thesis
    proof (cases "st \<noteq> - EAGAIN \<and> st \<noteq> - EINTR")
      case True
      with run False hp le le2 show ?thesis by auto
    next
      case again: False
      from run have "wait_loop fuel sys pf ef m shouldTimeOut e left cur s2 =
          Some (Inr (status, efState', s'))"
        unfolding if_not_P [OF False] hp by (simp add: if_not_P [OF again])
      from Suc.IH [OF this] le le2 show ?thesis by simp
    qed
  qed
qed

lemma clock_wait:
  assumes clock: "clock_advances sys now"
    and run: "wait fuel sys pf ef m efState timeout True s = Some (Inr (status, efState', s'))"
  shows "now (snd s) \<le> now (snd s')"
proof -
  obtain prev s1 where "wait fuel sys pf ef m efState timeout True s =
      wait_loop fuel sys pf ef m (timeout \<noteq> 0) efState timeout prev s1"
    and s1: "(if timeout \<noteq> 0 then elapsedRealtimeNano sys s else (0, s)) = (prev, s1)"
    by (rule wait_retry)
  with run have "now (snd s1) \<le> now (snd s')" using clock_wait_loop [OF clock] by metis
  moreover have "now (snd s) \<le> now (snd s1)"
    using s1 clock_reading [OF clock, of s] by (cases "timeout = 0") auto
  ultimately show ?thesis by simp
qed

lemma wait_timed_returns:
  assumes clock: "clock_advances sys now" and timed: "timeout \<noteq> 0" and fuel: "nat timeout < fuel"
  shows "\<exists>r. wait fuel sys pf ef m efState timeout True s = Some r"
proof -
  obtain prev s1 where w: "wait fuel sys pf ef m efState timeout True s =
      wait_loop fuel sys pf ef m (timeout \<noteq> 0) efState timeout prev s1"
    and s1: "(if timeout \<noteq> 0 then elapsedRealtimeNano sys s else (0, s)) = (prev, s1)"
    by (rule wait_retry)
  have "prev \<le> now (snd s1)" using s1 clock_reading [OF clock, of s] timed by simp
  from wait_loop_timed_returns [OF clock fuel this] timed w show ?thesis by simp
qed

lemma wake_keeps:
  assumes env: "env_keeps sys P" and free: "flag_free P" and word: "mEfWordPtr ef \<noteq> 0"
    and P: "P (fst s)"
  obtains status s' where "wake sys pf ef m s = Inr (status, s')" and "P (fst s')"
proof (cases "m = 0")
  case True
  with that P show ?thesis by (simp add: wake_def)
next
  case False
  obtain h w where o1: "others sys s = (h, w)" by (rule prod.exhaust)
  have "P h" using env_keepsD(1) [OF env P] o1 by simp
  then have Ph: "P (h\<lparr>words32 := f\<rparr>)" for f using flag_freeD [OF free] by simp
  let ?h = "h\<lparr>words32 := (words32 h)(mEfWordPtr ef := words32 h (mEfWordPtr ef) OR m)\<rparr>"
  obtain ret e s2 where fw: "futex_wake sys (mEfWordPtr ef) m (?h, w) = ((ret, e), s2)"
    by (metis prod.exhaust)
  have "P (fst s2)" using env_keepsD(5) [OF env, of "(?h, w)" "mEfWordPtr ef" m] Ph fw by simp
  define sleepers where "sleepers \<longleftrightarrow> NOT (words32 h (mEfWordPtr ef)) AND m \<noteq> 0 \<and> pf = POSIX"
  have run: "wake sys pf ef m s = (if sleepers then Inr (if ret = - 1 then - e else NO_ERROR, s2)
      else Inr (NO_ERROR, (?h, w)))"
    using fw False word by (cases pf) (simp_all add: wake_def o1 atomic_fetch_or_def sleepers_def)
  show ?thesis
  proof (cases sleepers)
    case True
    with run \<open>P (fst s2)\<close> show ?thesis by (intro that [of _ s2]) simp_all
  next
    case False
    with run Ph show ?thesis by (intro that [of _ "(?h, w)"]) simp_all
  qed
qed

end
