(* ===== verification/Message_Queue.thy ===== *)
theory Message_Queue
  imports Mem_Transaction Shim_Descriptor Event_Flag
begin

text \<open>
  The non-blocking half of \<open>include/fmq/MessageQueueBase.h\<close>: the queue object, the space
  and data it reports, and the begin, copy and commit steps of a write and of a read, in the
  order the code performs their loads and stores. The template arguments are fields of the
  object: \<open>flavor\<close>, and \<open>sizeofT\<close> for \<open>sizeof(T)\<close>.
\<close>

section \<open>State\<close>

record MessageQueue =
  flavor :: MQFlavor
  sizeofT :: size_t
  mDesc :: "Shim option"
  mRing :: ptr
  mReadPtr :: ptr
  mWritePtr :: ptr
  mEvFlagWord :: ptr
  mEventFlag :: "EventFlag option"

definition getDesc :: "MessageQueue \<Rightarrow> Shim option" where
  "getDesc q = mDesc q"

definition getEventFlagWord :: "MessageQueue \<Rightarrow> ptr" where
  "getEventFlagWord q = mEvFlagWord q"

definition isValid :: "MessageQueue \<Rightarrow> bool" where
  "isValid q \<longleftrightarrow> mRing q \<noteq> nullptr \<and> mReadPtr q \<noteq> nullptr \<and> mWritePtr q \<noteq> nullptr"

text \<open>\<open>mDesc->\<close>: dereferencing the descriptor pointer.\<close>

definition deref_desc :: "MessageQueue \<Rightarrow> Shim res" where
  "deref_desc q = (case mDesc q of None \<Rightarrow> Inl Undefined | Some d \<Rightarrow> Inr d)"

definition getQuantumSize :: "MessageQueue \<Rightarrow> size_t res" where
  "getQuantumSize q = bind_res (deref_desc q) (\<lambda>d. Inr (getQuantum d))"

definition getQuantumCount :: "MessageQueue \<Rightarrow> size_t res" where
  "getQuantumCount q = bind_res (deref_desc q) (\<lambda>d.
     if getQuantum d = 0 then Inl Undefined else Inr (getSize d div getQuantum d))"

section \<open>Space and data\<close>

definition availableToReadBytes :: "MessageQueue \<Rightarrow> heap \<Rightarrow> size_t res" where
  "availableToReadBytes q h =
     bind_res (load64 h (mWritePtr q)) (\<lambda>writePtr.
     bind_res (load64 h (mReadPtr q)) (\<lambda>readPtr.
     Inr (writePtr - readPtr)))"

definition availableToWriteBytes :: "MessageQueue \<Rightarrow> heap \<Rightarrow> size_t res" where
  "availableToWriteBytes q h =
     bind_res (deref_desc q) (\<lambda>d.
     bind_res (availableToReadBytes q h) (\<lambda>used.
     Inr (getSize d - used)))"

definition availableToWrite :: "MessageQueue \<Rightarrow> heap \<Rightarrow> size_t res" where
  "availableToWrite q h =
     bind_res (availableToWriteBytes q h) (\<lambda>n. Inr (n div sizeofT q))"

definition availableToRead :: "MessageQueue \<Rightarrow> heap \<Rightarrow> size_t res" where
  "availableToRead q h =
     bind_res (availableToReadBytes q h) (\<lambda>n. Inr (n div sizeofT q))"

section \<open>Writing\<close>

text \<open>
  \<open>result\<close> is the transaction the out parameter points to before the call; the new one is
  returned. A misaligned write pointer leaves it as it was.
\<close>

definition beginWrite ::
  "MessageQueue \<Rightarrow> heap \<Rightarrow> size_t \<Rightarrow> MemTransaction \<Rightarrow> (bool \<times> MemTransaction) res" where
  "beginWrite q h nMessages result =
     bind_res (if flavor q = kSynchronizedReadWrite
               then bind_res (availableToWrite q h) (\<lambda>n. Inr (n < nMessages))
               else Inr False) (\<lambda>noSpace.
     bind_res (if noSpace then Inr True
               else bind_res (getQuantumCount q) (\<lambda>n. Inr (nMessages > n))) (\<lambda>refused.
     if refused then Inr (False, MemTransaction_default)
     else
       bind_res (load64 h (mWritePtr q)) (\<lambda>writePtr.
       if writePtr mod sizeofT q \<noteq> 0 then Inr (False, result)
       else
         bind_res (deref_desc q) (\<lambda>d.
         if getSize d = 0 then Inl Undefined
         else
           let writeOffset = writePtr mod getSize d;
               contiguousMessages = (getSize d - writeOffset) div sizeofT q
           in if contiguousMessages < nMessages
              then Inr (True,
                \<lparr>first = \<lparr>address = mRing q + writeOffset, region_length = contiguousMessages\<rparr>,
                 second = \<lparr>address = mRing q, region_length = nMessages - contiguousMessages\<rparr>\<rparr>)
              else Inr (True,
                \<lparr>first = \<lparr>address = mRing q + writeOffset, region_length = nMessages\<rparr>,
                 second = MemRegion_default\<rparr>)))))"

definition commitWrite :: "MessageQueue \<Rightarrow> heap \<Rightarrow> size_t \<Rightarrow> (bool \<times> heap) res" where
  "commitWrite q h nMessages =
     (let nBytesWritten = nMessages * sizeofT q in
      bind_res (load64 h (mWritePtr q)) (\<lambda>writePtr.
      bind_res (store64 h (mWritePtr q) (writePtr + nBytesWritten)) (\<lambda>h'.
      Inr (True, h'))))"

definition fmq_write :: "MessageQueue \<Rightarrow> heap \<Rightarrow> ptr \<Rightarrow> size_t \<Rightarrow> (bool \<times> heap) res" where
  "fmq_write q h data nMessages =
     bind_res (beginWrite q h nMessages MemTransaction_default) (\<lambda>(begun, tx).
     if \<not> begun then Inr (False, h)
     else
       bind_res (copyTo (sizeofT q) tx h data 0 nMessages) (\<lambda>(copied, h1).
       if \<not> copied then Inr (False, h1)
       else commitWrite q h1 nMessages))"

definition fmq_write_one :: "MessageQueue \<Rightarrow> heap \<Rightarrow> ptr \<Rightarrow> (bool \<times> heap) res" where
  "fmq_write_one q h data = fmq_write q h data 1"

section \<open>Reading\<close>

text \<open>
  \<open>beginRead\<close> stores to the read pointer when the reader has been overtaken, so it
  returns the heap as well.
\<close>

definition beginRead ::
  "MessageQueue \<Rightarrow> heap \<Rightarrow> size_t \<Rightarrow> (bool \<times> MemTransaction \<times> heap) res" where
  "beginRead q h nMessages =
     (let result = MemTransaction_default in
      bind_res (load64 h (mWritePtr q)) (\<lambda>writePtr.
      bind_res (load64 h (mReadPtr q)) (\<lambda>readPtr.
      if writePtr mod sizeofT q \<noteq> 0 \<or> readPtr mod sizeofT q \<noteq> 0 then Inr (False, result, h)
      else
        bind_res (deref_desc q) (\<lambda>d.
        if writePtr - readPtr > getSize d then
          bind_res (store64 h (mReadPtr q) writePtr) (\<lambda>h'. Inr (False, result, h'))
        else
          let nBytesDesired = nMessages * sizeofT q in
          if writePtr - readPtr < nBytesDesired then Inr (False, result, h)
          else if getSize d = 0 then Inl Undefined
          else
            let readOffset = readPtr mod getSize d;
                contiguousMessages = (getSize d - readOffset) div sizeofT q
            in if contiguousMessages < nMessages
               then Inr (True,
                 \<lparr>first = \<lparr>address = mRing q + readOffset, region_length = contiguousMessages\<rparr>,
                  second = \<lparr>address = mRing q,
                            region_length = nMessages - contiguousMessages\<rparr>\<rparr>, h)
               else Inr (True,
                 \<lparr>first = \<lparr>address = mRing q + readOffset, region_length = nMessages\<rparr>,
                  second = MemRegion_default\<rparr>, h)))))"

definition commitRead :: "MessageQueue \<Rightarrow> heap \<Rightarrow> size_t \<Rightarrow> (bool \<times> heap) res" where
  "commitRead q h nMessages =
     bind_res (load64 h (mReadPtr q)) (\<lambda>readPtr.
     bind_res (load64 h (mWritePtr q)) (\<lambda>writePtr.
     bind_res (deref_desc q) (\<lambda>d.
     if writePtr - readPtr > getSize d then
       bind_res (store64 h (mReadPtr q) writePtr) (\<lambda>h'. Inr (False, h'))
     else
       let nBytesRead = nMessages * sizeofT q in
       bind_res (store64 h (mReadPtr q) (readPtr + nBytesRead)) (\<lambda>h'. Inr (True, h')))))"

definition fmq_read :: "MessageQueue \<Rightarrow> heap \<Rightarrow> ptr \<Rightarrow> size_t \<Rightarrow> (bool \<times> heap) res" where
  "fmq_read q h data nMessages =
     bind_res (beginRead q h nMessages) (\<lambda>(begun, tx, h1).
     if \<not> begun then Inr (False, h1)
     else
       bind_res (copyFrom (sizeofT q) tx h1 data 0 nMessages) (\<lambda>(copied, h2).
       if \<not> copied then Inr (False, h2)
       else commitRead q h2 nMessages))"

definition fmq_read_one :: "MessageQueue \<Rightarrow> heap \<Rightarrow> ptr \<Rightarrow> (bool \<times> heap) res" where
  "fmq_read_one q h data = fmq_read q h data 1"

end
