(* ===== verification/Queue_Refinement.thy ===== *)
theory Queue_Refinement
  imports Message_Queue
begin

text \<open>
  The contract of the non-blocking queue: seen from outside it is a bounded first-in
  first-out list of bytes. The invariant of a queue, the abstraction of its ring and its two
  counters to that list, and the proof that \<open>fmq_write\<close> and \<open>fmq_read\<close> implement the
  operations on lists.
\<close>

section \<open>Ring addresses\<close>

definition ring_addr :: "ptr \<Rightarrow> size_t \<Rightarrow> u64 \<Rightarrow> nat \<Rightarrow> ptr" where
  "ring_addr base S p i = base + (p + of_nat i) mod S"

definition ring_bytes :: "heap \<Rightarrow> ptr \<Rightarrow> size_t \<Rightarrow> u64 \<Rightarrow> nat \<Rightarrow> u8 list" where
  "ring_bytes h base S p n = map (\<lambda>i. bytes h (ring_addr base S p i)) [0..<n]"

lemma length_ring_bytes [simp]: "length (ring_bytes h base S p n) = n"
  by (simp add: ring_bytes_def)

lemma nth_ring_bytes [simp]:
  "i < n \<Longrightarrow> ring_bytes h base S p n ! i = bytes h (ring_addr base S p i)"
  by (simp add: ring_bytes_def)

lemma ring_addr_shift: "ring_addr base S (p + of_nat k) i = ring_addr base S p (k + i)"
  by (simp add: ring_addr_def add.assoc)

lemma ring_addr_offset:
  assumes "no_seam S p k" and "i \<le> k"
  shows "ring_addr base S p i = base + of_nat ((unat p + i) mod unat S)"
  unfolding ring_addr_def by (metis ring_offset_add [OF assms] word_of_nat_unat)

lemma ring_addr_inj:
  assumes "no_seam S p k" and "i < k" "j < k" and "k \<le> unat S"
    and "ring_addr base S p i = ring_addr base S p j"
  shows "i = j"
proof -
  from assms(5) have "unat ((p + of_nat i) mod S) = unat ((p + of_nat j) mod S)"
    by (simp add: ring_addr_def)
  then have "(unat p + i) mod unat S = (unat p + j) mod unat S"
    using ring_offset_add [OF assms(1), of i] ring_offset_add [OF assms(1), of j] assms(2,3) by simp
  then show ?thesis by (rule mod_inj_window) (use assms in linarith)+
qed

lemma ring_addr_range:
  assumes "S \<noteq> 0"
  obtains j where "ring_addr base S p i = base + of_nat j" and "j < unat S"
proof
  show "ring_addr base S p i = base + of_nat (unat ((p + of_nat i) mod S))"
    by (simp add: ring_addr_def)
  show "unat ((p + of_nat i) mod S) < unat S"
    using assms by (simp add: unat_mod unat_gt_0)
qed

lemma apart_from_ring:
  assumes "disjoint_ranges data n base (unat S)" and "i < n" and "S \<noteq> 0"
  shows "data + of_nat i \<noteq> ring_addr base S p k"
proof -
  obtain j where "ring_addr base S p k = base + of_nat j" "j < unat S"
    using assms(3) by (rule ring_addr_range)
  with disjoint_ranges_neq [OF assms(1,2)] show ?thesis by simp
qed

section \<open>The transaction over a stretch of the ring\<close>

text \<open>What both \<open>beginWrite\<close> and \<open>beginRead\<close> build for \<open>n\<close> messages at counter \<open>p\<close>.\<close>

definition ring_tx :: "MessageQueue \<Rightarrow> size_t \<Rightarrow> u64 \<Rightarrow> size_t \<Rightarrow> MemTransaction" where
  "ring_tx q S p n =
     (if (S - p mod S) div sizeofT q < n
      then \<lparr>first = \<lparr>address = mRing q + p mod S, region_length = (S - p mod S) div sizeofT q\<rparr>,
            second = \<lparr>address = mRing q, region_length = n - (S - p mod S) div sizeofT q\<rparr>\<rparr>
      else \<lparr>first = \<lparr>address = mRing q + p mod S, region_length = n\<rparr>,
            second = MemRegion_default\<rparr>)"

text \<open>
  The conditions under which a stretch of \<open>n\<close> messages from counter \<open>p\<close> is whole: the ring is
  a whole number of messages, the counter is aligned, and the messages fit.
\<close>

definition ring_stretch :: "MessageQueue \<Rightarrow> size_t \<Rightarrow> u64 \<Rightarrow> size_t \<Rightarrow> bool" where
  "ring_stretch q S p n \<longleftrightarrow> S \<noteq> 0 \<and> sizeofT q \<noteq> 0 \<and>
     unat (sizeofT q) dvd unat S \<and> unat (sizeofT q) dvd unat p \<and>
     unat n * unat (sizeofT q) \<le> unat S"

text \<open>The offset of the counter, and the messages up to the end of the ring.\<close>

definition ring_off :: "size_t \<Rightarrow> u64 \<Rightarrow> nat" where
  "ring_off S p = unat p mod unat S"

definition ring_rest :: "MessageQueue \<Rightarrow> size_t \<Rightarrow> u64 \<Rightarrow> nat" where
  "ring_rest q S p = unat ((S - p mod S) div sizeofT q)"

lemma ring_off_word: "p mod S = of_nat (ring_off S p)"
  by (simp add: ring_off_def unat_mod [symmetric])

lemma ring_stretchD:
  assumes "ring_stretch q S p n"
  shows "S \<noteq> 0" and "0 < unat (sizeofT q)" and "unat (sizeofT q) dvd unat S"
    and "unat (sizeofT q) dvd unat p" and "unat n * unat (sizeofT q) \<le> unat S"
    and "ring_off S p < unat S"
  using assms by (simp_all add: ring_stretch_def ring_off_def unat_gt_0)

lemma rest_bytes:
  assumes st: "ring_stretch q S p n"
  shows "ring_rest q S p * unat (sizeofT q) = unat S - ring_off S p"
proof -
  have "p mod S \<le> S"
    using ring_stretchD(6) [OF st] by (simp add: word_le_nat_alt unat_mod ring_off_def)
  then have "unat (S - p mod S) = unat S - ring_off S p"
    by (simp add: unat_diff_le unat_mod ring_off_def)
  moreover have "unat (sizeofT q) dvd unat S - ring_off S p"
    unfolding ring_off_def using ring_stretchD(3,4) [OF st] by (intro dvd_diff_nat dvd_mod)
  ultimately show ?thesis by (simp add: unat_div ring_rest_def)
qed

lemma wrap_bytes:
  assumes st: "ring_stretch q S p n" and "ring_rest q S p < unat n"
  shows "(unat n - ring_rest q S p) * unat (sizeofT q) \<le> ring_off S p"
proof -
  have "(unat n - ring_rest q S p) * unat (sizeofT q) =
      unat n * unat (sizeofT q) - ring_rest q S p * unat (sizeofT q)"
    by (rule diff_mult_distrib)
  with rest_bytes [OF st] ring_stretchD [OF st] show ?thesis by linarith
qed

text \<open>The two shapes of the transaction.\<close>

lemma ring_tx_cases:
  obtains (wrap) "ring_rest q S p < unat n"
      "address (first (ring_tx q S p n)) = mRing q + of_nat (ring_off S p)"
      "unat (region_length (first (ring_tx q S p n))) = ring_rest q S p"
      "address (second (ring_tx q S p n)) = mRing q"
      "unat (region_length (second (ring_tx q S p n))) = unat n - ring_rest q S p"
  | (straight) "unat n \<le> ring_rest q S p"
      "address (first (ring_tx q S p n)) = mRing q + of_nat (ring_off S p)"
      "unat (region_length (first (ring_tx q S p n))) = unat n"
      "address (second (ring_tx q S p n)) = 0"
      "unat (region_length (second (ring_tx q S p n))) = 0"
proof (cases "ring_rest q S p < unat n")
  case True
  then have less: "(S - p mod S) div sizeofT q < n"
    by (simp add: word_less_nat_alt ring_rest_def)
  then have "(S - p mod S) div sizeofT q \<le> n" by simp
  with True less show ?thesis
    by (intro wrap) (simp_all add: ring_tx_def ring_rest_def unat_diff_le ring_off_word)
next
  case False
  then have "\<not> (S - p mod S) div sizeofT q < n" by (simp add: word_less_nat_alt ring_rest_def)
  with False show ?thesis
    by (intro straight) (simp_all add: ring_tx_def MemRegion_default_def ring_off_word)
qed

lemma ring_tx_length: "tx_length (ring_tx q S p n) = unat n"
  by (cases rule: ring_tx_cases [of q S p n]) (simp_all add: tx_length_def)

lemma ring_tx_ok:
  assumes st: "ring_stretch q S p n"
  shows "tx_ok (sizeofT q) (ring_tx q S p n)"
proof -
  have small: "unat n * unat (sizeofT q) < 18446744073709551616"
    using ring_stretchD(5) [OF st] unat_u64_less [of S] by linarith
  show ?thesis
  proof (cases rule: ring_tx_cases [of q S p n])
    case wrap
    have "disjoint_ranges (mRing q) (ring_off S p) (mRing q + of_nat (ring_off S p))
        (unat S - ring_off S p)"
      using ring_stretchD(6) [OF st] unat_u64_less [of S]
      by (intro disjoint_ranges_adjacent) linarith
    from disjoint_ranges_part [OF this, of "(unat n - ring_rest q S p) * unat (sizeofT q)" 0
        "unat S - ring_off S p" 0] wrap_bytes [OF st wrap(1)] rest_bytes [OF st]
    show ?thesis
      using ring_stretchD(2) [OF st] small
      by (simp add: tx_ok_def ring_tx_length wrap disjoint_ranges_sym)
  next
    case straight
    with ring_stretchD(2) [OF st] small show ?thesis by (simp add: tx_ok_def ring_tx_length)
  qed
qed

text \<open>Every byte of the transaction is a byte of the ring, also where the counter overflows.\<close>

lemma ring_tx_inside:
  assumes st: "ring_stretch q (S) p n" and i: "i < unat n * unat (sizeofT q)"
  shows "tx_addr (sizeofT q) (ring_tx q (S) p n) i \<in> byte_range (mRing q) (unat S)"
proof -
  let ?z = "unat (sizeofT q)"
  note D = ring_stretchD [OF st] and rest = rest_bytes [OF st]
  have low: "tx_addr (sizeofT q) (ring_tx q S p n) i \<in> byte_range (mRing q) (unat S)"
    if "i < unat (region_length (first (ring_tx q S p n))) * ?z" "i < ring_rest q S p * ?z"
      "address (first (ring_tx q S p n)) = mRing q + of_nat (ring_off S p)"
  proof -
    have "ring_off S p + i < unat S" using that(2) rest D(6) by linarith
    from byte_rangeI [OF this] that(1,3) show ?thesis by (simp add: tx_addr_def add.assoc)
  qed
  show ?thesis
  proof (cases rule: ring_tx_cases [of q S p n])
    case straight
    have "unat n * ?z \<le> ring_rest q S p * ?z" using straight(1) by (rule mult_le_mono1)
    with i have "i < ring_rest q S p * ?z" by linarith
    with i straight show ?thesis by (intro low) simp_all
  next
    case wrap
    show ?thesis
    proof (cases "i < ring_rest q S p * ?z")
      case True
      with wrap show ?thesis by (intro low) simp_all
    next
      case False
      then have "i - ring_rest q S p * ?z < (unat n - ring_rest q S p) * ?z"
        using i by (simp add: diff_mult_distrib)
      then have "i - ring_rest q S p * ?z < unat S" using wrap_bytes [OF st wrap(1)] D(6) by linarith
      from byte_rangeI [OF this] False wrap show ?thesis by (simp add: tx_addr_def)
    qed
  qed
qed

text \<open>Byte \<open>i\<close> of the transaction is the byte that counter \<open>p + i\<close> names.\<close>

lemma ring_tx_addr:
  assumes st: "ring_stretch q S p n" and seam: "no_seam S p (unat n * unat (sizeofT q))"
    and i: "i < unat n * unat (sizeofT q)"
  shows "tx_addr (sizeofT q) (ring_tx q S p n) i = ring_addr (mRing q) S p i"
proof -
  let ?z = "unat (sizeofT q)"
  have at: "ring_addr (mRing q) S p i = mRing q + of_nat ((ring_off S p + i) mod unat S)"
    using ring_addr_offset [OF seam, of i] i by (simp add: ring_off_def mod_simps)
  note D = ring_stretchD [OF st] and rest = rest_bytes [OF st]
  have low: "tx_addr (sizeofT q) (ring_tx q S p n) i = ring_addr (mRing q) S p i"
    if "i < ring_rest q S p * ?z"
      "i < unat (region_length (first (ring_tx q S p n))) * ?z"
      "address (first (ring_tx q S p n)) = mRing q + of_nat (ring_off S p)"
  proof -
    have "(ring_off S p + i) mod unat S = ring_off S p + i" using rest that(1) by simp
    with that at show ?thesis by (simp add: tx_addr_def add.assoc)
  qed
  show ?thesis
  proof (cases rule: ring_tx_cases [of q S p n])
    case straight
    have "unat n * ?z \<le> ring_rest q S p * ?z" using straight(1) by (rule mult_le_mono1)
    with i have "i < ring_rest q S p * ?z" by linarith
    with straight i show ?thesis by (intro low) simp_all
  next
    case wrap
    show ?thesis
    proof (cases "i < ring_rest q S p * ?z")
      case True
      with wrap show ?thesis by (intro low) simp_all
    next
      case False
      have "i < unat S" using i D(5) by linarith
      then have "unat S \<le> ring_off S p + i" "ring_off S p + i - unat S < unat S"
        using False rest D(6) by linarith+
      then have "(ring_off S p + i) mod unat S = i - ring_rest q S p * ?z"
        using rest D(6) by (simp add: le_mod_geq)
      with False at wrap show ?thesis by (simp add: tx_addr_def)
    qed
  qed
qed

text \<open>A buffer apart from the ring is apart from the regions of the transaction.\<close>

lemma ring_tx_apart:
  assumes st: "ring_stretch q S p n"
    and apart: "disjoint_ranges data (unat n * unat (sizeofT q)) (mRing q) (unat S)"
  shows "buffer_apart (sizeofT q) (ring_tx q S p n) data (unat n * unat (sizeofT q))"
proof -
  let ?z = "unat (sizeofT q)"
  have part: "disjoint_ranges data (unat n * ?z) (mRing q + of_nat j) l" if "j + l \<le> unat S" for j l
    using disjoint_ranges_part [OF apart, of "unat n * ?z" 0 l j] that by simp
  note D = ring_stretchD [OF st] and rest = rest_bytes [OF st]
  show ?thesis
  proof (cases rule: ring_tx_cases [of q S p n])
    case wrap
    show ?thesis
      using part [of "ring_off S p" "ring_rest q S p * ?z"]
        part [of 0 "(unat n - ring_rest q S p) * ?z"] wrap_bytes [OF st wrap(1)] rest D(6) wrap
      by (simp add: buffer_apart_def)
  next
    case straight
    have "unat n * ?z \<le> ring_rest q S p * ?z" using straight(1) by (rule mult_le_mono1)
    with part [of "ring_off S p" "unat n * ?z"] rest D(6) straight show ?thesis
      by (simp add: buffer_apart_def)
  qed
qed

section \<open>The invariant of a queue\<close>

text \<open>
  What holds of the object once it is set up: a valid queue whose descriptor agrees with the
  message type, whose ring is a whole, non-zero number of messages, and whose two counters
  are different cells.
\<close>

definition ring_size :: "MessageQueue \<Rightarrow> size_t" where
  "ring_size q = (case mDesc q of None \<Rightarrow> 0 | Some d \<Rightarrow> getSize d)"

definition queue_wf :: "MessageQueue \<Rightarrow> bool" where
  "queue_wf q \<longleftrightarrow> isValid q \<and> mReadPtr q \<noteq> mWritePtr q \<and>
     (case mDesc q of None \<Rightarrow> False | Some d \<Rightarrow> getQuantum d = sizeofT q) \<and>
     sizeofT q \<noteq> 0 \<and> ring_size q \<noteq> 0 \<and> unat (sizeofT q) dvd unat (ring_size q)"

abbreviation readCtr :: "MessageQueue \<Rightarrow> heap \<Rightarrow> u64" where
  "readCtr q h \<equiv> words64 h (mReadPtr q)"

abbreviation writeCtr :: "MessageQueue \<Rightarrow> heap \<Rightarrow> u64" where
  "writeCtr q h \<equiv> words64 h (mWritePtr q)"

definition used :: "MessageQueue \<Rightarrow> heap \<Rightarrow> nat" where
  "used q h = unat (writeCtr q h - readCtr q h)"

text \<open>
  The counters: both are whole messages, at most one ring apart, and the stretch of the ring
  between them meets no seam.
\<close>

definition mq_inv :: "MessageQueue \<Rightarrow> heap \<Rightarrow> bool" where
  "mq_inv q h \<longleftrightarrow> queue_wf q \<and>
     unat (sizeofT q) dvd unat (readCtr q h) \<and> unat (sizeofT q) dvd unat (writeCtr q h) \<and>
     used q h \<le> unat (ring_size q) \<and> no_seam (ring_size q) (readCtr q h) (used q h)"

text \<open>The messages waiting in the queue, as bytes.\<close>

definition contents :: "MessageQueue \<Rightarrow> heap \<Rightarrow> u8 list" where
  "contents q h = ring_bytes h (mRing q) (ring_size q) (readCtr q h) (used q h)"

text \<open>The number of bytes of \<open>n\<close> messages, without wrap-around.\<close>

definition msg_bytes :: "MessageQueue \<Rightarrow> size_t \<Rightarrow> nat" where
  "msg_bytes q n = unat n * unat (sizeofT q)"

lemma msg_bytes_aligned: "unat (sizeofT q) dvd msg_bytes q n"
  by (simp add: msg_bytes_def)

lemma length_contents [simp]: "length (contents q h) = used q h"
  by (simp add: contents_def)

lemma queue_wfD:
  assumes "queue_wf q"
  obtains d where "mDesc q = Some d" "getSize d = ring_size q" "getQuantum d = sizeofT q"
    and "mRing q \<noteq> 0" "mReadPtr q \<noteq> 0" "mWritePtr q \<noteq> 0" "mReadPtr q \<noteq> mWritePtr q"
    and "sizeofT q \<noteq> 0" "ring_size q \<noteq> 0" "unat (sizeofT q) dvd unat (ring_size q)"
  using assms by (auto simp: queue_wf_def isValid_def ring_size_def split: option.splits)

lemma mod_sizeofT_iff:
  "(p :: u64) mod z = 0 \<longleftrightarrow> unat z dvd unat p"
  by (metis dvd_eq_mod_eq_0 unat_mod unat_0_iff)

lemma div_less_iff:
  assumes "(z :: u64) \<noteq> 0"
  shows "x div z < n \<longleftrightarrow> unat x < unat n * unat z"
  using assms by (simp add: word_less_nat_alt unat_div div_less_iff_less_mult unat_gt_0)

lemma writeCtr_eq: "writeCtr q h = readCtr q h + of_nat (used q h)"
  by (simp add: used_def)

section \<open>Beginning a write\<close>

text \<open>
  How many bytes may be written: the free part of the ring for the synchronized flavor, the
  whole ring for the unsynchronized one, whose writes overwrite what was not read.
\<close>

definition write_limit :: "MessageQueue \<Rightarrow> heap \<Rightarrow> nat" where
  "write_limit q h = (if flavor q = kSynchronizedReadWrite
     then unat (ring_size q) - used q h else unat (ring_size q))"

lemma beginWrite_result:
  assumes wf: "queue_wf q" and al: "unat (sizeofT q) dvd unat (writeCtr q h)"
    and full: "flavor q = kSynchronizedReadWrite \<Longrightarrow> used q h \<le> unat (ring_size q)"
  shows "beginWrite q h n tx0 =
    (if msg_bytes q n \<le> write_limit q h
     then Inr (True, ring_tx q (ring_size q) (writeCtr q h) n)
     else Inr (False, MemTransaction_default))"
proof -
  let ?S = "ring_size q" and ?free = "ring_size q - (writeCtr q h - readCtr q h)"
  obtain d where d: "mDesc q = Some d" "getSize d = ?S" "getQuantum d = sizeofT q"
    "mRing q \<noteq> 0" "mReadPtr q \<noteq> 0" "mWritePtr q \<noteq> 0" "sizeofT q \<noteq> 0" "?S \<noteq> 0"
    using wf by (rule queue_wfD) blast
  have free: "unat ?free = unat ?S - used q h" if "flavor q = kSynchronizedReadWrite"
    using full [OF that] by (simp add: unat_diff_le word_le_nat_alt used_def)
  have short: "?free div sizeofT q < n \<longleftrightarrow> write_limit q h < msg_bytes q n"
    if "flavor q = kSynchronizedReadWrite"
    using that free by (simp add: div_less_iff [OF d(7)] write_limit_def msg_bytes_def)
  have big: "?S div sizeofT q < n \<longleftrightarrow> unat ?S < msg_bytes q n"
    by (simp add: div_less_iff [OF d(7)] msg_bytes_def)
  have le: "write_limit q h \<le> unat ?S" by (simp add: write_limit_def)
  show ?thesis
  proof (cases "msg_bytes q n \<le> write_limit q h")
    case True
    then have "\<not> (flavor q = kSynchronizedReadWrite \<and> ?free div sizeofT q < n)"
      "\<not> ?S div sizeofT q < n"
      using short big le by linarith+
    with True d al show ?thesis
      by (auto simp: beginWrite_def availableToWrite_def availableToWriteBytes_def
          availableToReadBytes_def getQuantumCount_def deref_desc_def mod_sizeofT_iff
          ring_tx_def Let_def)
  next
    case False
    then have "flavor q = kSynchronizedReadWrite \<and> ?free div sizeofT q < n \<or> ?S div sizeofT q < n"
      using short big by (cases "flavor q") (auto simp: write_limit_def)
    with False d show ?thesis
      by (auto simp: beginWrite_def availableToWrite_def availableToWriteBytes_def
          availableToReadBytes_def getQuantumCount_def deref_desc_def)
  qed
qed

section \<open>Beginning a read, and the commits\<close>

definition set_readCtr :: "MessageQueue \<Rightarrow> u64 \<Rightarrow> heap \<Rightarrow> heap" where
  "set_readCtr q v h = h\<lparr>words64 := (words64 h)(mReadPtr q := v)\<rparr>"

definition set_writeCtr :: "MessageQueue \<Rightarrow> u64 \<Rightarrow> heap \<Rightarrow> heap" where
  "set_writeCtr q v h = h\<lparr>words64 := (words64 h)(mWritePtr q := v)\<rparr>"

lemma msg_bytes_word:
  "msg_bytes q n < 18446744073709551616 \<Longrightarrow> unat (n * sizeofT q) = msg_bytes q n"
  unfolding msg_bytes_def by (rule unat_mult_no_wrap)

lemma msg_bytes_of_nat:
  "msg_bytes q n < 18446744073709551616 \<Longrightarrow> n * sizeofT q = of_nat (msg_bytes q n)"
  by (metis msg_bytes_word word_of_nat_unat)

text \<open>
  \<open>beginRead\<close> has three outcomes: the reader was overtaken and its counter jumps to the
  write counter; too little data; or a transaction over the oldest messages. The byte count
  of the request must not wrap around.
\<close>

lemma beginRead_result:
  assumes wf: "queue_wf q"
    and al: "unat (sizeofT q) dvd unat (writeCtr q h)" "unat (sizeofT q) dvd unat (readCtr q h)"
    and small: "msg_bytes q n < 18446744073709551616"
  shows "beginRead q h n =
    (if unat (ring_size q) < used q h
     then Inr (False, MemTransaction_default, set_readCtr q (writeCtr q h) h)
     else if used q h < msg_bytes q n then Inr (False, MemTransaction_default, h)
     else Inr (True, ring_tx q (ring_size q) (readCtr q h) n, h))"
proof -
  let ?S = "ring_size q" and ?u = "writeCtr q h - readCtr q h"
  obtain d where d: "mDesc q = Some d" "getSize d = ?S" "getQuantum d = sizeofT q"
    "mRing q \<noteq> 0" "mReadPtr q \<noteq> 0" "mWritePtr q \<noteq> 0" "sizeofT q \<noteq> 0" "?S \<noteq> 0"
    using wf by (rule queue_wfD) blast
  have over: "?u > ?S \<longleftrightarrow> unat ?S < used q h" by (simp add: word_less_nat_alt used_def)
  have less: "?u < n * sizeofT q \<longleftrightarrow> used q h < msg_bytes q n"
    by (simp add: word_less_nat_alt used_def msg_bytes_word [OF small])
  have wrap: "?u < n * sizeofT q \<Longrightarrow> used q h < msg_bytes q n" using less by simp
  show ?thesis
    using d al
    by (auto simp: beginRead_def deref_desc_def mod_sizeofT_iff over less ring_tx_def
        set_readCtr_def Let_def)
qed

lemma commitRead_result:
  assumes wf: "queue_wf q"
  shows "commitRead q h n =
    (if unat (ring_size q) < used q h then Inr (False, set_readCtr q (writeCtr q h) h)
     else Inr (True, set_readCtr q (readCtr q h + n * sizeofT q) h))"
proof -
  obtain d where d: "mDesc q = Some d" "getSize d = ring_size q"
    "mReadPtr q \<noteq> 0" "mWritePtr q \<noteq> 0"
    using wf by (rule queue_wfD) blast
  have over: "writeCtr q h - readCtr q h > ring_size q \<longleftrightarrow> unat (ring_size q) < used q h"
    by (simp add: word_less_nat_alt used_def)
  with d show ?thesis
    by (auto simp: commitRead_def deref_desc_def set_readCtr_def over)
qed

lemma commitWrite_result:
  assumes "queue_wf q"
  shows "commitWrite q h n = Inr (True, set_writeCtr q (writeCtr q h + n * sizeofT q) h)"
proof -
  have "mWritePtr q \<noteq> 0" using assms by (rule queue_wfD) blast
  then show ?thesis by (simp add: commitWrite_def set_writeCtr_def)
qed

lemma queue_cells:
  assumes "queue_wf q"
  shows "readCtr q (set_writeCtr q v h) = readCtr q h" "writeCtr q (set_writeCtr q v h) = v"
    and "writeCtr q (set_readCtr q v h) = writeCtr q h" "readCtr q (set_readCtr q v h) = v"
    and "bytes (set_writeCtr q v h) = bytes h" "bytes (set_readCtr q v h) = bytes h"
  using assms by (auto simp: queue_wf_def set_writeCtr_def set_readCtr_def)

section \<open>The two operations against a list\<close>

text \<open>The bounded first-in first-out list that a queue promises to be.\<close>

definition fifo_put :: "nat \<Rightarrow> 'a list \<Rightarrow> 'a list \<Rightarrow> bool \<times> 'a list" where
  "fifo_put cap xs new = (if length xs + length new \<le> cap then (True, xs @ new) else (False, xs))"

definition fifo_get :: "'a list \<Rightarrow> nat \<Rightarrow> bool \<times> 'a list" where
  "fifo_get xs n = (if n \<le> length xs then (True, drop n xs) else (False, xs))"

text \<open>
  What a caller owes: a buffer that is not null and, if the request can be served at all, lies
  apart from the ring. Nothing is said about the counters; they are the invariant's.
\<close>

definition buffer_ok :: "MessageQueue \<Rightarrow> ptr \<Rightarrow> size_t \<Rightarrow> bool" where
  "buffer_ok q data n \<longleftrightarrow> data \<noteq> nullptr \<and>
     (msg_bytes q n \<le> unat (ring_size q) \<longrightarrow>
      disjoint_ranges data (msg_bytes q n) (mRing q) (unat (ring_size q)))"

text \<open>Room for the write counter: the seam at \<open>2 ^ 64\<close> is not reached, or harmless.\<close>

definition write_room :: "MessageQueue \<Rightarrow> heap \<Rightarrow> size_t \<Rightarrow> bool" where
  "write_room q h n \<longleftrightarrow>
     (msg_bytes q n \<le> unat (ring_size q) \<longrightarrow>
      no_seam (ring_size q) (readCtr q h) (used q h + msg_bytes q n))"

definition same_outside_ring :: "MessageQueue \<Rightarrow> heap \<Rightarrow> heap \<Rightarrow> bool" where
  "same_outside_ring q h h' \<longleftrightarrow>
     (\<forall>a. (\<forall>j<unat (ring_size q). a \<noteq> mRing q + of_nat j) \<longrightarrow> bytes h' a = bytes h a)"

lemma mq_invD:
  assumes "mq_inv q h"
  shows "queue_wf q" and "unat (sizeofT q) dvd unat (readCtr q h)"
    and "unat (sizeofT q) dvd unat (writeCtr q h)" and "used q h \<le> unat (ring_size q)"
    and "no_seam (ring_size q) (readCtr q h) (used q h)"
  using assms by (simp_all add: mq_inv_def)

lemma no_seam_shift:
  assumes "no_seam S p (j + k)"
  shows "no_seam S (p + of_nat j) k"
proof (cases "unat S dvd 2 ^ 64")
  case False
  with assms have "unat p + j + k < 18446744073709551616" by (simp add: no_seam_def)
  then show ?thesis by (simp add: no_seam_def unat_add_of_nat add.assoc)
qed (simp add: no_seam_def)

lemma aligned_add:
  assumes "z dvd unat p" and "z dvd k" and "z dvd unat S" and "no_seam S p k"
  shows "z dvd unat (p + of_nat k)"
proof (cases "unat S dvd 2 ^ 64")
  case True
  with assms(3) have "z dvd 2 ^ 64" by (rule dvd_trans)
  then have "z dvd 18446744073709551616" by simp
  with assms(1,2) show ?thesis by (simp add: unat_add_of_nat dvd_mod)
next
  case False
  with assms have "unat p + k < 18446744073709551616" by (simp add: no_seam_def)
  with assms(1,2) show ?thesis by (simp add: unat_add_of_nat)
qed

text \<open>Advancing the write counter publishes bytes, advancing the read counter retires them.\<close>

lemma commit_appends:
  assumes inv: "mq_inv q h" and fits: "used q h + m \<le> unat (ring_size q)"
    and seam: "no_seam (ring_size q) (readCtr q h) (used q h + m)"
    and al: "unat (sizeofT q) dvd m"
    and ctr: "readCtr q h' = readCtr q h" "writeCtr q h' = writeCtr q h + of_nat m"
    and old: "\<And>i. i < used q h \<Longrightarrow>
      bytes h' (ring_addr (mRing q) (ring_size q) (readCtr q h) i) =
      bytes h (ring_addr (mRing q) (ring_size q) (readCtr q h) i)"
  shows "contents q h' = contents q h @ ring_bytes h' (mRing q) (ring_size q) (writeCtr q h) m"
    and "mq_inv q h'" and "used q h' = used q h + m"
proof -
  let ?S = "ring_size q" and ?r = "readCtr q h" and ?w = "writeCtr q h" and ?u = "used q h"
  note D = mq_invD [OF inv]
  have at: "ring_addr (mRing q) ?S ?w i = ring_addr (mRing q) ?S ?r (?u + i)" for i
    using ring_addr_shift [of "mRing q" ?S ?r ?u i] by (simp flip: writeCtr_eq)
  have "?w + of_nat m - ?r = of_nat (?u + m)"
    using writeCtr_eq [of h q] by (simp add: algebra_simps)
  moreover have "?u + m < 18446744073709551616" using fits unat_u64_less [of ?S] by linarith
  ultimately have "unat (?w + of_nat m - ?r) = ?u + m" by (metis unat_of_nat_u64)
  then show u': "used q h' = ?u + m" by (simp add: used_def [of q h'] ctr)
  show "contents q h' = contents q h @ ring_bytes h' (mRing q) ?S ?w m"
    by (rule nth_equalityI) (simp_all add: contents_def ctr u' old nth_append at)
  have "no_seam ?S ?w m" using no_seam_shift [OF seam] by (simp flip: writeCtr_eq)
  moreover have "unat (sizeofT q) dvd unat ?S" using D(1) by (rule queue_wfD)
  ultimately show "mq_inv q h'"
    using D fits seam al aligned_add [OF D(3) al] by (simp add: mq_inv_def ctr u')
qed

lemma commit_drops:
  assumes inv: "mq_inv q h" and has: "m \<le> used q h" and al: "unat (sizeofT q) dvd m"
    and ctr: "readCtr q h' = readCtr q h + of_nat m" "writeCtr q h' = writeCtr q h"
    and ring: "\<And>i. bytes h' (ring_addr (mRing q) (ring_size q) (readCtr q h) i) =
      bytes h (ring_addr (mRing q) (ring_size q) (readCtr q h) i)"
  shows "contents q h' = drop m (contents q h)" and "mq_inv q h'" and "used q h' = used q h - m"
proof -
  let ?S = "ring_size q" and ?r = "readCtr q h" and ?w = "writeCtr q h" and ?u = "used q h"
  note D = mq_invD [OF inv]
  have "?w - (?r + of_nat m) = of_nat (?u - m)"
    using writeCtr_eq [of h q] has by (simp add: of_nat_diff algebra_simps)
  moreover have "?u - m < 18446744073709551616" using D(4) unat_u64_less [of ?S] by linarith
  ultimately have "unat (?w - (?r + of_nat m)) = ?u - m" by (metis unat_of_nat_u64)
  then show u': "used q h' = ?u - m" by (simp add: used_def [of q h'] ctr)
  show "contents q h' = drop m (contents q h)"
    by (rule nth_equalityI) (simp_all add: contents_def ctr u' ring ring_addr_shift)
  have seam: "no_seam ?S ?r m" using D(5) has by (rule no_seam_mono)
  have "no_seam ?S (?r + of_nat m) (?u - m)"
    using no_seam_shift [of ?S ?r m "?u - m"] D(5) has by simp
  moreover have "unat (sizeofT q) dvd unat ?S" using D(1) by (rule queue_wfD)
  ultimately show "mq_inv q h'"
    using D al aligned_add [OF D(2) al _ seam] by (simp add: mq_inv_def ctr u')
qed

text \<open>
  The copies between a caller's buffer and a stretch of the ring: what they transfer and what
  they leave alone.
\<close>

lemma ring_copyTo:
  assumes st: "ring_stretch q S p n" and seam: "no_seam S p (msg_bytes q n)"
    and data: "data \<noteq> 0" "disjoint_ranges data (msg_bytes q n) (mRing q) (unat S)"
  obtains h' where "copyTo (sizeofT q) (ring_tx q S p n) h data 0 n = Inr (True, h')"
    and "words64 h' = words64 h" and "words32 h' = words32 h"
    and "\<And>i. i < msg_bytes q n \<Longrightarrow>
      bytes h' (ring_addr (mRing q) S p i) = bytes h (data + of_nat i)"
    and "\<And>a. (\<And>i. i < msg_bytes q n \<Longrightarrow> a \<noteq> ring_addr (mRing q) S p i) \<Longrightarrow>
      bytes h' a = bytes h a"
proof -
  have addr: "tx_addr (sizeofT q) (ring_tx q S p n) i = ring_addr (mRing q) S p i"
    if "i < msg_bytes q n" for i
    using ring_tx_addr [OF st] seam that by (simp add: msg_bytes_def)
  have len: "unat (0 :: u64) + unat n \<le> tx_length (ring_tx q S p n)" by (simp add: ring_tx_length)
  have apart: "buffer_apart (sizeofT q) (ring_tx q S p n) data (unat n * unat (sizeofT q))"
    using ring_tx_apart [OF st] data(2) by (simp add: msg_bytes_def)
  obtain h' where h': "copyTo (sizeofT q) (ring_tx q S p n) h data 0 n = Inr (True, h')"
    "words64 h' = words64 h" "words32 h' = words32 h"
    "\<And>i. i < msg_bytes q n \<Longrightarrow> bytes h' (ring_addr (mRing q) S p i) = bytes h (data + of_nat i)"
    "\<And>a. (\<And>i. i < msg_bytes q n \<Longrightarrow> a \<noteq> ring_addr (mRing q) S p i) \<Longrightarrow>
      bytes h' a = bytes h a"
    by (rule copyTo_transfers [OF ring_tx_ok [OF st] len data(1) apart, of h])
      (simp add: addr flip: msg_bytes_def)
  then show ?thesis by (rule that)
qed

lemma ring_copyFrom:
  assumes st: "ring_stretch q S p n" and seam: "no_seam S p (msg_bytes q n)"
    and data: "data \<noteq> 0" "disjoint_ranges data (msg_bytes q n) (mRing q) (unat S)"
  obtains h' where "copyFrom (sizeofT q) (ring_tx q S p n) h data 0 n = Inr (True, h')"
    and "words64 h' = words64 h" and "words32 h' = words32 h"
    and "mem_bytes h' data (msg_bytes q n) = ring_bytes h (mRing q) S p (msg_bytes q n)"
    and "\<And>a. (\<And>i. i < msg_bytes q n \<Longrightarrow> a \<noteq> data + of_nat i) \<Longrightarrow> bytes h' a = bytes h a"
proof -
  have addr: "tx_addr (sizeofT q) (ring_tx q S p n) i = ring_addr (mRing q) S p i"
    if "i < msg_bytes q n" for i
    using ring_tx_addr [OF st] seam that by (simp add: msg_bytes_def)
  have len: "unat (0 :: u64) + unat n \<le> tx_length (ring_tx q S p n)" by (simp add: ring_tx_length)
  have apart: "buffer_apart (sizeofT q) (ring_tx q S p n) data (unat n * unat (sizeofT q))"
    using ring_tx_apart [OF st] data(2) by (simp add: msg_bytes_def)
  obtain h' where h': "copyFrom (sizeofT q) (ring_tx q S p n) h data 0 n = Inr (True, h')"
    "words64 h' = words64 h" "words32 h' = words32 h"
    "\<And>i. i < msg_bytes q n \<Longrightarrow> bytes h' (data + of_nat i) = bytes h (ring_addr (mRing q) S p i)"
    "\<And>a. (\<And>i. i < msg_bytes q n \<Longrightarrow> a \<noteq> data + of_nat i) \<Longrightarrow> bytes h' a = bytes h a"
    by (rule copyFrom_transfers [OF ring_tx_ok [OF st] len data(1) apart, of h])
      (simp add: addr flip: msg_bytes_def)
  show ?thesis
  proof (rule that [OF h'(1-3) _ h'(5)])
    show "mem_bytes h' data (msg_bytes q n) = ring_bytes h (mRing q) S p (msg_bytes q n)"
      by (rule nth_equalityI) (simp_all add: h'(4))
  qed
qed

text \<open>What a write that fits does to memory, for either flavor.\<close>

lemma fmq_write_effect:
  assumes wf: "queue_wf q" and al: "unat (sizeofT q) dvd unat (writeCtr q h)"
    and full: "flavor q = kSynchronizedReadWrite \<Longrightarrow> used q h \<le> unat (ring_size q)"
    and fits: "msg_bytes q n \<le> write_limit q h" and buf: "buffer_ok q data n"
    and seam: "no_seam (ring_size q) (writeCtr q h) (msg_bytes q n)"
  obtains h' where "fmq_write q h data n = Inr (True, h')"
    and "words64 h' = (words64 h)(mWritePtr q := writeCtr q h + of_nat (msg_bytes q n))"
    and "words32 h' = words32 h"
    and "\<And>i. i < msg_bytes q n \<Longrightarrow>
      bytes h' (ring_addr (mRing q) (ring_size q) (writeCtr q h) i) = bytes h (data + of_nat i)"
    and "\<And>a. (\<And>i. i < msg_bytes q n \<Longrightarrow>
      a \<noteq> ring_addr (mRing q) (ring_size q) (writeCtr q h) i) \<Longrightarrow> bytes h' a = bytes h a"
proof -
  let ?S = "ring_size q" and ?w = "writeCtr q h" and ?m = "msg_bytes q n"
  let ?tx = "ring_tx q ?S ?w n"
  have S: "?S \<noteq> 0" "sizeofT q \<noteq> 0" "unat (sizeofT q) dvd unat ?S"
    using wf by (rule queue_wfD, simp)+
  have mS: "?m \<le> unat ?S" using fits by (simp add: write_limit_def split: if_splits)
  have st: "ring_stretch q ?S ?w n"
    using S al mS by (simp add: ring_stretch_def msg_bytes_def)
  have small: "?m < 18446744073709551616" using mS unat_u64_less [of ?S] by linarith
  have data: "data \<noteq> 0" "disjoint_ranges data ?m (mRing q) (unat ?S)"
    using buf mS by (simp_all add: buffer_ok_def)
  have begun: "beginWrite q h n MemTransaction_default = Inr (True, ?tx)"
    using beginWrite_result [OF wf al full] fits by simp
  obtain h1 where h1: "copyTo (sizeofT q) ?tx h data 0 n = Inr (True, h1)"
    "words64 h1 = words64 h" "words32 h1 = words32 h"
    "\<And>i. i < ?m \<Longrightarrow> bytes h1 (ring_addr (mRing q) ?S ?w i) = bytes h (data + of_nat i)"
    "\<And>a. (\<And>i. i < ?m \<Longrightarrow> a \<noteq> ring_addr (mRing q) ?S ?w i) \<Longrightarrow> bytes h1 a = bytes h a"
    using ring_copyTo [OF st seam data, of h] by metis
  show ?thesis
  proof (rule that [of "set_writeCtr q (?w + of_nat ?m) h1"])
    show "fmq_write q h data n = Inr (True, set_writeCtr q (?w + of_nat ?m) h1)"
      by (simp add: fmq_write_def begun h1 commitWrite_result [OF wf] msg_bytes_of_nat [OF small])
  qed (simp_all add: h1 set_writeCtr_def)
qed

lemma fmq_write_put:
  assumes inv: "mq_inv q h" and sync: "flavor q = kSynchronizedReadWrite"
    and buf: "buffer_ok q data n" and room: "write_room q h n"
  shows "\<exists>ok h'. fmq_write q h data n = Inr (ok, h') \<and> mq_inv q h' \<and>
    (ok, contents q h') =
      fifo_put (unat (ring_size q)) (contents q h) (mem_bytes h data (msg_bytes q n)) \<and>
    same_outside_ring q h h' \<and> readCtr q h' = readCtr q h \<and> (\<not> ok \<longrightarrow> h' = h)"
proof (cases "msg_bytes q n \<le> write_limit q h")
  case False
  note D = mq_invD [OF inv]
  have "beginWrite q h n MemTransaction_default = Inr (False, MemTransaction_default)"
    using beginWrite_result [OF D(1,3), of n] False D(4) by simp
  then have "fmq_write q h data n = Inr (False, h)" by (simp add: fmq_write_def)
  moreover have "\<not> used q h + msg_bytes q n \<le> unat (ring_size q)"
    using False sync D(4) by (simp add: write_limit_def)
  ultimately show ?thesis using inv
    by (intro exI [of _ False] exI [of _ h]) (simp add: fifo_put_def same_outside_ring_def)
next
  case True
  let ?S = "ring_size q" and ?r = "readCtr q h" and ?w = "writeCtr q h"
  let ?m = "msg_bytes q n" and ?u = "used q h" and ?A = "ring_addr (mRing q) (ring_size q)"
  note D = mq_invD [OF inv]
  have um: "?u + ?m \<le> unat ?S" using True sync D(4) by (simp add: write_limit_def)
  then have mS: "?m \<le> unat ?S" by linarith
  have seam: "no_seam ?S ?r (?u + ?m)" using room mS by (simp add: write_room_def)
  have seam_w: "no_seam ?S ?w ?m" using no_seam_shift [OF seam] by (simp flip: writeCtr_eq)
  have S: "?S \<noteq> 0" "unat (sizeofT q) dvd unat ?S"
    using D(1) by (rule queue_wfD, simp)+
  obtain h' where h': "fmq_write q h data n = Inr (True, h')"
    "words64 h' = (words64 h)(mWritePtr q := ?w + of_nat ?m)"
    "\<And>i. i < ?m \<Longrightarrow> bytes h' (?A ?w i) = bytes h (data + of_nat i)"
    "\<And>a. (\<And>i. i < ?m \<Longrightarrow> a \<noteq> ?A ?w i) \<Longrightarrow> bytes h' a = bytes h a"
    using fmq_write_effect [OF D(1,3) D(4) True buf seam_w] by metis
  have ctr: "readCtr q h' = ?r" "writeCtr q h' = ?w + of_nat ?m"
    using D(1) h'(2) by (auto simp: queue_wf_def)
  have at: "?A ?w i = ?A ?r (?u + i)" for i
    using ring_addr_shift [of "mRing q" ?S ?r ?u i] by (simp flip: writeCtr_eq)
  have old: "bytes h' (?A ?r i) = bytes h (?A ?r i)" if "i < ?u" for i
  proof (rule h'(4))
    fix k
    assume "k < ?m"
    with that ring_addr_inj [OF seam _ _ um, of i "?u + k"] show "?A ?r i \<noteq> ?A ?w k"
      by (auto simp: at)
  qed
  have al: "unat (sizeofT q) dvd ?m" by (simp add: msg_bytes_def)
  note step = commit_appends [OF inv um seam al ctr old]
  have "ring_bytes h' (mRing q) ?S ?w ?m = mem_bytes h data ?m"
    by (rule nth_equalityI) (simp_all add: h'(3))
  with step(1) have "contents q h' = contents q h @ mem_bytes h data ?m" by simp
  moreover have "mq_inv q h'" by (rule step(2))
  moreover have "same_outside_ring q h h'"
    unfolding same_outside_ring_def using h'(4) ring_addr_range [OF S(1)] by metis
  ultimately show ?thesis using h'(1) um
    by (intro exI [of _ True] exI [of _ h']) (simp add: fifo_put_def ctr(1))
qed

text \<open>What a read that finds its messages does to memory, for either flavor.\<close>

lemma fmq_read_effect:
  assumes wf: "queue_wf q"
    and al: "unat (sizeofT q) dvd unat (writeCtr q h)" "unat (sizeofT q) dvd unat (readCtr q h)"
    and full: "used q h \<le> unat (ring_size q)" and has: "msg_bytes q n \<le> used q h"
    and buf: "buffer_ok q data n"
    and seam: "no_seam (ring_size q) (readCtr q h) (msg_bytes q n)"
  obtains h' where "fmq_read q h data n = Inr (True, h')"
    and "words64 h' = (words64 h)(mReadPtr q := readCtr q h + of_nat (msg_bytes q n))"
    and "words32 h' = words32 h"
    and "mem_bytes h' data (msg_bytes q n) =
      ring_bytes h (mRing q) (ring_size q) (readCtr q h) (msg_bytes q n)"
    and "\<And>a. (\<And>i. i < msg_bytes q n \<Longrightarrow> a \<noteq> data + of_nat i) \<Longrightarrow> bytes h' a = bytes h a"
proof -
  let ?S = "ring_size q" and ?r = "readCtr q h" and ?m = "msg_bytes q n"
  let ?tx = "ring_tx q ?S ?r n"
  have S: "?S \<noteq> 0" "sizeofT q \<noteq> 0" "unat (sizeofT q) dvd unat ?S"
    using wf by (rule queue_wfD, simp)+
  have mS: "?m \<le> unat ?S" using full has by linarith
  have st: "ring_stretch q ?S ?r n"
    using S al mS by (simp add: ring_stretch_def msg_bytes_def)
  have small: "?m < 18446744073709551616" using mS unat_u64_less [of ?S] by linarith
  have data: "data \<noteq> 0" "disjoint_ranges data ?m (mRing q) (unat ?S)"
    using buf mS by (simp_all add: buffer_ok_def)
  have begun: "beginRead q h n = Inr (True, ?tx, h)"
    using beginRead_result [OF wf al small] full has by simp
  obtain h1 where h1: "copyFrom (sizeofT q) ?tx h data 0 n = Inr (True, h1)"
    "words64 h1 = words64 h" "words32 h1 = words32 h"
    "mem_bytes h1 data ?m = ring_bytes h (mRing q) ?S ?r ?m"
    "\<And>a. (\<And>i. i < ?m \<Longrightarrow> a \<noteq> data + of_nat i) \<Longrightarrow> bytes h1 a = bytes h a"
    using ring_copyFrom [OF st seam data, of h] by metis
  have "used q h1 = used q h" by (simp add: used_def h1)
  then have commit: "commitRead q h1 n = Inr (True, set_readCtr q (?r + of_nat ?m) h1)"
    using full by (simp add: commitRead_result [OF wf] h1 msg_bytes_of_nat [OF small])
  show ?thesis
  proof (rule that [of "set_readCtr q (?r + of_nat ?m) h1"])
    show "fmq_read q h data n = Inr (True, set_readCtr q (?r + of_nat ?m) h1)"
      by (simp add: fmq_read_def begun h1 commit)
    show "mem_bytes (set_readCtr q (?r + of_nat ?m) h1) data ?m =
        ring_bytes h (mRing q) ?S ?r ?m"
      using h1(4) by (simp add: set_readCtr_def mem_bytes_def)
  qed (simp_all add: h1 set_readCtr_def)
qed

text \<open>A read that finds too little data, on a queue that was not overtaken, does nothing.\<close>

lemma fmq_read_short:
  assumes wf: "queue_wf q"
    and al: "unat (sizeofT q) dvd unat (writeCtr q h)" "unat (sizeofT q) dvd unat (readCtr q h)"
    and full: "used q h \<le> unat (ring_size q)" and short: "used q h < msg_bytes q n"
    and small: "msg_bytes q n < 18446744073709551616"
  shows "fmq_read q h data n = Inr (False, h)"
  using beginRead_result [OF wf al small] full short by (simp add: fmq_read_def)

lemma fmq_read_get:
  assumes inv: "mq_inv q h" and buf: "buffer_ok q data n"
    and small: "msg_bytes q n < 2 ^ 64"
  shows "\<exists>ok h'. fmq_read q h data n = Inr (ok, h') \<and> mq_inv q h' \<and>
    (ok, contents q h') = fifo_get (contents q h) (msg_bytes q n) \<and>
    (ok \<longrightarrow> mem_bytes h' data (msg_bytes q n) = take (msg_bytes q n) (contents q h)) \<and>
    (\<forall>a. (\<forall>i<msg_bytes q n. a \<noteq> data + of_nat i) \<longrightarrow> bytes h' a = bytes h a) \<and>
    writeCtr q h' = writeCtr q h \<and> (\<not> ok \<longrightarrow> h' = h)"
proof (cases "msg_bytes q n \<le> used q h")
  case False
  note D = mq_invD [OF inv]
  have "fmq_read q h data n = Inr (False, h)"
    using fmq_read_short [OF D(1,3,2,4)] False small by simp
  with False inv show ?thesis
    by (intro exI [of _ False] exI [of _ h]) (simp add: fifo_get_def)
next
  case True
  let ?S = "ring_size q" and ?r = "readCtr q h" and ?w = "writeCtr q h"
  let ?m = "msg_bytes q n" and ?u = "used q h" and ?A = "ring_addr (mRing q) (ring_size q)"
  note D = mq_invD [OF inv]
  have S: "?S \<noteq> 0" "unat (sizeofT q) dvd unat ?S"
    using D(1) by (rule queue_wfD, simp)+
  have seam: "no_seam ?S ?r ?m" using D(5) True by (rule no_seam_mono)
  obtain h' where h': "fmq_read q h data n = Inr (True, h')"
    "words64 h' = (words64 h)(mReadPtr q := ?r + of_nat ?m)"
    "mem_bytes h' data ?m = ring_bytes h (mRing q) ?S ?r ?m"
    "\<And>a. (\<And>i. i < ?m \<Longrightarrow> a \<noteq> data + of_nat i) \<Longrightarrow> bytes h' a = bytes h a"
    using fmq_read_effect [OF D(1,3,2,4) True buf seam] by metis
  have ctr: "readCtr q h' = ?r + of_nat ?m" "writeCtr q h' = ?w"
    using D(1) h'(2) by (auto simp: queue_wf_def)
  have apart: "disjoint_ranges data ?m (mRing q) (unat ?S)"
    using buf True D(4) by (simp add: buffer_ok_def)
  have ring: "bytes h' (?A p i) = bytes h (?A p i)" for p i
    using apart_from_ring [OF apart _ S(1)] by (intro h'(4)) metis
  have al: "unat (sizeofT q) dvd ?m" by (simp add: msg_bytes_def)
  note step = commit_drops [OF inv True al ctr ring]
  have "ring_bytes h (mRing q) ?S ?r ?m = take ?m (contents q h)"
    by (rule nth_equalityI) (use True in \<open>simp_all add: contents_def\<close>)
  with step(1,2) show ?thesis using h'(1,3,4) ctr(2) True
    by (intro exI [of _ True] exI [of _ h']) (simp add: fifo_get_def)
qed

text \<open>
  C5: on a synchronized queue, \<open>fmq_write\<close> is \<open>fifo_put\<close> of the bytes of the caller's buffer
  onto the waiting bytes, bounded by the ring. It never meets undefined behaviour, keeps the
  invariant, and touches no byte outside the ring. A write that does not fit changes nothing.
\<close>

theorem fmq_write_refines_put:
  assumes "mq_inv q h" and "flavor q = kSynchronizedReadWrite"
    and "buffer_ok q data n" and "write_room q h n"
  shows "map_sum id (map_prod id (contents q)) (fmq_write q h data n) =
      Inr (fifo_put (unat (ring_size q)) (contents q h) (mem_bytes h data (msg_bytes q n))) \<and>
    (\<forall>ok h'. fmq_write q h data n = Inr (ok, h') \<longrightarrow>
      mq_inv q h' \<and> same_outside_ring q h h' \<and> readCtr q h' = readCtr q h \<and> (\<not> ok \<longrightarrow> h' = h))"
  using fmq_write_put [OF assms] by fastforce

text \<open>
  C6: on a queue whose invariant holds, \<open>fmq_read\<close> is \<open>fifo_get\<close> of the requested bytes:
  the oldest bytes go, in order, to the caller's buffer and leave the queue, the rest stays,
  and nothing but the buffer and the read counter changes. The byte count of the request must
  not exceed the range of \<open>size_t\<close>.
\<close>

theorem fmq_read_refines_get:
  assumes "mq_inv q h" and "buffer_ok q data n" and "msg_bytes q n < 2 ^ 64"
  shows "map_sum id (map_prod id (contents q)) (fmq_read q h data n) =
      Inr (fifo_get (contents q h) (msg_bytes q n)) \<and>
    (\<forall>ok h'. fmq_read q h data n = Inr (ok, h') \<longrightarrow>
      mq_inv q h' \<and> writeCtr q h' = writeCtr q h \<and> (\<not> ok \<longrightarrow> h' = h) \<and>
      (ok \<longrightarrow> mem_bytes h' data (msg_bytes q n) = take (msg_bytes q n) (contents q h)) \<and>
      (\<forall>a. (\<forall>i<msg_bytes q n. a \<noteq> data + of_nat i) \<longrightarrow> bytes h' a = bytes h a))"
  using fmq_read_get [OF assms] by fastforce

end
