(* ===== verification/Queue_Broadcast.thy ===== *)
theory Queue_Broadcast
  imports Queue_Refinement
begin

text \<open>
  The unsynchronized flavor: a writer that never waits, and any number of readers, each with a
  read counter of its own. The abstraction is the whole history of the bytes written, a log;
  the ring holds its last \<open>ring_size\<close> bytes, the write counter its length, and a reader is a
  position in it. A reader that falls more than one ring behind has lost data, and the code
  must tell it so.
\<close>

section \<open>The log behind the ring\<close>

definition log_inv :: "MessageQueue \<Rightarrow> heap \<Rightarrow> u8 list \<Rightarrow> bool" where
  "log_inv q h log \<longleftrightarrow> queue_wf q \<and> flavor q = kUnsynchronizedWrite \<and>
     writeCtr q h = of_nat (length log) \<and> unat (sizeofT q) dvd length log \<and>
     (unat (ring_size q) dvd 2 ^ 64 \<or> length log < 2 ^ 64) \<and>
     (\<forall>i<length log. length log \<le> i + unat (ring_size q) \<longrightarrow>
        bytes h (mRing q + of_nat (i mod unat (ring_size q))) = log ! i)"

definition reader_at :: "MessageQueue \<Rightarrow> heap \<Rightarrow> u8 list \<Rightarrow> nat \<Rightarrow> bool" where
  "reader_at q h log pos \<longleftrightarrow> readCtr q h = of_nat pos \<and> pos \<le> length log \<and>
     length log - pos < 2 ^ 64 \<and> unat (sizeofT q) dvd pos"

text \<open>Room for \<open>m\<close> more bytes before the counter meets the seam at \<open>2 ^ 64\<close>.\<close>

definition log_room :: "MessageQueue \<Rightarrow> u8 list \<Rightarrow> nat \<Rightarrow> bool" where
  "log_room q log m \<longleftrightarrow> unat (ring_size q) dvd 2 ^ 64 \<or> length log + m < 2 ^ 64"

lemma unat_of_nat_mod: "unat (of_nat a :: u64) = a mod 18446744073709551616"
  by (simp add: unat_of_nat take_bit_eq_mod)

lemma aligned_of_nat:
  assumes "z dvd unat S" and "unat (S :: u64) dvd 2 ^ 64 \<or> a < 2 ^ 64" and "z dvd a"
  shows "z dvd unat (of_nat a :: u64)"
proof (cases "unat S dvd 2 ^ 64")
  case True
  with assms(1) have "z dvd 2 ^ 64" by (rule dvd_trans)
  then have "z dvd 18446744073709551616" by simp
  with assms(3) show ?thesis by (simp add: unat_of_nat_mod dvd_mod)
qed (use assms in simp)

lemma no_seam_of_nat:
  "unat S dvd 2 ^ 64 \<or> a + k < 2 ^ 64 \<Longrightarrow> no_seam S (of_nat a) k"
  by (auto simp: no_seam_def unat_of_nat_mod)

lemma ring_addr_log:
  assumes "unat S dvd 2 ^ 64 \<or> a + k < 2 ^ 64" and "i \<le> k"
  shows "ring_addr base S (of_nat a) i = base + of_nat ((a + i) mod unat S)"
proof -
  have "(unat (of_nat a :: u64) + i) mod unat S = (a + i) mod unat S"
  proof (cases "unat S dvd 2 ^ 64")
    case True
    then have "unat S dvd 18446744073709551616" by simp
    then have "a mod 18446744073709551616 mod unat S = a mod unat S" by (rule mod_mod_cancel)
    then show ?thesis by (metis unat_of_nat_mod mod_add_left_eq)
  qed (use assms in simp)
  with ring_addr_offset [OF no_seam_of_nat [OF assms(1)] assms(2)] show ?thesis by simp
qed

lemma log_invD:
  assumes "log_inv q h log"
  shows "queue_wf q" and "flavor q = kUnsynchronizedWrite"
    and "writeCtr q h = of_nat (length log)" and "unat (sizeofT q) dvd length log"
    and "unat (ring_size q) dvd 2 ^ 64 \<or> length log < 2 ^ 64"
    and "\<And>i. i < length log \<Longrightarrow> length log \<le> i + unat (ring_size q) \<Longrightarrow>
      bytes h (mRing q + of_nat (i mod unat (ring_size q))) = log ! i"
    and "unat (sizeofT q) dvd unat (writeCtr q h)"
    and "ring_size q \<noteq> 0" and "sizeofT q \<noteq> 0" and "unat (sizeofT q) dvd unat (ring_size q)"
proof -
  show *: "queue_wf q" "writeCtr q h = of_nat (length log)" "unat (sizeofT q) dvd length log"
    "unat (ring_size q) dvd 2 ^ 64 \<or> length log < 2 ^ 64" and "flavor q = kUnsynchronizedWrite"
    and "\<And>i. i < length log \<Longrightarrow> length log \<le> i + unat (ring_size q) \<Longrightarrow>
      bytes h (mRing q + of_nat (i mod unat (ring_size q))) = log ! i"
    using assms by (simp_all add: log_inv_def)
  show "ring_size q \<noteq> 0" "sizeofT q \<noteq> 0" and z: "unat (sizeofT q) dvd unat (ring_size q)"
    using *(1) by (rule queue_wfD, simp)+
  show "unat (sizeofT q) dvd unat (writeCtr q h)"
    unfolding *(2) by (rule aligned_of_nat [OF z *(4) *(3)])
qed

lemma reader_atD:
  assumes "log_inv q h log" and "reader_at q h log pos"
  shows "used q h = length log - pos" and "unat (sizeofT q) dvd unat (readCtr q h)"
proof -
  have r: "readCtr q h = of_nat pos" "pos \<le> length log" "length log - pos < 18446744073709551616"
    and z: "unat (sizeofT q) dvd pos"
    using assms(2) by (simp_all add: reader_at_def)
  note L = log_invD [OF assms(1)]
  have "writeCtr q h - readCtr q h = of_nat (length log - pos)"
    unfolding L(3) r(1) using r(2) by (simp add: of_nat_diff)
  with r(3) show "used q h = length log - pos" by (simp add: used_def del: of_nat_diff)
  have "unat (ring_size q) dvd 2 ^ 64 \<or> pos < 2 ^ 64" using L(5) r(2) by auto
  then show "unat (sizeofT q) dvd unat (readCtr q h)"
    unfolding r(1) by (rule aligned_of_nat [OF L(10) _ z])
qed

text \<open>
  The ring while a write is going on that has not been committed: up to \<open>k\<close> bytes of it may stand
  in the ring already, in place of the oldest \<open>k\<close> bytes that the counters still promise.
\<close>

definition log_during :: "MessageQueue \<Rightarrow> heap \<Rightarrow> u8 list \<Rightarrow> nat \<Rightarrow> bool" where
  "log_during q h log k \<longleftrightarrow> queue_wf q \<and> ring_size q \<noteq> 0 \<and>
     (unat (ring_size q) dvd 2 ^ 64 \<or> length log < 2 ^ 64) \<and>
     (\<forall>i<length log. length log + k \<le> i + unat (ring_size q) \<longrightarrow>
        bytes h (mRing q + of_nat (i mod unat (ring_size q))) = log ! i)"

lemma log_inv_during: "log_inv q h log \<Longrightarrow> log_during q h log 0"
  using log_invD(8) by (auto simp: log_inv_def log_during_def)

text \<open>What a reader that is not overtaken finds in the ring is a slice of the log.\<close>

lemma ring_holds_slice:
  assumes dur: "log_during q h log k" and le: "pos + m \<le> length log"
    and near: "length log + k \<le> pos + unat (ring_size q)"
  shows "ring_bytes h (mRing q) (ring_size q) (of_nat pos) m = take m (drop pos log)"
proof (rule nth_equalityI)
  show "length (ring_bytes h (mRing q) (ring_size q) (of_nat pos) m) = length (take m (drop pos log))"
    using le by simp
  fix i
  assume "i < length (ring_bytes h (mRing q) (ring_size q) (of_nat pos) m)"
  then have i: "i < m" by simp
  have "unat (ring_size q) dvd 2 ^ 64 \<or> pos + i < 2 ^ 64"
    using dur le i by (auto simp: log_during_def)
  moreover have "bytes h (mRing q + of_nat ((pos + i) mod unat (ring_size q))) = log ! (pos + i)"
    using dur i le near unfolding log_during_def by simp
  ultimately show "ring_bytes h (mRing q) (ring_size q) (of_nat pos) m ! i = take m (drop pos log) ! i"
    using ring_addr_log [of "ring_size q" pos i i "mRing q"] i le by simp
qed

lemma log_inv_frame:
  assumes inv: "log_inv q h log" and "writeCtr q h' = writeCtr q h"
    and same: "\<And>j. j < unat (ring_size q) \<Longrightarrow> bytes h' (mRing q + of_nat j) = bytes h (mRing q + of_nat j)"
  shows "log_inv q h' log"
proof -
  note L = log_invD [OF inv]
  have "i mod unat (ring_size q) < unat (ring_size q)" for i
    using L(8) by (simp add: unat_gt_0)
  with assms L show ?thesis by (simp add: log_inv_def)
qed

section \<open>Writing never waits\<close>

lemma ring_overwritten:
  assumes room: "log_room q log m" and inv: "log_inv q h log" and m: "m \<le> unat (ring_size q)"
    and new: "\<And>i. i < m \<Longrightarrow>
      bytes h' (ring_addr (mRing q) (ring_size q) (writeCtr q h) i) = data ! i"
    and old: "\<And>a. (\<And>i. i < m \<Longrightarrow>
      a \<noteq> ring_addr (mRing q) (ring_size q) (writeCtr q h) i) \<Longrightarrow> bytes h' a = bytes h a"
    and len: "length data = m" and i: "i < length log + m"
    and near: "length log + m \<le> i + unat (ring_size q)"
  shows "bytes h' (mRing q + of_nat (i mod unat (ring_size q))) = (log @ data) ! i"
proof -
  let ?S = "ring_size q"
  note L = log_invD [OF inv]
  have at: "ring_addr (mRing q) ?S (writeCtr q h) k =
      mRing q + of_nat ((length log + k) mod unat ?S)" if "k < m" for k
    using ring_addr_log [of ?S "length log" m k] room that by (simp add: log_room_def L(3))
  show ?thesis
  proof (cases "i < length log")
    case False
    then have "i - length log < m" "length log + (i - length log) = i" using i by simp_all
    with new [of "i - length log"] at [of "i - length log"] False show ?thesis
      by (simp add: nth_append)
  next
    case True
    have S: "0 < unat ?S" using L(8) by (simp add: unat_gt_0)
    have "bytes h' (mRing q + of_nat (i mod unat ?S)) = bytes h (mRing q + of_nat (i mod unat ?S))"
    proof (rule old)
      fix k
      assume k: "k < m"
      have "i mod unat ?S \<noteq> (length log + k) mod unat ?S"
        using mod_inj_near [of 0 i "unat ?S" "length log + k"] True k near by auto
      moreover have "i mod unat ?S < 18446744073709551616"
        "(length log + k) mod unat ?S < 18446744073709551616"
        using S unat_u64_less [of ?S] by (meson mod_less_divisor less_trans)+
      ultimately show "mRing q + of_nat (i mod unat ?S) \<noteq> ring_addr (mRing q) ?S (writeCtr q h) k"
        using at [OF k] by (simp add: of_nat_u64_eq_iff)
    qed
    also have "\<dots> = log ! i" using L(6) [OF True] near by simp
    finally show ?thesis using True by (simp add: nth_append)
  qed
qed

lemma broadcast_write:
  assumes inv: "log_inv q h log" and buf: "buffer_ok q data n"
    and room: "log_room q log (msg_bytes q n)" and fits: "msg_bytes q n \<le> unat (ring_size q)"
  obtains h' where "fmq_write q h data n = Inr (True, h')"
    and "log_inv q h' (log @ mem_bytes h data (msg_bytes q n))"
    and "readCtr q h' = readCtr q h" and "same_outside_ring q h h'"
proof -
  let ?S = "ring_size q" and ?w = "writeCtr q h" and ?m = "msg_bytes q n"
  note L = log_invD [OF inv]
  have limit: "?m \<le> write_limit q h" using fits L(2) by (simp add: write_limit_def)
  have full: "flavor q = kSynchronizedReadWrite \<Longrightarrow> used q h \<le> unat ?S" using L(2) by simp
  have seam: "no_seam ?S ?w ?m"
    unfolding L(3) by (rule no_seam_of_nat) (use room in \<open>simp add: log_room_def\<close>)
  obtain h' where h': "fmq_write q h data n = Inr (True, h')"
    "words64 h' = (words64 h)(mWritePtr q := ?w + of_nat ?m)"
    "\<And>i. i < ?m \<Longrightarrow> bytes h' (ring_addr (mRing q) ?S ?w i) = bytes h (data + of_nat i)"
    "\<And>a. (\<And>i. i < ?m \<Longrightarrow> a \<noteq> ring_addr (mRing q) ?S ?w i) \<Longrightarrow> bytes h' a = bytes h a"
    using fmq_write_effect [OF L(1,7) full limit buf seam] by metis
  have ctr: "readCtr q h' = readCtr q h" "writeCtr q h' = ?w + of_nat ?m"
    using L(1) h'(2) by (auto simp: queue_wf_def)
  have new: "bytes h' (ring_addr (mRing q) ?S ?w i) = mem_bytes h data ?m ! i" if "i < ?m" for i
    using h'(3) that by simp
  note ring = ring_overwritten [OF room inv fits new h'(4)]
  have "log_inv q h' (log @ mem_bytes h data ?m)"
    using L(1-5) room ring by (simp add: log_inv_def ctr log_room_def msg_bytes_def)
  moreover have "same_outside_ring q h h'"
    unfolding same_outside_ring_def using h'(4) ring_addr_range [OF L(8)] by metis
  ultimately show ?thesis using h'(1) ctr(1) by (intro that [of h'])
qed

text \<open>
  C18: on an unsynchronized queue a write of at most one ring always succeeds, whatever the
  readers have or have not read: the log grows by exactly the caller's bytes, and the read
  counter and all memory outside the ring stay. A larger write is refused and changes nothing.
\<close>

theorem unsync_write_appends:
  assumes "log_inv q h log" and "buffer_ok q data n" and "log_room q log (msg_bytes q n)"
  shows "\<exists>h'. fmq_write q h data n = Inr (msg_bytes q n \<le> unat (ring_size q), h') \<and>
    (if msg_bytes q n \<le> unat (ring_size q)
     then log_inv q h' (log @ mem_bytes h data (msg_bytes q n)) \<and>
       readCtr q h' = readCtr q h \<and> same_outside_ring q h h'
     else h' = h)"
proof (cases "msg_bytes q n \<le> unat (ring_size q)")
  case True
  then show ?thesis using broadcast_write [OF assms] by (metis (full_types))
next
  case False
  note L = log_invD [OF assms(1)]
  have "beginWrite q h n MemTransaction_default = Inr (False, MemTransaction_default)"
    using beginWrite_result [OF L(1,7), of n] False L(2) by (simp add: write_limit_def)
  with False show ?thesis by (simp add: fmq_write_def)
qed

section \<open>Reading\<close>

lemma broadcast_read:
  assumes inv: "log_inv q h log" and at: "reader_at q h log pos" and buf: "buffer_ok q data n"
    and has: "pos + msg_bytes q n \<le> length log" and near: "length log \<le> pos + unat (ring_size q)"
  obtains h' where "fmq_read q h data n = Inr (True, h')"
    and "mem_bytes h' data (msg_bytes q n) = take (msg_bytes q n) (drop pos log)"
    and "log_inv q h' log" and "reader_at q h' log (pos + msg_bytes q n)"
proof -
  let ?S = "ring_size q" and ?r = "readCtr q h" and ?m = "msg_bytes q n"
  note L = log_invD [OF inv] and R = reader_atD [OF inv at]
  have r: "?r = of_nat pos" and z: "unat (sizeofT q) dvd pos"
    and near64: "length log - pos < 18446744073709551616"
    using at by (simp_all add: reader_at_def)
  have u: "used q h \<le> unat ?S" "?m \<le> used q h" using R(1) has near by simp_all
  have seam: "no_seam ?S ?r ?m" unfolding r by (rule no_seam_of_nat) (use L(5) has in auto)
  obtain h' where h': "fmq_read q h data n = Inr (True, h')"
    "words64 h' = (words64 h)(mReadPtr q := ?r + of_nat ?m)"
    "mem_bytes h' data ?m = ring_bytes h (mRing q) ?S ?r ?m"
    "\<And>a. (\<And>i. i < ?m \<Longrightarrow> a \<noteq> data + of_nat i) \<Longrightarrow> bytes h' a = bytes h a"
    using fmq_read_effect [OF L(1,7) R(2) u buf seam] by metis
  have ctr: "readCtr q h' = ?r + of_nat ?m" "writeCtr q h' = writeCtr q h"
    using L(1) h'(2) by (auto simp: queue_wf_def)
  have apart: "disjoint_ranges data ?m (mRing q) (unat ?S)"
    using buf u by (simp add: buffer_ok_def)
  have "bytes h' (mRing q + of_nat j) = bytes h (mRing q + of_nat j)" if "j < unat ?S" for j
    using disjoint_ranges_neq [OF apart _ that] by (intro h'(4)) metis
  with inv ctr(2) have "log_inv q h' log" by (rule log_inv_frame)
  moreover have "mem_bytes h' data ?m = take ?m (drop pos log)"
    unfolding h'(3) r by (rule ring_holds_slice [OF log_inv_during [OF inv] has]) (use near in simp)
  moreover have "reader_at q h' log (pos + ?m)"
    using has near64 z by (simp add: reader_at_def ctr r msg_bytes_def)
  ultimately show ?thesis using h'(1) by (intro that [of h'])
qed

text \<open>
  C14: a read of an unsynchronized queue has exactly three outcomes. A reader that finds its
  messages and is at most one ring behind gets the next bytes of the log and moves past them;
  one that is up to date but asks for more than there is gets nothing and stays; one that was
  overtaken gets nothing, and its counter jumps to the end of the log, so that it never
  delivers overwritten bytes.
\<close>

theorem unsync_read_slices:
  assumes "log_inv q h log" and "reader_at q h log pos" and "buffer_ok q data n"
    and "msg_bytes q n < 2 ^ 64"
  shows "\<exists>ok h'. fmq_read q h data n = Inr (ok, h') \<and> log_inv q h' log \<and>
    (if length log - pos > unat (ring_size q) then \<not> ok \<and> reader_at q h' log (length log)
     else if pos + msg_bytes q n \<le> length log then ok \<and>
       mem_bytes h' data (msg_bytes q n) = take (msg_bytes q n) (drop pos log) \<and>
       reader_at q h' log (pos + msg_bytes q n)
     else \<not> ok \<and> h' = h)"
proof -
  note L = log_invD [OF assms(1)] and R = reader_atD [OF assms(1,2)]
  have pos: "pos \<le> length log" using assms(2) by (simp add: reader_at_def)
  have small: "msg_bytes q n < 18446744073709551616" using assms(4) by simp
  note res = beginRead_result [OF L(1,7) R(2) small]
  consider (overtaken) "length log - pos > unat (ring_size q)"
    | (found) "length log \<le> pos + unat (ring_size q)" "pos + msg_bytes q n \<le> length log"
    | (short) "length log \<le> pos + unat (ring_size q)" "length log < pos + msg_bytes q n"
    by linarith
  then show ?thesis
  proof cases
    case overtaken
    let ?h = "set_readCtr q (writeCtr q h) h"
    note cells = queue_cells [OF L(1), of "writeCtr q h" h]
    have "fmq_read q h data n = Inr (False, ?h)" using res overtaken R(1) by (simp add: fmq_read_def)
    moreover have "log_inv q ?h log" by (rule log_inv_frame [OF assms(1)]) (simp_all add: cells)
    moreover have "reader_at q ?h log (length log)"
      unfolding reader_at_def cells using L(3,4) by simp
    ultimately show ?thesis using overtaken by auto
  next
    case found
    then have "\<not> length log - pos > unat (ring_size q)" by simp
    with found(2) broadcast_read [OF assms(1-3) found(2,1)] show ?thesis by (metis (full_types))
  next
    case short
    then have "\<not> unat (ring_size q) < used q h" "used q h < msg_bytes q n"
      using R(1) pos by linarith+
    then have "fmq_read q h data n = Inr (False, h)" using res by (simp add: fmq_read_def)
    moreover have "\<not> length log - pos > unat (ring_size q)"
      "\<not> pos + msg_bytes q n \<le> length log" using short by linarith+
    ultimately show ?thesis using assms(1)
      by (intro exI [of _ False] exI [of _ h]) simp
  qed
qed

text \<open>
  The bytes of a write in progress go exactly there: whatever it has changed so far within its \<open>m\<close>
  bytes, the ring holds the log but for the oldest \<open>m\<close> bytes.
\<close>

lemma write_in_flight:
  assumes inv: "log_inv q h log" and room: "log_room q log m" and m: "m \<le> unat (ring_size q)"
    and old: "\<And>a. (\<And>i. i < m \<Longrightarrow>
      a \<noteq> ring_addr (mRing q) (ring_size q) (writeCtr q h) i) \<Longrightarrow> bytes h' a = bytes h a"
  shows "log_during q h' log m"
proof -
  let ?S = "ring_size q"
  note L = log_invD [OF inv]
  have "bytes h' (mRing q + of_nat (i mod unat ?S)) = log ! i"
    if i: "i < length log" "length log + m \<le> i + unat ?S" for i
  proof -
    have "bytes h' (mRing q + of_nat (i mod unat ?S)) = bytes h (mRing q + of_nat (i mod unat ?S))"
    proof (rule old)
      fix k assume k: "k < m"
      have "(i mod unat ?S) \<noteq> (length log + k) mod unat ?S"
        using mod_inj_near [of 0 i "unat ?S" "length log + k"] i k by auto
      moreover have "j mod unat ?S < 18446744073709551616" for j
        using L(8) unat_u64_less [of ?S] by (meson mod_less_divisor less_trans unat_gt_0)
      ultimately show "mRing q + of_nat (i mod unat ?S) \<noteq> ring_addr (mRing q) ?S (writeCtr q h) k"
        using ring_addr_log [of ?S "length log" m k] room k
        by (simp add: log_room_def L(3) of_nat_u64_eq_iff)
    qed
    with L(6) [of i] i show ?thesis by simp
  qed
  with L(1,5,8) show ?thesis by (simp add: log_during_def)
qed

text \<open>
  C15: the check of \<open>commitRead\<close> detects a reader that was overtaken between its
  \<open>beginRead\<close> and its commit, by writes that were complete or in progress when it copied, as
  long as those are committed before the check. If the commit then returns true, the bytes copied
  are the bytes of the log at the reader's position; if it returns false the reader has been moved
  to the end of the log.
\<close>

theorem commitRead_validates_copy:
  assumes begun: "log_inv q h log" "reader_at q h log pos" "pos + msg_bytes q n \<le> length log"
    and copied: "copyFrom (sizeofT q) (ring_tx q (ring_size q) (readCtr q h) n) h1 data 0 n =
      Inr (True, h2)" "log_during q h1 (log @ more1) k" "k \<le> length more2"
    and later: "log_inv q h3 (log @ more1 @ more2)" "reader_at q h3 (log @ more1 @ more2) pos"
    and fits: "msg_bytes q n \<le> unat (ring_size q)" and buf: "buffer_ok q data n"
  shows "\<exists>ok h4. commitRead q h3 n = Inr (ok, h4) \<and> log_inv q h4 (log @ more1 @ more2) \<and>
    (if ok then mem_bytes h2 data (msg_bytes q n) = take (msg_bytes q n) (drop pos log) \<and>
       reader_at q h4 (log @ more1 @ more2) (pos + msg_bytes q n)
     else reader_at q h4 (log @ more1 @ more2) (length (log @ more1 @ more2)))"
proof (cases "used q h3 \<le> unat (ring_size q)")
  let ?log = "log @ more1 @ more2"
  note L = log_invD [OF later(1)]
  case False
  note cells = queue_cells [OF L(1), of "writeCtr q h3" h3]
  have "commitRead q h3 n = Inr (False, set_readCtr q (writeCtr q h3) h3)"
    using False by (simp add: commitRead_result [OF L(1)])
  moreover have "log_inv q (set_readCtr q (writeCtr q h3) h3) ?log"
    by (rule log_inv_frame [OF later(1)]) (simp_all add: cells)
  moreover have "reader_at q (set_readCtr q (writeCtr q h3) h3) ?log (length ?log)"
    unfolding reader_at_def cells using L(3,4) by simp
  ultimately show ?thesis by auto
next
  case True
  let ?log = "log @ more1 @ more2" and ?m = "msg_bytes q n"
  note L = log_invD [OF later(1)] and L0 = log_invD [OF begun(1)]
  let ?h4 = "set_readCtr q (readCtr q h3 + of_nat ?m) h3"
  note cells = queue_cells [OF L(1), of "readCtr q h3 + of_nat ?m" h3]
  have small: "?m < 18446744073709551616" using fits unat_u64_less [of "ring_size q"] by linarith
  have run: "commitRead q h3 n = Inr (True, ?h4)"
    using True by (simp add: commitRead_result [OF L(1)] msg_bytes_of_nat [OF small])
  have "length ?log \<le> pos + unat (ring_size q)"
    using reader_atD(1) [OF later] True by simp
  then have near: "length (log @ more1) + k \<le> pos + unat (ring_size q)" using copied(3) by simp
  have has: "pos + ?m \<le> length (log @ more1)" using begun(3) by simp
  have r: "readCtr q h = of_nat pos" using begun(2) by (simp add: reader_at_def)
  have st: "ring_stretch q (ring_size q) (readCtr q h) n"
    using L0(8-10) reader_atD(2) [OF begun(1,2)] fits by (simp add: ring_stretch_def msg_bytes_def)
  have seam: "no_seam (ring_size q) (readCtr q h) ?m"
    unfolding r by (rule no_seam_of_nat) (use L0(5) begun(3) in auto)
  have data: "data \<noteq> 0" "disjoint_ranges data ?m (mRing q) (unat (ring_size q))"
    using buf fits by (simp_all add: buffer_ok_def)
  have "mem_bytes h2 data ?m = ring_bytes h1 (mRing q) (ring_size q) (readCtr q h) ?m"
    using ring_copyFrom [OF st seam data, of h1] copied(1) by (metis Inr_inject prod.inject)
  also have "\<dots> = take ?m (drop pos (log @ more1))"
    unfolding r by (rule ring_holds_slice [OF copied(2) has near])
  also have "\<dots> = take ?m (drop pos log)" using begun(3) by simp
  finally have "mem_bytes h2 data ?m = take ?m (drop pos log)" .
  moreover have "log_inv q ?h4 ?log" by (rule log_inv_frame [OF later(1)]) (simp_all add: cells)
  moreover have "reader_at q ?h4 ?log (pos + ?m)"
    using later(2) begun(3) msg_bytes_aligned [of q n] unfolding reader_at_def cells by auto
  ultimately show ?thesis using run by auto
qed

text \<open>
  C16: a write that is not yet committed escapes the check. To a reader that is one whole ring
  behind \<open>beginRead\<close> still grants its messages; if meanwhile a write of as many messages has
  copied its bytes and not yet committed, then the reader copies the bytes of this write, and
  \<open>commitRead\<close> returns true, whatever the log holds at the reader's position.
\<close>

theorem unfinished_write_tears_read:
  assumes inv: "log_inv q h log" and at: "reader_at q h log pos"
    and behind: "length log = pos + unat (ring_size q)"
    and fits: "msg_bytes q n \<le> unat (ring_size q)" and room: "log_room q log (msg_bytes q n)"
    and src: "buffer_ok q src n" and data: "buffer_ok q data n"
  shows "\<exists>wtx rtx h1 h2 h3. beginRead q h n = Inr (True, rtx, h) \<and>
    beginWrite q h n MemTransaction_default = Inr (True, wtx) \<and>
    copyTo (sizeofT q) wtx h src 0 n = Inr (True, h1) \<and>
    copyFrom (sizeofT q) rtx h1 data 0 n = Inr (True, h2) \<and>
    commitRead q h2 n = Inr (True, h3) \<and>
    mem_bytes h2 data (msg_bytes q n) = mem_bytes h src (msg_bytes q n)"
proof -
  let ?S = "ring_size q" and ?m = "msg_bytes q n" and ?w = "writeCtr q h" and ?r = "readCtr q h"
  note L = log_invD [OF inv] and R = reader_atD [OF inv at]
  have used: "used q h = unat ?S" using R(1) behind by simp
  have r: "?r = of_nat pos" using at by (simp add: reader_at_def)
  have small: "?m < 18446744073709551616" using fits unat_u64_less [of ?S] by linarith
  have rd: "beginRead q h n = Inr (True, ring_tx q ?S ?r n, h)"
    using beginRead_result [OF L(1,7) R(2) small] used fits by simp
  have wr: "beginWrite q h n MemTransaction_default = Inr (True, ring_tx q ?S ?w n)"
    using beginWrite_result [OF L(1,7), of n] fits L(2) by (simp add: write_limit_def)
  have st: "ring_stretch q ?S ?w n" "ring_stretch q ?S ?r n"
    using L(7-10) R(2) fits by (simp_all add: ring_stretch_def msg_bytes_def)
  have seam: "no_seam ?S ?w ?m" "no_seam ?S ?r ?m"
    unfolding L(3) r by (rule no_seam_of_nat, use room L(5) behind fits in \<open>auto simp: log_room_def\<close>)+
  have apart: "src \<noteq> 0" "disjoint_ranges src ?m (mRing q) (unat ?S)"
    "data \<noteq> 0" "disjoint_ranges data ?m (mRing q) (unat ?S)"
    using src data fits by (simp_all add: buffer_ok_def)
  obtain h1 where h1: "copyTo (sizeofT q) (ring_tx q ?S ?w n) h src 0 n = Inr (True, h1)"
    "words64 h1 = words64 h"
    "\<And>i. i < ?m \<Longrightarrow> bytes h1 (ring_addr (mRing q) ?S ?w i) = bytes h (src + of_nat i)"
    by (rule ring_copyTo [OF st(1) seam(1) apart(1,2), of h]) (rule that)
  obtain h2 where h2: "copyFrom (sizeofT q) (ring_tx q ?S ?r n) h1 data 0 n = Inr (True, h2)"
    "words64 h2 = words64 h1" "mem_bytes h2 data ?m = ring_bytes h1 (mRing q) ?S ?r ?m"
    by (rule ring_copyFrom [OF st(2) seam(2) apart(3,4), of h1]) (rule that)
  have place: "ring_addr (mRing q) ?S ?r i = ring_addr (mRing q) ?S ?w i" if "i < ?m" for i
  proof -
    have "length log + i = (pos + i) + unat ?S" by (simp add: behind)
    then have "(length log + i) mod unat ?S = (pos + i) mod unat ?S" by (metis mod_add_self2)
    then show ?thesis
      using ring_addr_log [of ?S pos ?m i] ring_addr_log [of ?S "length log" ?m i] that room L(5) behind fits
      by (auto simp: r L(3) log_room_def)
  qed
  have "mem_bytes h2 data ?m = mem_bytes h src ?m"
    unfolding h2(3) by (rule nth_equalityI) (simp_all add: place h1(3))
  moreover have "\<exists>h3. commitRead q h2 n = Inr (True, h3)"
    using used by (simp add: commitRead_result [OF L(1)] used_def h2(2) h1(2))
  ultimately show ?thesis using rd wr h1(1) h2(1) by blast
qed

end
