(* ===== verification/Queue_Channel.thy ===== *)
theory Queue_Channel
  imports Queue_Refinement
begin

text \<open>
  What the users of a synchronized queue rely on, over whole executions: the queue is a
  first-in first-out channel of bounded capacity. The interface is the locale
  \<open>fifo_channel\<close>; here it is provided by the one-call operations \<open>fmq_write\<close> and
  \<open>fmq_read\<close>, and in \<open>Queue_Concurrency\<close> by their interleaved parts.
\<close>

section \<open>Labelled executions\<close>

text \<open>A step sends some items into the channel and receives some out of it.\<close>

inductive run ::
  "('s \<Rightarrow> 'a list \<Rightarrow> 'a list \<Rightarrow> 's \<Rightarrow> bool) \<Rightarrow> 's \<Rightarrow> 'a list \<Rightarrow> 'a list \<Rightarrow> 's \<Rightarrow> bool"
  for step where
  run_refl: "run step s [] [] s"
| run_step: "run step s sent recv s' \<Longrightarrow> step s' xs ys s'' \<Longrightarrow>
    run step s (sent @ xs) (recv @ ys) s''"

lemma run_single: "step s xs ys s' \<Longrightarrow> run step s xs ys s'"
  using run_step [OF run_refl, of step s xs ys s'] by simp

lemma run_trans:
  assumes "run step s sent recv s'" and "run step s' sent' recv' s''"
  shows "run step s (sent @ sent') (recv @ recv') s''"
  using assms(2,1)
proof (induction rule: run.induct)
  case (run_refl s)
  then show ?case by simp
next
  case (run_step s sent' recv' s' xs ys s'')
  then show ?case using run.run_step [of step _ "sent @ sent'" "recv @ recv'" s' xs ys s''] by simp
qed

locale fifo_channel =
  fixes step :: "'s \<Rightarrow> 'a list \<Rightarrow> 'a list \<Rightarrow> 's \<Rightarrow> bool"
    and inv :: "'s \<Rightarrow> bool"
    and waiting :: "'s \<Rightarrow> 'a list"
    and capacity :: nat
  assumes inv_step: "inv s \<Longrightarrow> step s xs ys s' \<Longrightarrow> inv s'"
    and conserves: "inv s \<Longrightarrow> step s xs ys s' \<Longrightarrow> waiting s @ xs = ys @ waiting s'"
    and bounded: "inv s \<Longrightarrow> length (waiting s) \<le> capacity"
begin

lemma inv_run: "run step s sent recv s' \<Longrightarrow> inv s \<Longrightarrow> inv s'"
  by (induction rule: run.induct) (auto intro: inv_step)

lemma conserves_run:
  "run step s sent recv s' \<Longrightarrow> inv s \<Longrightarrow> waiting s @ sent = recv @ waiting s'"
proof (induction rule: run.induct)
  case (run_refl s)
  then show ?case by simp
next
  case (run_step s sent recv s' xs ys s'')
  have "inv s'" using run_step.hyps(1) run_step.prems by (rule inv_run)
  then have "waiting s' @ xs = ys @ waiting s''" using run_step.hyps(2) by (rule conserves)
  with run_step show ?case by (metis append.assoc)
qed

lemma received_is_prefix:
  assumes "run step s sent recv s'" and "inv s" and "waiting s = []"
  shows "sent = recv @ waiting s'" and "length sent \<le> length recv + capacity"
proof -
  show eq: "sent = recv @ waiting s'" using conserves_run [OF assms(1,2)] assms(3) by simp
  show "length sent \<le> length recv + capacity"
    using bounded [OF inv_run [OF assms(1,2)]] by (simp add: eq)
qed

end

section \<open>The calls of one thread\<close>

text \<open>
  Between two calls the clients may change all memory but the ring and the two counters: they
  fill and empty their own buffers.
\<close>

definition client_change :: "MessageQueue \<Rightarrow> heap \<Rightarrow> heap \<Rightarrow> bool" where
  "client_change q h h' \<longleftrightarrow> readCtr q h' = readCtr q h \<and> writeCtr q h' = writeCtr q h \<and>
     (\<forall>j<unat (ring_size q). bytes h' (mRing q + of_nat j) = bytes h (mRing q + of_nat j))"

inductive channel_step :: "MessageQueue \<Rightarrow> heap \<Rightarrow> u8 list \<Rightarrow> u8 list \<Rightarrow> heap \<Rightarrow> bool"
  for q where
  put: "buffer_ok q data n \<Longrightarrow> write_room q h n \<Longrightarrow> fmq_write q h data n = Inr (ok, h') \<Longrightarrow>
    channel_step q h (if ok then mem_bytes h data (msg_bytes q n) else []) [] h'"
| get: "buffer_ok q data n \<Longrightarrow> msg_bytes q n < 2 ^ 64 \<Longrightarrow> fmq_read q h data n = Inr (ok, h') \<Longrightarrow>
    channel_step q h [] (if ok then mem_bytes h' data (msg_bytes q n) else []) h'"
| client: "client_change q h h' \<Longrightarrow> channel_step q h [] [] h'"

inductive_cases channel_stepE: "channel_step q h sent recv h'"

lemma ring_bytes_frame:
  assumes "client_change q h h'" and "ring_size q \<noteq> 0"
  shows "bytes h' (ring_addr (mRing q) (ring_size q) p i) =
    bytes h (ring_addr (mRing q) (ring_size q) p i)"
proof -
  obtain j where "ring_addr (mRing q) (ring_size q) p i = mRing q + of_nat j"
    "j < unat (ring_size q)"
    using assms(2) by (rule ring_addr_range)
  with assms(1) show ?thesis by (simp add: client_change_def)
qed

lemma client_change_frame:
  assumes "client_change q h h'" and "mq_inv q h"
  shows "mq_inv q h'" and "contents q h' = contents q h" and "used q h' = used q h"
proof -
  have ctr: "readCtr q h' = readCtr q h" "writeCtr q h' = writeCtr q h"
    using assms(1) by (simp_all add: client_change_def)
  have "ring_size q \<noteq> 0" using mq_invD(1) [OF assms(2)] by (rule queue_wfD)
  note ring = ring_bytes_frame [OF assms(1) this]
  show u: "used q h' = used q h" by (simp add: used_def ctr)
  show "mq_inv q h'" using assms(2) by (simp add: mq_inv_def ctr u)
  show "contents q h' = contents q h"
    by (rule nth_equalityI) (simp_all add: contents_def ctr u ring)
qed

definition sync_inv :: "MessageQueue \<Rightarrow> heap \<Rightarrow> bool" where
  "sync_inv q h \<longleftrightarrow> flavor q = kSynchronizedReadWrite \<and> mq_inv q h"

lemma channel_step_put:
  assumes inv: "sync_inv q h" and buf: "buffer_ok q data n" and room: "write_room q h n"
    and run: "fmq_write q h data n = Inr (ok, h')"
  shows "sync_inv q h'"
    and "contents q h' = contents q h @ (if ok then mem_bytes h data (msg_bytes q n) else [])"
  using fmq_write_put [of q h data n] assms
  by (auto simp: sync_inv_def fifo_put_def split: if_splits)

lemma channel_step_get:
  assumes inv: "sync_inv q h" and buf: "buffer_ok q data n" and small: "msg_bytes q n < 2 ^ 64"
    and run: "fmq_read q h data n = Inr (ok, h')"
  shows "sync_inv q h'"
    and "contents q h = (if ok then mem_bytes h' data (msg_bytes q n) else []) @ contents q h'"
  using fmq_read_get [of q h data n] assms
  by (auto simp: sync_inv_def fifo_get_def split: if_splits)

interpretation seq_channel: fifo_channel "channel_step q" "sync_inv q" "contents q"
  "unat (ring_size q)" for q
proof
  fix h xs ys h'
  assume inv: "sync_inv q h" and step: "channel_step q h xs ys h'"
  from step show "sync_inv q h'"
  proof cases
    case client
    then show ?thesis using inv client_change_frame(1) by (auto simp: sync_inv_def)
  qed (use inv channel_step_put(1) channel_step_get(1) in metis)+
  from step show "contents q h @ xs = ys @ contents q h'"
  proof cases
    case put
    then show ?thesis using channel_step_put(2) [OF inv] by simp
  next
    case get
    then show ?thesis using channel_step_get(2) [OF inv] by simp
  next
    case client
    then show ?thesis using inv client_change_frame(2) by (auto simp: sync_inv_def)
  qed
next
  show "length (contents q h) \<le> unat (ring_size q)" if "sync_inv q h" for h
    using that mq_invD(4) by (auto simp: sync_inv_def)
qed

text \<open>
  A synchronized queue is a bounded first-in first-out channel. Over any sequence of
  \<open>fmq_write\<close> and \<open>fmq_read\<close> calls that starts with an empty queue, and whatever the clients do
  to their own memory in between, the bytes read are, in order, a prefix of the bytes written,
  the rest is still in the ring, and no more than one ring is ever in flight.
\<close>

lemma sync_queue_is_fifo_channel:
  assumes "run (channel_step q) h sent recv h'"
    and "flavor q = kSynchronizedReadWrite" and "mq_inv q h" and "contents q h = []"
  shows "sent = recv @ contents q h' \<and> length sent \<le> length recv + unat (ring_size q) \<and>
    mq_inv q h'"
proof -
  have inv: "sync_inv q h" using assms by (simp add: sync_inv_def)
  from seq_channel.received_is_prefix [OF assms(1) inv assms(4)]
    seq_channel.inv_run [OF assms(1) inv]
  show ?thesis by (simp add: sync_inv_def)
qed

end
