(* ===== verification/Event_Concurrency.thy ===== *)
theory Event_Concurrency
  imports Event_Flag Queue_Channel
begin

unbundle bit_operations_syntax

text \<open>
  Any number of threads on one event flag, interleaved at the grain of single atomic operations
  and system calls: no wake-up is lost, and every bit that was set is reported once. The calls
  of \<open>EventFlag.cpp\<close> are programs of such accesses; run alone against any environment they are the
  functions of \<open>Event_Flag\<close> on POSIX.
\<close>

section \<open>Programs of accesses\<close>

text \<open>
  \<open>FetchOr\<close> and \<open>FetchAnd\<close> are the atomic operations on the word, \<open>FutexWake\<close> and
  \<open>FutexWait\<close> the system calls, the latter with the expected word, the timeout and the
  bits to wait for; \<open>Clock\<close> reads the time. \<open>Attempt\<close> is an attempted operation of the queue that
  the flag belongs to: the calls of this theory have none, those that block on a queue do. What
  follows an access depends on its result: the old word, or \<open>ret\<close> and \<open>errno\<close>.
\<close>

datatype 'a ef_prog =
    Done 'a
  | Fail failure
  | Clock "int \<Rightarrow> 'a ef_prog"
  | Attempt "bool \<Rightarrow> 'a ef_prog"
  | FetchOr u32 "u32 \<Rightarrow> 'a ef_prog"
  | FetchAnd u32 "u32 \<Rightarrow> 'a ef_prog"
  | FutexWake u32 "int \<times> int \<Rightarrow> 'a ef_prog"
  | FutexWait u32 int u32 "int \<times> int \<Rightarrow> 'a ef_prog"

primrec ef_bind :: "'a ef_prog \<Rightarrow> ('a \<Rightarrow> 'b ef_prog) \<Rightarrow> 'b ef_prog" where
  "ef_bind (Done a) f = f a"
| "ef_bind (Fail e) f = Fail e"
| "ef_bind (Clock k) f = Clock (\<lambda>c. ef_bind (k c) f)"
| "ef_bind (Attempt k) f = Attempt (\<lambda>ok. ef_bind (k ok) f)"
| "ef_bind (FetchOr m k) f = FetchOr m (\<lambda>old. ef_bind (k old) f)"
| "ef_bind (FetchAnd m k) f = FetchAnd m (\<lambda>old. ef_bind (k old) f)"
| "ef_bind (FutexWake m k) f = FutexWake m (\<lambda>r. ef_bind (k r) f)"
| "ef_bind (FutexWait expected timeout m k) f =
     FutexWait expected timeout m (\<lambda>r. ef_bind (k r) f)"

text \<open>
  A program run by one thread, the others acting before each of its accesses to shared memory;
  \<open>op\<close> is the operation that it attempts.
\<close>

primrec ef_exec ::
  "'w os \<Rightarrow> EventFlag \<Rightarrow> (heap \<Rightarrow> (bool \<times> heap) res) \<Rightarrow> 'a ef_prog \<Rightarrow> 'w st \<Rightarrow>
     ('a \<times> 'w st) res" where
  "ef_exec sys ef op (Done a) s = Inr (a, s)"
| "ef_exec sys ef op (Fail e) s = Inl e"
| "ef_exec sys ef op (Clock k) s =
     (case elapsedRealtimeNano sys s of (c, s') \<Rightarrow> ef_exec sys ef op (k c) s')"
| "ef_exec sys ef op (Attempt k) s = (case others sys s of (h, w) \<Rightarrow>
     bind_res (op h) (\<lambda>(ok, h'). ef_exec sys ef op (k ok) (h', w)))"
| "ef_exec sys ef op (FetchOr m k) s = (case others sys s of (h, w) \<Rightarrow>
     bind_res (atomic_fetch_or (mEfWordPtr ef) m h)
       (\<lambda>(old, h'). ef_exec sys ef op (k old) (h', w)))"
| "ef_exec sys ef op (FetchAnd m k) s = (case others sys s of (h, w) \<Rightarrow>
     bind_res (atomic_fetch_and (mEfWordPtr ef) m h)
       (\<lambda>(old, h'). ef_exec sys ef op (k old) (h', w)))"
| "ef_exec sys ef op (FutexWake m k) s =
     (case futex_wake sys (mEfWordPtr ef) m s of (r, s') \<Rightarrow> ef_exec sys ef op (k r) s')"
| "ef_exec sys ef op (FutexWait expected timeout m k) s =
     (case waitSyscall sys POSIX ef expected timeout m s of (r, s') \<Rightarrow>
        ef_exec sys ef op (k r) s')"

lemma ef_exec_bind:
  "ef_exec sys ef op (ef_bind p f) s =
     bind_res (ef_exec sys ef op p s) (\<lambda>(a, s'). ef_exec sys ef op (f a) s')"
  by (induction p arbitrary: s) (simp_all add: bind_res_def split: prod.splits sum.splits)

section \<open>The calls\<close>

definition wake_prog :: "u32 \<Rightarrow> int ef_prog" where
  "wake_prog bitmask =
     (if bitmask = 0 then Done NO_ERROR
      else FetchOr bitmask (\<lambda>old.
        if NOT old AND bitmask \<noteq> 0 then
          FutexWake bitmask (\<lambda>(ret, errno). Done (if ret = - 1 then - errno else NO_ERROR))
        else Done NO_ERROR))"

text \<open>The result of a wait: its status and the contents of its out parameter.\<close>

type_synonym ef_result = "int \<times> u32 option"

definition waitHelper_prog :: "u32 \<Rightarrow> u32 option \<Rightarrow> int \<Rightarrow> ef_result ef_prog" where
  "waitHelper_prog bitmask efState timeoutNanoSeconds =
     (if bitmask = 0 \<or> efState = None then Done (BAD_VALUE, efState)
      else FetchAnd (NOT bitmask) (\<lambda>old.
        let setBits = old AND bitmask in
        if setBits \<noteq> 0 then Done (NO_ERROR, Some setBits)
        else
          let efWord = old AND NOT bitmask in
          FutexWait efWord timeoutNanoSeconds bitmask (\<lambda>(ret, errno).
            if ret = - 1 then Done (- errno, Some 0)
            else FetchAnd (NOT bitmask) (\<lambda>old.
              Done (if old AND bitmask = 0 then - EINTR else NO_ERROR, Some (old AND bitmask))))))"

text \<open>The clock is read only by a call that has a timeout.\<close>

definition clock_if :: "bool \<Rightarrow> int \<Rightarrow> (int \<Rightarrow> 'a ef_prog) \<Rightarrow> 'a ef_prog" where
  "clock_if shouldTimeOut prevTimeNs k = (if shouldTimeOut then Clock k else k prevTimeNs)"

text \<open>The loop of \<open>wait\<close>; \<open>Done None\<close> means that the fuel ran out.\<close>

primrec wait_loop_prog ::
  "nat \<Rightarrow> u32 \<Rightarrow> bool \<Rightarrow> u32 option \<Rightarrow> int \<Rightarrow> int \<Rightarrow> ef_result option ef_prog" where
  "wait_loop_prog 0 bitmask shouldTimeOut efState timeout prevTimeNs = Done None"
| "wait_loop_prog (Suc fuel) bitmask shouldTimeOut efState timeout prevTimeNs =
     clock_if shouldTimeOut prevTimeNs (\<lambda>currentTimeNs.
     let timeout' = (if shouldTimeOut then timeout - (currentTimeNs - prevTimeNs) else timeout)
     in if shouldTimeOut \<and> timeout' \<le> 0 then
          if efState = None then Fail Undefined else Done (Some (- ETIMEDOUT, Some 0))
        else
          ef_bind (waitHelper_prog bitmask efState timeout') (\<lambda>(status, efState').
          if status \<noteq> - EAGAIN \<and> status \<noteq> - EINTR then Done (Some (status, efState'))
          else wait_loop_prog fuel bitmask shouldTimeOut efState' timeout' currentTimeNs))"

definition wait_prog ::
  "nat \<Rightarrow> u32 \<Rightarrow> u32 option \<Rightarrow> int \<Rightarrow> bool \<Rightarrow> ef_result option ef_prog" where
  "wait_prog fuel bitmask efState timeoutNanoSeconds retry =
     (if \<not> retry then ef_bind (waitHelper_prog bitmask efState timeoutNanoSeconds) (\<lambda>r. Done (Some r))
      else
        let shouldTimeOut = (timeoutNanoSeconds \<noteq> 0)
        in clock_if shouldTimeOut 0 (\<lambda>prevTimeNs.
           wait_loop_prog fuel bitmask shouldTimeOut efState timeoutNanoSeconds prevTimeNs))"

section \<open>The programs are the calls\<close>

text \<open>Run by one thread against any environment, undefined behaviour included.\<close>

lemma wake_is_its_accesses:
  "ef_exec sys ef op (wake_prog bitmask) s = wake sys POSIX ef bitmask s"
  by (simp add: wake_def wake_prog_def bind_res_def atomic_fetch_or_def split: prod.splits)

lemma waitHelper_is_its_accesses:
  "ef_exec sys ef op (waitHelper_prog bitmask efState timeout) s =
     bind_res (waitHelper sys POSIX ef bitmask efState timeout s)
       (\<lambda>(status, efState', s'). Inr ((status, efState'), s'))"
  by (simp add: waitHelper_def waitHelper_prog_def bind_res_def atomic_fetch_and_def Let_def
      split: prod.splits)

definition wait_outcome ::
  "(ef_result option \<times> 'w st) res \<Rightarrow> (int \<times> u32 option \<times> 'w st) res option" where
  "wait_outcome r = (case r of
       Inl e \<Rightarrow> Some (Inl e)
     | Inr (None, s) \<Rightarrow> None
     | Inr (Some (status, efState), s) \<Rightarrow> Some (Inr (status, efState, s)))"

lemma wait_outcome_simps [simp]:
  "wait_outcome (Inl e) = Some (Inl e)"
  "wait_outcome (Inr (None, s)) = None"
  "wait_outcome (Inr (Some (status, efState), s)) = Some (Inr (status, efState, s))"
  by (simp_all add: wait_outcome_def)

lemma ef_exec_clock_if:
  "ef_exec sys ef op (clock_if b prev k) s =
     (case (if b then elapsedRealtimeNano sys s else (prev, s)) of (c, s') \<Rightarrow> ef_exec sys ef op (k c) s')"
  by (simp add: clock_if_def)

lemma wait_loop_is_its_accesses:
  "wait_outcome (ef_exec sys ef op (wait_loop_prog fuel bitmask shouldTimeOut efState timeout prev) s) =
     wait_loop fuel sys POSIX ef bitmask shouldTimeOut efState timeout prev s"
proof (induction fuel arbitrary: shouldTimeOut efState timeout prev s)
  case (Suc fuel)
  obtain cur s1 where tick: "(if shouldTimeOut then elapsedRealtimeNano sys s else (prev, s)) = (cur, s1)"
    by (rule prod.exhaust)
  define left where "left = (if shouldTimeOut then timeout - (cur - prev) else timeout)"
  show ?case
    unfolding wait_loop_prog.simps ef_exec_clock_if tick prod.case left_def [symmetric] Let_def
      wait_loop_round [OF tick left_def]
    by (cases "waitHelper sys POSIX ef bitmask efState left s1")
      (auto simp: ef_exec_bind waitHelper_is_its_accesses Suc.IH split: prod.splits)
qed simp

lemma wait_is_its_accesses:
  "wait_outcome (ef_exec sys ef op (wait_prog fuel bitmask efState timeout retry) s) =
     wait fuel sys POSIX ef bitmask efState timeout retry s"
proof (cases retry)
  case True
  then show ?thesis
    by (simp add: wait_def wait_prog_def Let_def ef_exec_clock_if wait_loop_is_its_accesses
        split: prod.splits)
next
  case False
  then show ?thesis
    by (cases "waitHelper sys POSIX ef bitmask efState timeout s")
      (auto simp: wait_def wait_prog_def ef_exec_bind waitHelper_is_its_accesses split: prod.splits)
qed

section \<open>The system of threads\<close>

text \<open>
  A thread is outside the event flag, inside one of its calls with the rest of its program, or
  asleep in the kernel until one of its bits is signalled, with what follows.
\<close>

datatype 'a thread =
    Outside
  | Inside "'a ef_prog"
  | Asleep u32 "int \<times> int \<Rightarrow> 'a ef_prog"

record ('i, 'a) threads =
  efWordValue :: u32
  thread_of :: "'i \<Rightarrow> 'a thread"

definition set_thread :: "'i \<Rightarrow> 'a thread \<Rightarrow> ('i, 'a) threads \<Rightarrow> ('i, 'a) threads" where
  "set_thread t th s = s\<lparr>thread_of := (thread_of s)(t := th)\<rparr>"

text \<open>
  What the kernel's \<open>FUTEX_WAKE_BITSET\<close> does to a thread, for all sleepers: the code passes the
  largest count.
\<close>

fun roused :: "u32 \<Rightarrow> 'a thread \<Rightarrow> 'a thread" where
  "roused m (Asleep m' k) = (if m' AND m \<noteq> 0 then Inside (k (0, 0)) else Asleep m' k)"
| "roused m th = th"

text \<open>
  The bits that a program which has come to its end reports: \<open>rep\<close> says which bits its result
  stands for.
\<close>

fun reported :: "('a \<Rightarrow> u32) \<Rightarrow> 'a ef_prog \<Rightarrow> u32" where
  "reported rep (Done r) = rep r"
| "reported rep p = 0"

text \<open>
  The steps, for the programs \<open>Calls\<close> that threads may start. The kernel puts a thread to sleep
  only if the word is the expected one, and it may end a sleep at any time: with an error (a
  signal, the timeout) or spuriously. The labels are the bits that a step sets in the word, and
  those that the call has then to report.
\<close>

inductive ef_step ::
  "('a \<Rightarrow> u32) \<Rightarrow> ('a ef_prog \<Rightarrow> bool) \<Rightarrow> ('i, 'a) threads \<Rightarrow> u32 list \<Rightarrow> u32 list \<Rightarrow>
     ('i, 'a) threads \<Rightarrow> bool"
  for rep Calls where
  start_call: "thread_of s t = Outside \<Longrightarrow> Calls p \<Longrightarrow>
    ef_step rep Calls s [] [] (set_thread t (Inside p) s)"
| read_clock: "thread_of s t = Inside (Clock k) \<Longrightarrow>
    ef_step rep Calls s [] [] (set_thread t (Inside (k now)) s)"
| fetch_or: "thread_of s t = Inside (FetchOr m k) \<Longrightarrow>
    ef_step rep Calls s [NOT (efWordValue s) AND m] []
      (set_thread t (Inside (k (efWordValue s))) (s\<lparr>efWordValue := efWordValue s OR m\<rparr>))"
| fetch_and: "thread_of s t = Inside (FetchAnd m k) \<Longrightarrow>
    ef_step rep Calls s [] [reported rep (k (efWordValue s))]
      (set_thread t (Inside (k (efWordValue s))) (s\<lparr>efWordValue := efWordValue s AND m\<rparr>))"
| futex_wakes: "thread_of s t = Inside (FutexWake m k) \<Longrightarrow>
    ef_step rep Calls s [] [] (s\<lparr>thread_of := (\<lambda>u. roused m (thread_of s u))(t := Inside (k (int n, 0)))\<rparr>)"
| futex_sleeps: "thread_of s t = Inside (FutexWait expected timeout m k) \<Longrightarrow>
    efWordValue s = expected \<Longrightarrow> ef_step rep Calls s [] [] (set_thread t (Asleep m k) s)"
| futex_refuses: "thread_of s t = Inside (FutexWait expected timeout m k) \<Longrightarrow>
    efWordValue s \<noteq> expected \<Longrightarrow> ef_step rep Calls s [] [] (set_thread t (Inside (k (- 1, EAGAIN))) s)"
| sleep_ends: "thread_of s t = Asleep m k \<Longrightarrow> ret = 0 \<or> ret = - 1 \<and> 0 < errno \<Longrightarrow>
    ef_step rep Calls s [] [] (set_thread t (Inside (k (ret, errno))) s)"
| return_call: "thread_of s t = Inside (Done r) \<Longrightarrow> ef_step rep Calls s [] [] (set_thread t Outside s)"

inductive_cases ef_stepE: "ef_step rep Calls s raised taken s'"

text \<open>No thread has entered a call yet.\<close>

definition ef_start :: "u32 \<Rightarrow> ('i, 'a) threads" where
  "ef_start w = \<lparr>efWordValue = w, thread_of = (\<lambda>t. Outside)\<rparr>"

section \<open>What the programs keep to\<close>

text \<open>
  Who sets a bit goes on to signal what it set, and who goes to sleep expects a word without the
  bits it waits for.
\<close>

fun signals :: "u32 \<Rightarrow> 'a ef_prog \<Rightarrow> bool" where
  "signals m (FutexWake m' k) = (m' AND m \<noteq> 0)"
| "signals m p = False"

primrec disciplined :: "'a ef_prog \<Rightarrow> bool" where
  "disciplined (Done r) = True"
| "disciplined (Fail e) = True"
| "disciplined (Clock k) = (\<forall>c. disciplined (k c))"
| "disciplined (Attempt k) = (\<forall>ok. disciplined (k ok))"
| "disciplined (FetchOr m k) = (\<forall>old. disciplined (k old) \<and>
     (\<forall>b. NOT old AND m AND b \<noteq> 0 \<longrightarrow> signals b (k old)))"
| "disciplined (FetchAnd m k) = (\<forall>old. disciplined (k old))"
| "disciplined (FutexWake m k) = (\<forall>r. disciplined (k r))"
| "disciplined (FutexWait expected timeout m k) =
     (expected AND m = 0 \<and> (\<forall>r. disciplined (k r)))"

lemma signals_bind: "signals b p \<Longrightarrow> signals b (ef_bind p f)"
  by (cases p) simp_all

lemma disciplined_bind:
  "disciplined p \<Longrightarrow> (\<And>a. disciplined (f a)) \<Longrightarrow> disciplined (ef_bind p f)"
  by (induction p) (auto intro: signals_bind)

lemma disciplined_clock_if:
  "(\<And>c. disciplined (k c)) \<Longrightarrow> disciplined (clock_if b prev k)"
  by (simp add: clock_if_def)

lemma and_parts: "x AND y AND z \<noteq> 0 \<Longrightarrow> x AND y \<noteq> 0" "x AND y AND z \<noteq> 0 \<Longrightarrow> y AND z \<noteq> 0"
  for x y z :: u32
  by (metis and.assoc zero_and_eq, metis and_zero_eq)

lemma and_not_self: "(x AND NOT m) AND m = 0" for x m :: u32
  by (rule bit_eqI) (auto simp: bit_simps)

lemma wake_prog_disciplined: "disciplined (wake_prog m)"
  by (auto simp: wake_prog_def dest: and_parts)

lemma waitHelper_prog_disciplined: "disciplined (waitHelper_prog m efState timeout)"
  by (simp add: waitHelper_prog_def Let_def and_not_self)

lemma wait_loop_prog_disciplined:
  "disciplined (wait_loop_prog fuel m shouldTimeOut efState timeout prev)"
  by (induction fuel arbitrary: efState timeout prev)
    (auto simp: Let_def waitHelper_prog_disciplined split: prod.splits
      intro!: disciplined_clock_if disciplined_bind)

lemma wait_prog_disciplined: "disciplined (wait_prog fuel m efState timeout retry)"
  by (simp add: wait_prog_def Let_def waitHelper_prog_disciplined wait_loop_prog_disciplined
      disciplined_clock_if disciplined_bind)

section \<open>The invariant\<close>

fun thread_ok :: "'a thread \<Rightarrow> bool" where
  "thread_ok Outside = True"
| "thread_ok (Inside p) = disciplined p"
| "thread_ok (Asleep m k) = (\<forall>r. disciplined (k r))"

fun awaits :: "'a thread \<Rightarrow> u32" where
  "awaits (Asleep m k) = m"
| "awaits th = 0"

fun signalling :: "u32 \<Rightarrow> 'a thread \<Rightarrow> bool" where
  "signalling m (Inside p) = signals m p"
| "signalling m th = False"

text \<open>A sleeper one of whose bits is set has a thread that is about to signal it.\<close>

definition heard :: "('i, 'a) threads \<Rightarrow> bool" where
  "heard s \<longleftrightarrow> (\<forall>t. efWordValue s AND awaits (thread_of s t) \<noteq> 0 \<longrightarrow>
     (\<exists>t'. signalling (awaits (thread_of s t)) (thread_of s t')))"

definition ef_inv :: "('i, 'a) threads \<Rightarrow> bool" where
  "ef_inv s \<longleftrightarrow> (\<forall>t. thread_ok (thread_of s t)) \<and> heard s"

lemma set_thread_simps [simp]:
  "efWordValue (set_thread t th s) = efWordValue s"
  "thread_of (set_thread t th s) = (thread_of s)(t := th)"
  by (simp_all add: set_thread_def)

lemma roused_simps [simp]:
  "thread_ok th \<Longrightarrow> thread_ok (roused m th)"
  "awaits (roused m th) = (if awaits th AND m = 0 then awaits th else 0)"
  "signalling b th \<Longrightarrow> signalling b (roused m th)"
  by (cases th; simp)+

lemma ef_inv_start: "ef_inv (ef_start w)"
  by (simp add: ef_inv_def heard_def ef_start_def)

text \<open>
  One thread moves on from where it does not signal. It does not fall asleep over a bit that is
  set, and it signals what it sets.
\<close>

lemma heard_move:
  assumes inv: "heard s" and quiet: "\<And>b. \<not> signalling b (thread_of s t)"
    and new: "w AND awaits th = 0"
    and sets: "\<And>m. w AND m \<noteq> 0 \<Longrightarrow> efWordValue s AND m \<noteq> 0 \<or> signalling m th"
  shows "heard (set_thread t th (s\<lparr>efWordValue := w\<rparr>))"
  unfolding heard_def
proof (intro allI impI)
  fix u
  let ?s' = "set_thread t th (s\<lparr>efWordValue := w\<rparr>)"
  let ?m = "awaits (thread_of ?s' u)"
  assume set: "efWordValue ?s' AND ?m \<noteq> 0"
  with new have u: "u \<noteq> t" by auto
  from sets [of ?m] set consider "efWordValue s AND ?m \<noteq> 0" | "signalling ?m th" by auto
  then show "\<exists>t'. signalling ?m (thread_of ?s' t')"
  proof cases
    case 1
    with u inv obtain t' where t': "signalling ?m (thread_of s t')" by (auto simp: heard_def)
    with quiet have "t' \<noteq> t" by metis
    with t' have "signalling ?m (thread_of ?s' t')" by simp
    then show ?thesis ..
  next
    case 2
    then have "signalling ?m (thread_of ?s' t)" by simp
    then show ?thesis ..
  qed
qed

lemma heard_call:
  assumes "heard s" and "\<And>b. \<not> signalling b (thread_of s t)" and "efWordValue s AND awaits th = 0"
  shows "heard (set_thread t th s)"
  using heard_move [OF assms] by simp

lemma or_and_new: "x AND b = 0 \<Longrightarrow> (x OR m) AND b \<noteq> 0 \<Longrightarrow> NOT x AND m AND b \<noteq> 0" for x m b :: u32
proof -
  assume none: "x AND b = 0" and some: "(x OR m) AND b \<noteq> 0"
  have "NOT x AND m AND b = (x OR m) AND b"
    using none by (auto simp: bit_eq_iff bit_simps)
  with some show ?thesis by simp
qed

lemma ef_step_preserves:
  assumes "ef_step rep Calls s raised taken s'" and "ef_inv s"
    and calls: "\<And>p. Calls p \<Longrightarrow> disciplined p"
  shows "ef_inv s'"
  using assms(1,2)
proof (cases rule: ef_step.cases)
  case (start_call t p)
  with assms(2) calls show ?thesis by (auto simp: ef_inv_def intro!: heard_call)
next
  case (read_clock t k now)
  have "thread_ok (thread_of s t)" using assms(2) by (simp add: ef_inv_def)
  with assms(2) read_clock show ?thesis by (auto simp: ef_inv_def intro!: heard_call)
next
  case (fetch_or t m k)
  let ?th = "Inside (k (efWordValue s))"
  have "thread_ok (thread_of s t)" using assms(2) by (simp add: ef_inv_def)
  then have d: "disciplined (k (efWordValue s))"
    "NOT (efWordValue s) AND m AND b \<noteq> 0 \<Longrightarrow> signalling b ?th" for b
    using fetch_or(4) by simp_all
  have "heard s'"
    unfolding fetch_or(3)
  proof (rule heard_move)
    show "efWordValue s AND b \<noteq> 0 \<or> signalling b ?th" if "(efWordValue s OR m) AND b \<noteq> 0" for b
      using d(2) or_and_new that by blast
  qed (use assms(2) fetch_or(4) in \<open>simp_all add: ef_inv_def\<close>)
  with assms(2) d(1) show ?thesis by (simp add: ef_inv_def fetch_or(3))
next
  case (fetch_and t m k)
  have "thread_ok (thread_of s t)" using assms(2) by (simp add: ef_inv_def)
  then have d: "disciplined (k (efWordValue s))" using fetch_and(4) by simp
  have "heard s'"
    unfolding fetch_and(3)
  proof (rule heard_move)
    show "efWordValue s AND b \<noteq> 0 \<or> signalling b (Inside (k (efWordValue s)))"
      if "(efWordValue s AND m) AND b \<noteq> 0" for b
      using that by (metis and.assoc and.left_commute and_zero_eq)
  qed (use assms(2) fetch_and(4) in \<open>simp_all add: ef_inv_def\<close>)
  with assms(2) d show ?thesis by (simp add: ef_inv_def fetch_and(3))
next
  case (futex_wakes t m k n)
  have ok: "thread_ok (thread_of s' u)" for u
  proof -
    have "thread_ok (thread_of s u)" "thread_ok (thread_of s t)"
      using assms(2) by (simp_all add: ef_inv_def)
    then show ?thesis using futex_wakes(3,4) by simp
  qed
  have "\<exists>t'. signalling b (thread_of s' t')"
    if set: "efWordValue s' AND b \<noteq> 0" and b: "b = awaits (thread_of s' u)" for u b
  proof -
    have "u \<noteq> t" using that futex_wakes(3) by (auto split: if_splits)
    then have m: "b AND m = 0" and same: "awaits (thread_of s u) = b"
      using that futex_wakes(3) by (auto split: if_splits)
    have "efWordValue s AND awaits (thread_of s u) \<noteq> 0" using set same futex_wakes(3) by simp
    then obtain t' where t': "signalling b (thread_of s t')"
      using assms(2) same unfolding ef_inv_def heard_def by metis
    moreover have "t' \<noteq> t" using t' m futex_wakes(4) by (auto simp: and.commute)
    ultimately show ?thesis using futex_wakes(3) by (intro exI [of _ t']) simp
  qed
  with ok show ?thesis by (auto simp: ef_inv_def heard_def)
next
  case (futex_sleeps t expected timeout m k)
  have "thread_ok (thread_of s t)" using assms(2) by (simp add: ef_inv_def)
  then have "\<forall>r. disciplined (k r)" "efWordValue s AND m = 0" using futex_sleeps(4,5) by simp_all
  with assms(2) futex_sleeps show ?thesis by (auto simp: ef_inv_def intro!: heard_call)
next
  case (futex_refuses t expected timeout m k)
  have "thread_ok (thread_of s t)" using assms(2) by (simp add: ef_inv_def)
  with assms(2) futex_refuses show ?thesis by (auto simp: ef_inv_def intro!: heard_call)
next
  case (sleep_ends t m k ret errno)
  have "thread_ok (thread_of s t)" using assms(2) by (simp add: ef_inv_def)
  with assms(2) sleep_ends show ?thesis by (auto simp: ef_inv_def intro!: heard_call)
next
  case (return_call t r)
  with assms(2) show ?thesis by (auto simp: ef_inv_def intro!: heard_call)
qed

section \<open>What the threads can rely on\<close>

text \<open>The calls of the event flag, with one type of result.\<close>

definition event_call :: "ef_result option ef_prog \<Rightarrow> bool" where
  "event_call p \<longleftrightarrow>
     (\<exists>m. p = ef_bind (wake_prog m) (\<lambda>status. Done (Some (status, None)))) \<or>
     (\<exists>fuel m efState timeout retry. p = wait_prog fuel m efState timeout retry)"

fun reported_bits :: "ef_result option \<Rightarrow> u32" where
  "reported_bits (Some (status, Some v)) = v"
| "reported_bits r = 0"

type_synonym event_threads = "(nat, ef_result option) threads"

abbreviation event_step ::
  "event_threads \<Rightarrow> u32 list \<Rightarrow> u32 list \<Rightarrow> event_threads \<Rightarrow> bool" where
  "event_step \<equiv> ef_step reported_bits event_call"

lemma event_call_disciplined: "event_call p \<Longrightarrow> disciplined p"
  by (auto simp: event_call_def wake_prog_disciplined wait_prog_disciplined intro!: disciplined_bind)

lemma ef_run_preserves:
  assumes "run (ef_step rep Calls) s raised taken s'" and "ef_inv s"
    and "\<And>p. Calls p \<Longrightarrow> disciplined p"
  shows "ef_inv s'"
  using assms(1,2) by (induction rule: run.induct) (auto intro: ef_step_preserves assms(3))

lemma sleeper_is_heard:
  assumes "ef_inv s" and "thread_of s t = Asleep m k" and "efWordValue s AND m \<noteq> 0"
  obtains t' b k' where "thread_of s t' = Inside (FutexWake b k')" and "b AND m \<noteq> 0"
proof -
  obtain t' where t': "signalling m (thread_of s t')"
    using assms unfolding ef_inv_def heard_def by (metis awaits.simps(1))
  then obtain p where "thread_of s t' = Inside p" "signals m p" by (cases "thread_of s t'") auto
  with that show ?thesis by (auto elim: signals.elims)
qed

text \<open>
  C7: no wake-up is lost. However the atomic operations and system calls of any number of
  threads in \<open>wake\<close> and \<open>wait\<close> interleave, and however the kernel ends sleeps early: if a
  thread sleeps although one of its bits is set in the word, then some thread stands before its
  futex call for one of these bits, and this call makes the sleeper run again.
\<close>

theorem no_lost_wakeup:
  assumes "run event_step (ef_start w) raised taken s" and "thread_of s t = Asleep m k"
    and "efWordValue s AND m \<noteq> 0"
  shows "\<exists>t' b k' s'. thread_of s t' = Inside (FutexWake b k') \<and> b AND m \<noteq> 0 \<and>
    event_step s [] [] s' \<and> thread_of s' t' = Inside (k' (1, 0)) \<and> thread_of s' t = Inside (k (0, 0))"
proof -
  have "ef_inv s" by (rule ef_run_preserves [OF assms(1) ef_inv_start event_call_disciplined])
  then obtain t' b k' where b: "thread_of s t' = Inside (FutexWake b k')" "b AND m \<noteq> 0"
    using assms(2,3) by (rule sleeper_is_heard)
  from ef_step.futex_wakes [OF b(1), of _ _ 1] have
    "event_step s [] [] (s\<lparr>thread_of := (\<lambda>u. roused b (thread_of s u))(t' := Inside (k' (1, 0)))\<rparr>)"
    by simp
  moreover have "t \<noteq> t'" using assms(2) b(1) by auto
  ultimately show ?thesis using b assms(2) by (fastforce simp: and.commute)
qed

text \<open>
  Who clears bits reports exactly these: a discipline of the calls, kept from step to step.
\<close>

primrec accounts :: "('a \<Rightarrow> u32) \<Rightarrow> 'a ef_prog \<Rightarrow> bool" where
  "accounts rep (Done r) = True"
| "accounts rep (Fail e) = True"
| "accounts rep (Clock k) = (\<forall>c. accounts rep (k c))"
| "accounts rep (Attempt k) = (\<forall>ok. accounts rep (k ok))"
| "accounts rep (FetchOr m k) = (\<forall>old. accounts rep (k old))"
| "accounts rep (FetchAnd m k) = (\<forall>old. accounts rep (k old) \<and> reported rep (k old) = old AND NOT m)"
| "accounts rep (FutexWake m k) = (\<forall>r. accounts rep (k r))"
| "accounts rep (FutexWait expected timeout m k) = (\<forall>r. accounts rep (k r))"

fun thread_accounts :: "('a \<Rightarrow> u32) \<Rightarrow> 'a thread \<Rightarrow> bool" where
  "thread_accounts rep Outside = True"
| "thread_accounts rep (Inside p) = accounts rep p"
| "thread_accounts rep (Asleep m k) = (\<forall>r. accounts rep (k r))"

lemma reported_bind:
  "(\<And>a. reported rep (f a) = rep' a) \<Longrightarrow> reported rep (ef_bind p f) = reported rep' p"
  by (cases p) simp_all

lemma accounts_bind:
  "accounts rep' p \<Longrightarrow> (\<And>a. accounts rep (f a)) \<Longrightarrow> (\<And>a. reported rep (f a) = rep' a) \<Longrightarrow>
    accounts rep (ef_bind p f)"
  by (induction p) (simp_all add: reported_bind)

lemma wake_prog_accounts: "accounts rep (wake_prog m)"
  by (simp add: wake_prog_def split: prod.splits)

text \<open>What \<open>waitHelper\<close> reports, for a caller that looks at it only if it does not try again.\<close>

fun final_bits :: "ef_result \<Rightarrow> u32" where
  "final_bits (status, efState) =
     (if status = - EAGAIN \<or> status = - EINTR then 0 else reported_bits (Some (status, efState)))"

lemma waitHelper_prog_accounts:
  "accounts (\<lambda>r. reported_bits (Some r)) (waitHelper_prog m efState timeout)"
  "accounts final_bits (waitHelper_prog m efState timeout)"
  by (auto simp: waitHelper_prog_def Let_def status_defs split: prod.splits)

lemma wait_loop_prog_reports:
  "m \<noteq> 0 \<Longrightarrow> reported reported_bits (wait_loop_prog fuel m shouldTimeOut efState timeout prev) = 0"
  by (cases fuel) (auto simp: clock_if_def Let_def waitHelper_prog_def status_defs)

lemma wait_loop_prog_accounts:
  "accounts reported_bits (wait_loop_prog fuel m shouldTimeOut efState timeout prev)"
proof (induction fuel arbitrary: efState timeout prev)
  case (Suc fuel)
  have "accounts reported_bits (ef_bind (waitHelper_prog m efState left) (\<lambda>(status, efState').
      if status \<noteq> - EAGAIN \<and> status \<noteq> - EINTR then Done (Some (status, efState'))
      else wait_loop_prog fuel m shouldTimeOut efState' left cur))" for left cur efState
  proof (cases "m = 0")
    case True
    then show ?thesis by (simp add: waitHelper_prog_def status_defs)
  next
    case False
    show ?thesis
      by (rule accounts_bind [OF waitHelper_prog_accounts(2)])
        (auto simp: Suc.IH wait_loop_prog_reports [OF False] split: prod.splits)
  qed
  then show ?case by (simp add: clock_if_def Let_def)
qed simp

lemma single_calls_account:
  "accounts reported_bits (ef_bind (wake_prog m) (\<lambda>status. Done (Some (status, None))))"
  "accounts reported_bits (ef_bind (waitHelper_prog m efState timeout) (\<lambda>r. Done (Some r)))"
  by (rule accounts_bind [OF wake_prog_accounts [of "\<lambda>_. 0"]]; simp)
    (rule accounts_bind [OF waitHelper_prog_accounts(1)]; simp)

lemma event_call_accounts: "event_call p \<Longrightarrow> accounts reported_bits p"
  by (auto simp: event_call_def wait_prog_def Let_def clock_if_def wait_loop_prog_accounts
      single_calls_account)

lemma thread_accounts_roused: "thread_accounts rep th \<Longrightarrow> thread_accounts rep (roused m th)"
  by (cases th) simp_all

lemma ef_step_accounts:
  assumes "ef_step rep Calls s raised taken s'" and "\<And>t. thread_accounts rep (thread_of s t)"
    and "\<And>p. Calls p \<Longrightarrow> accounts rep p"
  shows "thread_accounts rep (thread_of s' t)"
  using assms(1)
proof (cases rule: ef_step.cases)
  case (futex_wakes u m k n)
  with assms(2) [of u] assms(2) [of t] show ?thesis by (simp add: thread_accounts_roused)
qed (use assms(2) [of t] assms(3) in \<open>auto simp: fun_upd_def\<close>)

text \<open>The books of one bit: what a step sets and reports of it, and its state before and after.\<close>

lemma ef_step_balance:
  assumes "ef_step rep Calls s raised taken s'" and "\<And>t. thread_accounts rep (thread_of s t)"
  shows "length (filter (\<lambda>m. bit m i) raised) + of_bool (bit (efWordValue s) i) =
    length (filter (\<lambda>m. bit m i) taken) + of_bool (bit (efWordValue s') i)"
  using assms(1)
proof (cases rule: ef_step.cases)
  case (fetch_or t m k)
  then show ?thesis by (auto simp: bit_simps dest: bit_imp_le_length)
next
  case (fetch_and t m k)
  have "reported rep (k (efWordValue s)) = efWordValue s AND NOT m"
    using assms(2) [of t] fetch_and by simp
  with fetch_and show ?thesis by (auto simp: bit_simps dest: bit_imp_le_length)
qed simp_all

lemma ef_run_balance:
  assumes "run (ef_step rep Calls) s raised taken s'" and "\<And>t. thread_accounts rep (thread_of s t)"
    and calls: "\<And>p. Calls p \<Longrightarrow> accounts rep p"
  shows "(\<forall>t. thread_accounts rep (thread_of s' t)) \<and>
    length (filter (\<lambda>m. bit m i) raised) + of_bool (bit (efWordValue s) i) =
    length (filter (\<lambda>m. bit m i) taken) + of_bool (bit (efWordValue s') i)"
  using assms(1,2)
proof (induction rule: run.induct)
  case (run_step s0 sent recv s' xs ys s'')
  note IH = run_step.IH [OF run_step.prems]
  then have now: "\<And>t. thread_accounts rep (thread_of s' t)" by blast
  show ?case
    using IH ef_step_balance [OF run_step.hyps(2) now, of i]
      ef_step_accounts [OF run_step.hyps(2) now calls] by simp
qed simp

text \<open>
  C8: every bit that is set is reported once. In every interleaving of \<open>wake\<close> and \<open>wait\<close> calls
  and for every bit: as often as a \<open>wake\<close> set it in the word (or it was set at the start), some
  \<open>wait\<close> cleared and reported it, except for the last time if it is still set. No bit is
  dropped, and no two waiters are told of the same one.
\<close>

theorem bits_reported_once:
  assumes "run event_step (ef_start w) raised taken s"
  shows "length (filter (\<lambda>m. bit m i) raised) + of_bool (bit w i) =
    length (filter (\<lambda>m. bit m i) taken) + of_bool (bit (efWordValue s) i)"
  using ef_run_balance [OF assms _ event_call_accounts] by (simp add: ef_start_def)

end
