(* ===== verification/Queue_Blocking.thy ===== *)
theory Queue_Blocking
  imports Queue_Channel
begin

text \<open>
  \<open>writeBlocking\<close> and \<open>readBlocking\<close> of \<open>include/fmq/MessageQueueBase.h\<close>. The two functions
  have the same text up to the operation they attempt and the roles of the two notification
  masks, so the attempt, with its loop, is one group of definitions with the operation as a
  parameter; their guards are in their own definitions. What both rely on is the
  locale \<open>attempt\<close>, interpreted for the write and for the read of a queue. The environment is
  that of the event flag: other threads run before every access to shared memory.
\<close>

section \<open>The attempt and its loop\<close>

definition FMQ_NOT_FULL :: u32 where "FMQ_NOT_FULL = 1"
definition FMQ_NOT_EMPTY :: u32 where "FMQ_NOT_EMPTY = 2"

definition try_op ::
  "'w os \<Rightarrow> (heap \<Rightarrow> (bool \<times> heap) res) \<Rightarrow> 'w st \<Rightarrow> (bool \<times> 'w st) res" where
  "try_op sys op s =
     (case others sys s of (h, w) \<Rightarrow> bind_res (op h) (\<lambda>(ok, h'). Inr (ok, (h', w))))"

text \<open>Waking the other side if it asked for it; the status of \<open>wake\<close> is ignored.\<close>

definition notify :: "'w os \<Rightarrow> platform \<Rightarrow> EventFlag \<Rightarrow> u32 \<Rightarrow> 'w st \<Rightarrow> (bool \<times> 'w st) res" where
  "notify sys pf ef wakeMask s =
     (if wakeMask \<noteq> 0
      then bind_res (wake sys pf ef wakeMask s) (\<lambda>(status, s'). Inr (True, s'))
      else Inr (True, s))"

text \<open>The contents of the local variable \<open>efState\<close>, whose address \<open>wait\<close> receives.\<close>

definition efBits :: "u32 option \<Rightarrow> u32" where
  "efBits efState = (case efState of None \<Rightarrow> 0 | Some v \<Rightarrow> v)"

text \<open>
  \<open>while (true)\<close>: \<open>None\<close> when \<open>fuel\<close> rounds were not enough, or \<open>wfuel\<close> rounds of one
  \<open>wait\<close>.
\<close>

primrec blocking_loop ::
  "nat \<Rightarrow> nat \<Rightarrow> 'w os \<Rightarrow> platform \<Rightarrow> EventFlag \<Rightarrow> (heap \<Rightarrow> (bool \<times> heap) res) \<Rightarrow> u32 \<Rightarrow>
     bool \<Rightarrow> int \<Rightarrow> int \<Rightarrow> 'w st \<Rightarrow> (bool \<times> 'w st) res option" where
  "blocking_loop 0 wfuel sys pf ef op waitMask shouldTimeOut timeOutNanos prevTimeNanos s = None"
| "blocking_loop (Suc fuel) wfuel sys pf ef op waitMask shouldTimeOut timeOutNanos prevTimeNanos s =
     (let (currentTimeNs, s1) = (if shouldTimeOut then elapsedRealtimeNano sys s
                                 else (prevTimeNanos, s));
          left = (if shouldTimeOut then timeOutNanos - (currentTimeNs - prevTimeNanos)
                  else timeOutNanos)
      in if shouldTimeOut \<and> left \<le> 0 then Some (try_op sys op s1)
         else
           (case wait wfuel sys pf ef waitMask (Some 0) left True s1 of
              None \<Rightarrow> None
            | Some (Inl e) \<Rightarrow> Some (Inl e)
            | Some (Inr (status, efState, s2)) \<Rightarrow>
                if status \<noteq> TIMED_OUT \<and> status \<noteq> NO_ERROR then Some (Inr (False, s2))
                else if status = TIMED_OUT then Some (Inr (False, s2))
                else if efBits efState AND waitMask \<noteq> 0 then
                  (case try_op sys op s2 of
                     Inl e \<Rightarrow> Some (Inl e)
                   | Inr (ok, s3) \<Rightarrow>
                       if ok then Some (Inr (True, s3))
                       else blocking_loop fuel wfuel sys pf ef op waitMask shouldTimeOut left
                              currentTimeNs s3)
                else blocking_loop fuel wfuel sys pf ef op waitMask shouldTimeOut left
                       currentTimeNs s2))"

declare blocking_loop.simps(2) [simp del]

definition blocking ::
  "nat \<Rightarrow> 'w os \<Rightarrow> platform \<Rightarrow> EventFlag \<Rightarrow> (heap \<Rightarrow> (bool \<times> heap) res) \<Rightarrow> u32 \<Rightarrow> u32 \<Rightarrow>
     int \<Rightarrow> 'w st \<Rightarrow> (bool \<times> 'w st) res option" where
  "blocking fuel sys pf ef op waitMask wakeMask timeOutNanos s =
     (case try_op sys op s of
        Inl e \<Rightarrow> Some (Inl e)
      | Inr (ok, s1) \<Rightarrow>
          if ok then Some (notify sys pf ef wakeMask s1)
          else
            let shouldTimeOut = (timeOutNanos \<noteq> 0);
                (prevTimeNanos, s2) = (if shouldTimeOut then elapsedRealtimeNano sys s1 else (0, s1))
            in (case blocking_loop fuel fuel sys pf ef op waitMask shouldTimeOut timeOutNanos
                       prevTimeNanos s2 of
                  None \<Rightarrow> None
                | Some r \<Rightarrow> Some (bind_res r (\<lambda>(result, s3).
                    if result then notify sys pf ef wakeMask s3 else Inr (False, s3)))))"

section \<open>The two functions\<close>

text \<open>The flag that is used: the caller's, or else the one the queue owns.\<close>

definition pick_flag :: "MessageQueue \<Rightarrow> EventFlag option \<Rightarrow> EventFlag option" where
  "pick_flag q evFlag = (case evFlag of None \<Rightarrow> mEventFlag q | Some ef \<Rightarrow> Some ef)"

definition writeBlocking ::
  "nat \<Rightarrow> 'w os \<Rightarrow> platform \<Rightarrow> MessageQueue \<Rightarrow> ptr \<Rightarrow> size_t \<Rightarrow> u32 \<Rightarrow> u32 \<Rightarrow> int \<Rightarrow>
     EventFlag option \<Rightarrow> 'w st \<Rightarrow> (bool \<times> 'w st) res option" where
  "writeBlocking fuel sys pf q data count readNotification writeNotification timeOutNanos evFlag s =
     (case pick_flag q evFlag of
        None \<Rightarrow> Some (Inr (False, s))
      | Some ef \<Rightarrow>
          (case (if readNotification = 0 then Inr True
                 else bind_res (getQuantumCount q) (\<lambda>n. Inr (count > n))) of
             Inl e \<Rightarrow> Some (Inl e)
           | Inr refused \<Rightarrow>
               if refused then Some (Inr (False, s))
               else blocking fuel sys pf ef (\<lambda>h. fmq_write q h data count)
                      readNotification writeNotification timeOutNanos s))"

definition writeBlocking_default ::
  "nat \<Rightarrow> 'w os \<Rightarrow> platform \<Rightarrow> MessageQueue \<Rightarrow> ptr \<Rightarrow> size_t \<Rightarrow> int \<Rightarrow> 'w st \<Rightarrow>
     (bool \<times> 'w st) res option" where
  "writeBlocking_default fuel sys pf q data count timeOutNanos s =
     writeBlocking fuel sys pf q data count FMQ_NOT_FULL FMQ_NOT_EMPTY timeOutNanos None s"

definition readBlocking ::
  "nat \<Rightarrow> 'w os \<Rightarrow> platform \<Rightarrow> MessageQueue \<Rightarrow> ptr \<Rightarrow> size_t \<Rightarrow> u32 \<Rightarrow> u32 \<Rightarrow> int \<Rightarrow>
     EventFlag option \<Rightarrow> 'w st \<Rightarrow> (bool \<times> 'w st) res option" where
  "readBlocking fuel sys pf q data count readNotification writeNotification timeOutNanos evFlag s =
     (case pick_flag q evFlag of
        None \<Rightarrow> Some (Inr (False, s))
      | Some ef \<Rightarrow>
          (case (if writeNotification = 0 then Inr True
                 else bind_res (getQuantumCount q) (\<lambda>n. Inr (count > n))) of
             Inl e \<Rightarrow> Some (Inl e)
           | Inr refused \<Rightarrow>
               if refused then Some (Inr (False, s))
               else blocking fuel sys pf ef (\<lambda>h. fmq_read q h data count)
                      writeNotification readNotification timeOutNanos s))"

definition readBlocking_default ::
  "nat \<Rightarrow> 'w os \<Rightarrow> platform \<Rightarrow> MessageQueue \<Rightarrow> ptr \<Rightarrow> size_t \<Rightarrow> int \<Rightarrow> 'w st \<Rightarrow>
     (bool \<times> 'w st) res option" where
  "readBlocking_default fuel sys pf q data count timeOutNanos s =
     readBlocking fuel sys pf q data count FMQ_NOT_FULL FMQ_NOT_EMPTY timeOutNanos None s"

section \<open>One round\<close>

lemma blocking_loop_round:
  assumes "(if shouldTimeOut then elapsedRealtimeNano sys s else (prev, s)) = (cur, s1)"
    and "left = (if shouldTimeOut then timeout - (cur - prev) else timeout)"
  shows "blocking_loop (Suc fuel) wfuel sys pf ef op waitMask shouldTimeOut timeout prev s =
    (if shouldTimeOut \<and> left \<le> 0 then Some (try_op sys op s1)
     else
       (case wait wfuel sys pf ef waitMask (Some 0) left True s1 of
          None \<Rightarrow> None
        | Some (Inl e) \<Rightarrow> Some (Inl e)
        | Some (Inr (status, efState, s2)) \<Rightarrow>
            if status \<noteq> TIMED_OUT \<and> status \<noteq> NO_ERROR then Some (Inr (False, s2))
            else if status = TIMED_OUT then Some (Inr (False, s2))
            else if efBits efState AND waitMask \<noteq> 0 then
              (case try_op sys op s2 of
                 Inl e \<Rightarrow> Some (Inl e)
               | Inr (ok, s3) \<Rightarrow>
                   if ok then Some (Inr (True, s3))
                   else blocking_loop fuel wfuel sys pf ef op waitMask shouldTimeOut left cur s3)
            else blocking_loop fuel wfuel sys pf ef op waitMask shouldTimeOut left cur s2))"
  unfolding blocking_loop.simps assms(1) Let_def prod.case assms(2) ..

text \<open>A successful return comes from a successful attempt.\<close>

lemma blocking_loop_success:
  assumes "blocking_loop fuel wfuel sys pf ef op waitMask shouldTimeOut timeout prev s =
    Some (Inr (True, s'))"
  shows "\<exists>s0. try_op sys op s0 = Inr (True, s')"
  using assms
proof (induction fuel arbitrary: timeout prev s)
  case 0
  then show ?case by simp
next
  case (Suc fuel)
  obtain cur s1 where tick: "(if shouldTimeOut then elapsedRealtimeNano sys s else (prev, s)) = (cur, s1)"
    by (rule prod.exhaust)
  define left where "left = (if shouldTimeOut then timeout - (cur - prev) else timeout)"
  note run = Suc.prems [unfolded blocking_loop_round [OF tick left_def]]
  show ?case
  proof (cases "shouldTimeOut \<and> left \<le> 0")
    case True
    with run show ?thesis by (intro exI [of _ s1]) simp
  next
    case False
    from run [unfolded if_not_P [OF False]]
    have "(\<exists>s0. try_op sys op s0 = Inr (True, s')) \<or>
        (\<exists>timeout prev s. blocking_loop fuel wfuel sys pf ef op waitMask shouldTimeOut timeout prev s =
          Some (Inr (True, s')))"
      by (simp del: split_paired_Ex split: option.splits sum.splits prod.splits if_splits) blast+
    then show ?thesis using Suc.IH by blast
  qed
qed

lemma clock_try_op:
  assumes "clock_advances sys now" and "try_op sys op s = Inr (ok, s')"
  shows "now (snd s) \<le> now (snd s')"
  using assms(2) clock_advancesD(3) [OF assms(1), of s]
  by (auto simp: try_op_def bind_res_eq_Inr split: prod.splits)

text \<open>Each round shortens the remaining time, so the loop is left.\<close>

lemma blocking_loop_timed_returns:
  assumes clock: "clock_advances sys now" and fuel: "nat timeout < fuel" "nat timeout < wfuel"
    and past: "prev \<le> now (snd s)"
  shows "\<exists>r. blocking_loop fuel wfuel sys pf ef op m True timeout prev s = Some r"
  using fuel past
proof (induction fuel arbitrary: timeout prev s)
  case 0
  then show ?case by simp
next
  case (Suc fuel)
  obtain cur s1 where read: "elapsedRealtimeNano sys s = (cur, s1)" by (rule prod.exhaust)
  then have tick: "(if True then elapsedRealtimeNano sys s else (prev, s)) = (cur, s1)" by simp
  define left where "left = (if True then timeout - (cur - prev) else timeout)"
  note round = blocking_loop_round [OF tick left_def]
  have less: "left \<le> timeout - 1"
    using clock_reading [OF clock read] Suc.prems(3) by (simp add: left_def)
  show ?case
  proof (cases "left \<le> 0")
    case True
    then show ?thesis by (simp add: round)
  next
    case False
    then have left: "left \<noteq> 0" "nat left < wfuel" "nat left < fuel"
      using less Suc.prems by linarith+
    have again: "\<exists>r. blocking_loop fuel wfuel sys pf ef op m True left cur u = Some r"
      if "now (snd s1) \<le> now (snd u)" for u
      using that clock_reading [OF clock read] left by (intro Suc.IH) simp_all
    obtain r where r: "wait wfuel sys pf ef m (Some 0) left True s1 = Some r"
      using wait_timed_returns [OF clock left(1,2)] by blast
    show ?thesis
    proof (cases r)
      case (Inl e)
      with r False show ?thesis by (simp add: round)
    next
      case (Inr x)
      obtain status e s2 where x: "x = (status, e, s2)" by (rule prod_cases3)
      have le: "now (snd s1) \<le> now (snd s2)" using clock_wait [OF clock] r Inr x by metis
      show ?thesis
      proof (cases "try_op sys op s2")
        case (Inl e')
        with r Inr x False again [OF le] show ?thesis by (simp add: round)
      next
        case op: (Inr y)
        obtain ok s3 where y: "y = (ok, s3)" by (rule prod.exhaust)
        have "now (snd s1) \<le> now (snd s3)" using clock_try_op [OF clock] op y le by fastforce
        with r Inr x op y False again again [OF le] show ?thesis by (simp add: round)
      qed
    qed
  qed
qed

lemma blocking_timed_returns:
  assumes clock: "clock_advances sys now" and timed: "timeout \<noteq> 0" and fuel: "nat timeout < fuel"
  shows "\<exists>r. blocking fuel sys pf ef op waitMask wakeMask timeout s = Some r"
proof (cases "try_op sys op s")
  case (Inl e)
  then show ?thesis by (simp add: blocking_def)
next
  case (Inr y)
  obtain ok s1 where y: "y = (ok, s1)" by (rule prod.exhaust)
  obtain prev s2 where read: "elapsedRealtimeNano sys s1 = (prev, s2)" by (rule prod.exhaust)
  have "prev \<le> now (snd s2)" using clock_reading [OF clock read] by simp
  then obtain r where "blocking_loop fuel fuel sys pf ef op waitMask True timeout prev s2 = Some r"
    using blocking_loop_timed_returns [OF clock fuel fuel] by blast
  with Inr y read timed show ?thesis by (simp add: blocking_def)
qed

lemma notify_success:
  assumes "notify sys pf ef m s = Inr (ok, s')"
  shows "ok" and "m \<noteq> 0 \<Longrightarrow> \<exists>status. wake sys pf ef m s = Inr (status, s')"
    and "m = 0 \<Longrightarrow> s' = s"
  using assms by (auto simp: notify_def bind_res_eq_Inr split: if_splits)

lemma blocking_success:
  assumes "blocking fuel sys pf ef op waitMask wakeMask timeout s = Some (Inr (True, s'))"
  shows "\<exists>s0 s1. try_op sys op s0 = Inr (True, s1) \<and> notify sys pf ef wakeMask s1 = Inr (True, s')"
proof (cases "try_op sys op s")
  case (Inl e)
  with assms show ?thesis by (simp add: blocking_def)
next
  case (Inr y)
  obtain ok s1 where y: "y = (ok, s1)" by (rule prod.exhaust)
  show ?thesis
  proof (cases ok)
    case True
    with assms Inr y show ?thesis by (intro exI [of _ s] exI [of _ s1]) (simp add: blocking_def)
  next
    case False
    obtain prev s2 where
      tick: "(if timeout \<noteq> 0 then elapsedRealtimeNano sys s1 else (0, s1)) = (prev, s2)"
      by (rule prod.exhaust)
    obtain r where loop: "blocking_loop fuel fuel sys pf ef op waitMask (timeout \<noteq> 0) timeout prev s2 =
        Some r"
      and "bind_res r (\<lambda>(result, s3). if result then notify sys pf ef wakeMask s3
        else Inr (False, s3)) = Inr (True, s')"
      using assms False unfolding blocking_def Inr y Let_def sum.case prod.case tick
      by (auto split: option.splits)
    then obtain s3 where "r = Inr (True, s3)" "notify sys pf ef wakeMask s3 = Inr (True, s')"
      by (auto simp: bind_res_eq_Inr split: if_splits)
    with blocking_loop_success loop show ?thesis by metis
  qed
qed

section \<open>The interface of an attempt\<close>

text \<open>
  An attempt that is \<open>ready\<close> does not fail half way, and when it does nothing it says so;
  readiness does not depend on the event-flag words.
\<close>

locale attempt =
  fixes op :: "heap \<Rightarrow> (bool \<times> heap) res" and ready :: "heap \<Rightarrow> bool"
  assumes op_total: "ready h \<Longrightarrow> \<exists>ok h'. op h = Inr (ok, h') \<and> (\<not> ok \<longrightarrow> h' = h)"
    and ready_flag_free: "flag_free ready"
begin

lemma try_op_total:
  assumes "env_keeps sys ready" and "ready (fst s)"
  obtains ok s' where "try_op sys op s = Inr (ok, s')" and "\<not> ok \<Longrightarrow> ready (fst s')"
proof -
  obtain h w where o: "others sys s = (h, w)" by (rule prod.exhaust)
  have "ready h" using env_keepsD(1) [OF assms] o by simp
  then obtain ok h' where op: "op h = Inr (ok, h')" "\<not> ok \<longrightarrow> h' = h" using op_total by blast
  show ?thesis
  proof (rule that [of ok "(h', w)"])
    show "try_op sys op s = Inr (ok, (h', w))" by (simp add: try_op_def o op(1))
    show "ready (fst (h', w))" if "\<not> ok" using that op(2) \<open>ready h\<close> by simp
  qed
qed

lemma loop_total:
  assumes env: "env_keeps sys ready" and word: "mEfWordPtr ef \<noteq> 0" and "ready (fst s)"
    and "blocking_loop fuel wfuel sys pf ef op m shouldTimeOut timeout prev s = Some r"
  shows "\<exists>ok s'. r = Inr (ok, s')"
  using assms(3,4)
proof (induction fuel arbitrary: timeout prev s)
  case 0
  then show ?case by simp
next
  case (Suc fuel)
  obtain cur s1 where tick: "(if shouldTimeOut then elapsedRealtimeNano sys s else (prev, s)) = (cur, s1)"
    by (rule prod.exhaust)
  have P1: "ready (fst s1)"
    using tick env_keepsD(2) [OF env Suc.prems(1)] Suc.prems(1) by (cases shouldTimeOut) auto
  define left where "left = (if shouldTimeOut then timeout - (cur - prev) else timeout)"
  note run = Suc.prems(2) [unfolded blocking_loop_round [OF tick left_def]]
  show ?case
  proof (cases "shouldTimeOut \<and> left \<le> 0")
    case True
    then show ?thesis using run try_op_total [OF env P1] by (metis option.inject)
  next
    case False
    then obtain x where x: "wait wfuel sys pf ef m (Some 0) left True s1 = Some x"
      using run by (auto split: option.splits)
    obtain status v s2 where w: "x = Inr (status, Some v, s2)" and P2: "ready (fst s2)"
      using wait_keeps [OF env ready_flag_free word _ P1 x] by blast
    obtain ok s3 where try_op: "try_op sys op s2 = Inr (ok, s3)" "\<not> ok \<Longrightarrow> ready (fst s3)"
      using try_op_total [OF env P2] by blast
    from run [unfolded if_not_P [OF False] x w] try_op(1)
    have "(\<exists>ok. r = Inr (ok, s2) \<or> r = Inr (ok, s3)) \<or>
        (\<exists>u. (u = s2 \<or> u = s3 \<and> \<not> ok) \<and>
          blocking_loop fuel wfuel sys pf ef op m shouldTimeOut left cur u = Some r)"
      by (simp del: split_paired_Ex split: if_splits) metis+
    then show ?thesis using Suc.IH P2 try_op(2) by blast
  qed
qed

lemma blocking_total:
  assumes env: "env_keeps sys ready" and word: "mEfWordPtr ef \<noteq> 0" and P: "ready (fst s)"
    and run: "blocking fuel sys pf ef op waitMask wakeMask timeout s = Some r"
  shows "\<exists>ok s'. r = Inr (ok, s')"
proof -
  have notify: "\<exists>s'. notify sys pf ef wakeMask u = Inr (True, s')" for u
  proof -
    have "env_keeps sys (\<lambda>_. True)" "flag_free (\<lambda>_. True)"
      by (simp_all add: env_keeps_def flag_free_def)
    then obtain status s' where "wake sys pf ef wakeMask u = Inr (status, s')"
      using wake_keeps [of sys "\<lambda>_. True" ef u pf wakeMask] word by blast
    then show ?thesis by (simp add: notify_def)
  qed
  obtain ok s1 where t: "try_op sys op s = Inr (ok, s1)" "\<not> ok \<Longrightarrow> ready (fst s1)"
    using try_op_total [OF env P] by blast
  show ?thesis
  proof (cases ok)
    case True
    with run t(1) notify [of s1] show ?thesis by (auto simp: blocking_def)
  next
    case False
    obtain prev s2 where
      tick: "(if timeout \<noteq> 0 then elapsedRealtimeNano sys s1 else (0, s1)) = (prev, s2)"
      by (rule prod.exhaust)
    have P2: "ready (fst s2)"
      using tick t(2) [OF False] env_keepsD(2) [OF env t(2) [OF False]]
      by (cases "timeout = 0") auto
    from run False obtain x where
      x: "blocking_loop fuel fuel sys pf ef op waitMask (timeout \<noteq> 0) timeout prev s2 = Some x"
      and r: "r = bind_res x (\<lambda>(result, s3). if result then notify sys pf ef wakeMask s3
        else Inr (False, s3))"
      unfolding blocking_def t(1) Let_def sum.case prod.case tick by (auto split: option.splits)
    obtain ok' s3 where "x = Inr (ok', s3)" using loop_total [OF env word P2 x] by blast
    with r notify [of s3] show ?thesis by auto
  qed
qed

end

text \<open>Readiness of a write and of a read of a synchronized queue.\<close>

definition write_ready :: "MessageQueue \<Rightarrow> ptr \<Rightarrow> size_t \<Rightarrow> heap \<Rightarrow> bool" where
  "write_ready q data n h \<longleftrightarrow> sync_inv q h \<and> buffer_ok q data n \<and> write_room q h n"

definition read_ready :: "MessageQueue \<Rightarrow> ptr \<Rightarrow> size_t \<Rightarrow> heap \<Rightarrow> bool" where
  "read_ready q data n h \<longleftrightarrow> sync_inv q h \<and> buffer_ok q data n \<and> msg_bytes q n < 2 ^ 64"

interpretation write_attempt: attempt "\<lambda>h. fmq_write q h data n" "write_ready q data n"
  for q data n
proof
  show "\<exists>ok h'. fmq_write q h data n = Inr (ok, h') \<and> (\<not> ok \<longrightarrow> h' = h)"
    if "write_ready q data n h" for h
    using that fmq_write_put [of q h data n] by (auto simp: write_ready_def sync_inv_def)
  show "flag_free (write_ready q data n)"
    by (simp add: flag_free_def write_ready_def sync_inv_def mq_inv_def used_def write_room_def)
qed

interpretation read_attempt: attempt "\<lambda>h. fmq_read q h data n" "read_ready q data n"
  for q data n
proof
  show "\<exists>ok h'. fmq_read q h data n = Inr (ok, h') \<and> (\<not> ok \<longrightarrow> h' = h)"
    if "read_ready q data n h" for h
    using that fmq_read_get [of q h data n] by (auto simp: read_ready_def sync_inv_def)
  show "flag_free (read_ready q data n)"
    by (simp add: flag_free_def read_ready_def sync_inv_def mq_inv_def used_def)
qed

text \<open>An attempt that is \<open>able\<close> to go ahead succeeds.\<close>

locale able_attempt = attempt +
  fixes able :: "heap \<Rightarrow> bool"
  assumes able_succeeds: "able h \<Longrightarrow> \<exists>h'. op h = Inr (True, h')"
    and able_flag_free: "flag_free able"
begin

lemma woken_loop_succeeds:
  assumes wake: "wake sys pf ef m s = Inr (status, s1)" and bits: "m AND k \<noteq> 0"
    and kept: "bits_kept sys (mEfWordPtr ef) (m AND k)"
    and env: "env_keeps sys able" and able: "able (fst s1)"
  shows "\<exists>s'. blocking_loop (Suc fuel) (Suc wfuel) sys pf' ef op k False 0 prev s1 =
    Some (Inr (True, s'))"
proof -
  have some: "Some (0 :: u32) \<noteq> None" by simp
  obtain v s2 where w: "waitHelper sys pf' ef k (Some 0) 0 s1 = Inr (NO_ERROR, Some v, s2)"
    and v: "(m AND k) AND v = m AND k" "v AND NOT k = 0"
    using waitHelper_after_wake [OF wake bits kept some, of pf' 0] by blast
  have "m \<noteq> 0" using bits by auto
  then have word: "mEfWordPtr ef \<noteq> 0"
    using wake by (auto simp: wake_def atomic_fetch_or_def split: prod.splits)
  have able2: "able (fst s2)"
    using waitHelper_keeps [OF env able_flag_free word able some, of pf' k 0] w by force
  have "able (fst (others sys s2))" by (rule env_keepsD(1) [OF env able2])
  then obtain h' where "op (fst (others sys s2)) = Inr (True, h')" using able_succeeds by blast
  then have op: "try_op sys op s2 = Inr (True, (h', snd (others sys s2)))"
    by (cases "others sys s2") (simp add: try_op_def)
  have "wait (Suc wfuel) sys pf' ef k (Some 0) 0 True s1 = Some (Inr (NO_ERROR, Some v, s2))"
    using w by (simp add: wait_def wait_loop.simps(2) status_defs)
  moreover have "v AND k \<noteq> 0"
  proof
    assume "v AND k = 0"
    have "(m AND k) AND v = m AND (v AND k)" by (rule bit_eqI) (auto simp: bit_simps)
    with \<open>v AND k = 0\<close> v(1) bits show False by simp
  qed
  ultimately show ?thesis
    using op by (simp add: blocking_loop.simps(2) status_defs efBits_def)
qed

end

definition write_able :: "MessageQueue \<Rightarrow> ptr \<Rightarrow> size_t \<Rightarrow> heap \<Rightarrow> bool" where
  "write_able q data n h \<longleftrightarrow> write_ready q data n h \<and>
     used q h + msg_bytes q n \<le> unat (ring_size q)"

definition read_able :: "MessageQueue \<Rightarrow> ptr \<Rightarrow> size_t \<Rightarrow> heap \<Rightarrow> bool" where
  "read_able q data n h \<longleftrightarrow> read_ready q data n h \<and> msg_bytes q n \<le> used q h"

interpretation write_progress: able_attempt "\<lambda>h. fmq_write q h data n" "write_ready q data n"
  "write_able q data n" for q data n
proof
  show "\<exists>h'. fmq_write q h data n = Inr (True, h')" if "write_able q data n h" for h
    using that fmq_write_put [of q h data n]
    by (auto simp: write_able_def write_ready_def sync_inv_def fifo_put_def)
  show "flag_free (write_able q data n)"
    by (simp add: flag_free_def write_able_def write_ready_def sync_inv_def mq_inv_def used_def
        write_room_def)
qed

interpretation read_progress: able_attempt "\<lambda>h. fmq_read q h data n" "read_ready q data n"
  "read_able q data n" for q data n
proof
  show "\<exists>h'. fmq_read q h data n = Inr (True, h')" if "read_able q data n h" for h
    using that fmq_read_get [of q h data n]
    by (auto simp: read_able_def read_ready_def sync_inv_def fifo_get_def)
  show "flag_free (read_able q data n)"
    by (simp add: flag_free_def read_able_def read_ready_def sync_inv_def mq_inv_def used_def)
qed

section \<open>What the blocking calls guarantee\<close>

lemma getQuantumCount_wf:
  assumes "queue_wf q"
  shows "getQuantumCount q = Inr (ring_size q div sizeofT q)"
proof -
  obtain d where "mDesc q = Some d" "getSize d = ring_size q" "getQuantum d = sizeofT q"
    "sizeofT q \<noteq> 0"
    using assms by (rule queue_wfD) blast
  then show ?thesis by (simp add: getQuantumCount_def deref_desc_def)
qed

lemma quantum_refuses:
  assumes "queue_wf q"
  shows "count > ring_size q div sizeofT q \<longleftrightarrow> unat (ring_size q) < msg_bytes q count"
proof -
  have "sizeofT q \<noteq> 0" using assms by (rule queue_wfD)
  then show ?thesis by (simp add: div_less_iff msg_bytes_def)
qed

text \<open>
  C21: the arguments that no amount of waiting can serve are refused at once, before anything
  is attempted: no event flag, an empty mask to wait on, or more messages than the queue holds.
  The state of the queue and of the world is untouched.
\<close>

theorem blocking_calls_refuse:
  assumes "queue_wf q"
  shows "(pick_flag q evFlag = None \<or> readNotification = 0 \<or> msg_bytes q count > unat (ring_size q)
      \<longrightarrow> writeBlocking fuel sys pf q data count readNotification writeNotification timeout evFlag s =
        Some (Inr (False, s))) \<and>
    (pick_flag q evFlag = None \<or> writeNotification = 0 \<or> msg_bytes q count > unat (ring_size q)
      \<longrightarrow> readBlocking fuel sys pf q data count readNotification writeNotification timeout evFlag s =
        Some (Inr (False, s)))"
  using quantum_refuses [OF assms, of count]
  by (auto simp: writeBlocking_def readBlocking_def getQuantumCount_wf [OF assms]
      split: option.splits)


text \<open>The same of \<open>readBlocking\<close>.\<close>

lemma readBlocking_returns:
  assumes clock: "clock_advances sys now" and timed: "timeout \<noteq> 0" and fuel: "nat timeout < fuel"
    and env: "env_keeps sys (read_ready q data n)" and ready: "read_ready q data n (fst s)"
    and word: "\<And>ef. pick_flag q evFlag = Some ef \<Longrightarrow> mEfWordPtr ef \<noteq> nullptr"
  shows "\<exists>ok s'. readBlocking fuel sys pf q data n readNotification writeNotification timeout
    evFlag s = Some (Inr (ok, s'))"
proof -
  have wf: "queue_wf q" using ready mq_invD(1) by (auto simp: read_ready_def sync_inv_def)
  have "\<exists>ok s'. blocking fuel sys pf ef (\<lambda>h. fmq_read q h data n) writeNotification
      readNotification timeout s = Some (Inr (ok, s'))" if "pick_flag q evFlag = Some ef" for ef
    using blocking_timed_returns [OF clock timed fuel]
      read_attempt.blocking_total [OF env word [OF that] ready] by metis
  then show ?thesis
    by (simp add: readBlocking_def getQuantumCount_wf [OF wf] split: option.splits)
qed

text \<open>
  C20: true from \<open>writeBlocking\<close> means that the messages are in the queue and that the readers
  know: one attempt of \<open>fmq_write\<close> succeeded, and directly after it the write notification, if
  one was asked for, was delivered by \<open>wake\<close> on the flag that the call uses.
\<close>

theorem writeBlocking_success:
  assumes "writeBlocking fuel sys pf q data n readNotification writeNotification timeout evFlag s =
    Some (Inr (True, s'))"
  shows "\<exists>ef h h' w. pick_flag q evFlag = Some ef \<and> fmq_write q h data n = Inr (True, h') \<and>
    (if writeNotification = 0 then s' = (h', w)
     else \<exists>status. wake sys pf ef writeNotification (h', w) = Inr (status, s'))"
proof -
  obtain ef where ef: "pick_flag q evFlag = Some ef"
    and "blocking fuel sys pf ef (\<lambda>h. fmq_write q h data n) readNotification writeNotification
      timeout s = Some (Inr (True, s'))"
    using assms by (auto simp: writeBlocking_def split: option.splits sum.splits if_splits)
  then obtain s0 s1 where op: "try_op sys (\<lambda>h. fmq_write q h data n) s0 = Inr (True, s1)"
    and n: "notify sys pf ef writeNotification s1 = Inr (True, s')"
    using blocking_success by blast
  obtain h w where o: "others sys s0 = (h, w)" by (rule prod.exhaust)
  obtain h' where h': "fmq_write q h data n = Inr (True, h')" "s1 = (h', w)"
    using op by (auto simp: try_op_def o bind_res_eq_Inr)
  show ?thesis
    using ef h' notify_success(2,3) [OF n]
    by (intro exI [of _ ef] exI [of _ h] exI [of _ h'] exI [of _ w]) simp
qed

text \<open>
  No lost wake-up between the two sides. If the reader has called \<open>wake\<close> with a mask that
  shares a bit with the one a blocked writer waits on, and there is room for its messages, the
  writer leaves its loop in the next round with its messages written; and likewise for a
  blocked reader after the writer's wake.
\<close>

lemma woken_calls_complete:
  assumes "wake sys pf ef m s = Inr (status, s1)" and "m AND k \<noteq> 0"
    and "bits_kept sys (mEfWordPtr ef) (m AND k)"
  shows "(env_keeps sys (write_able q data n) \<and> write_able q data n (fst s1) \<longrightarrow>
      (\<exists>s'. blocking_loop (Suc fuel) (Suc wfuel) sys pf' ef (\<lambda>h. fmq_write q h data n) k False 0
        prev s1 = Some (Inr (True, s')))) \<and>
    (env_keeps sys (read_able q data n) \<and> read_able q data n (fst s1) \<longrightarrow>
      (\<exists>s'. blocking_loop (Suc fuel) (Suc wfuel) sys pf' ef (\<lambda>h. fmq_read q h data n) k False 0
        prev s1 = Some (Inr (True, s'))))"
  using write_progress.woken_loop_succeeds [OF assms] read_progress.woken_loop_succeeds [OF assms]
  by blast

end
