(* ===== verification/Queue_Atomic.thy ===== *)
theory Queue_Atomic
  imports Message_Queue
begin

text \<open>
  The reads and writes of a queue as programs over single accesses to memory. Each load and
  store of an atomic counter and each byte that \<open>memcpy\<close> moves is an action of its own, between
  which other threads may act. Run without interruption the programs are the calls of
  \<open>Message_Queue\<close>.
\<close>

section \<open>Programs\<close>

text \<open>
  A load hands the value that it finds to the rest of the program. \<open>Fail\<close> is an aborted check
  or undefined behaviour. The accesses to the counters are atomic and carry the
  \<open>std::memory_order\<close> that the code gives them. It has no effect when all memory is seen in one
  order, as in \<open>action\<close> below; \<open>Weak_Memory\<close> is where it matters.
\<close>

datatype memory_order = Relaxed | Acquire | Release

datatype 'a prog =
    Ret 'a
  | Fail failure
  | LoadC memory_order ptr "u64 \<Rightarrow> 'a prog"
  | StoreC memory_order ptr u64 "'a prog"
  | LoadB ptr "u8 \<Rightarrow> 'a prog"
  | StoreB ptr u8 "'a prog"

primrec bind_prog :: "'a prog \<Rightarrow> ('a \<Rightarrow> 'b prog) \<Rightarrow> 'b prog" where
  "bind_prog (Ret x) f = f x"
| "bind_prog (Fail e) f = Fail e"
| "bind_prog (LoadC mo p k) f = LoadC mo p (\<lambda>v. bind_prog (k v) f)"
| "bind_prog (StoreC mo p v k) f = StoreC mo p v (bind_prog k f)"
| "bind_prog (LoadB p k) f = LoadB p (\<lambda>b. bind_prog (k b) f)"
| "bind_prog (StoreB p b k) f = StoreB p b (bind_prog k f)"

definition of_res :: "'a res \<Rightarrow> 'a prog" where
  "of_res r = (case r of Inl e \<Rightarrow> Fail e | Inr x \<Rightarrow> Ret x)"

lemma of_res_simps [simp]: "of_res (Inl e) = Fail e" "of_res (Inr x) = Ret x"
  by (simp_all add: of_res_def)

definition set_byte :: "ptr \<Rightarrow> u8 \<Rightarrow> heap \<Rightarrow> heap" where
  "set_byte p b h = h\<lparr>bytes := (bytes h)(p := b)\<rparr>"

definition set_word64 :: "ptr \<Rightarrow> u64 \<Rightarrow> heap \<Rightarrow> heap" where
  "set_word64 p v h = h\<lparr>words64 := (words64 h)(p := v)\<rparr>"

text \<open>
  The next action of a program: what is left of it, and the memory afterwards. There is none if
  the program has returned or failed, or if it would use a null counter.
\<close>

fun action :: "'a prog \<Rightarrow> heap \<Rightarrow> ('a prog \<times> heap) option" where
  "action (Ret x) h = None"
| "action (Fail e) h = None"
| "action (LoadC mo p k) h = (if p = nullptr then None else Some (k (words64 h p), h))"
| "action (StoreC mo p v k) h = (if p = nullptr then None else Some (k, set_word64 p v h))"
| "action (LoadB p k) h = Some (k (bytes h p), h)"
| "action (StoreB p b k) h = Some (k, set_byte p b h)"

text \<open>What the next action touches, and with which order.\<close>

datatype access =
    CounterLoad memory_order ptr
  | CounterStore memory_order ptr
  | ByteLoad ptr
  | ByteStore ptr

fun next_access :: "'a prog \<Rightarrow> access option" where
  "next_access (Ret x) = None"
| "next_access (Fail e) = None"
| "next_access (LoadC mo p k) = Some (CounterLoad mo p)"
| "next_access (StoreC mo p v k) = Some (CounterStore mo p)"
| "next_access (LoadB p k) = Some (ByteLoad p)"
| "next_access (StoreB p b k) = Some (ByteStore p)"

text \<open>A program that runs alone.\<close>

primrec exec :: "'a prog \<Rightarrow> heap \<Rightarrow> ('a \<times> heap) res" where
  "exec (Ret x) h = Inr (x, h)"
| "exec (Fail e) h = Inl e"
| "exec (LoadC mo p k) h = (if p = nullptr then Inl Undefined else exec (k (words64 h p)) h)"
| "exec (StoreC mo p v k) h = (if p = nullptr then Inl Undefined else exec k (set_word64 p v h))"
| "exec (LoadB p k) h = exec (k (bytes h p)) h"
| "exec (StoreB p b k) h = exec k (set_byte p b h)"

section \<open>The calls\<close>

definition load64_prog :: "memory_order \<Rightarrow> ptr \<Rightarrow> u64 prog" where
  "load64_prog mo p = LoadC mo p Ret"

definition store64_prog :: "memory_order \<Rightarrow> ptr \<Rightarrow> u64 \<Rightarrow> unit prog" where
  "store64_prog mo p v = StoreC mo p v (Ret ())"

text \<open>\<open>memcpy\<close> moves one byte after the other; \<open>i\<close> counts those already moved.\<close>

primrec copy_bytes :: "nat \<Rightarrow> ptr \<Rightarrow> ptr \<Rightarrow> nat \<Rightarrow> unit prog" where
  "copy_bytes 0 dst src i = Ret ()"
| "copy_bytes (Suc k) dst src i =
     LoadB (src + of_nat i) (\<lambda>b. StoreB (dst + of_nat i) b (copy_bytes k dst src (Suc i)))"

definition memcpy_prog :: "ptr \<Rightarrow> ptr \<Rightarrow> size_t \<Rightarrow> unit prog" where
  "memcpy_prog dst src n =
     (if \<not> disjoint_ranges dst (unat n) src (unat n) then Fail Undefined
      else copy_bytes (unat n) dst src 0)"

definition copyFrom_prog ::
  "size_t \<Rightarrow> MemTransaction \<Rightarrow> ptr \<Rightarrow> size_t \<Rightarrow> size_t \<Rightarrow> bool prog" where
  "copyFrom_prog tsize tx data startIdx nMessages =
     (if data = nullptr then Ret False
      else case getMemRegionInfo tsize tx startIdx nMessages nullptr nullptr of
        None \<Rightarrow> Ret False
      | Some (firstReadCount, secondReadCount, firstBaseAddress, secondBaseAddress) \<Rightarrow>
          bind_prog (if firstReadCount \<noteq> 0
                     then memcpy_prog data firstBaseAddress (firstReadCount * tsize)
                     else Ret ()) (\<lambda>_.
          bind_prog (if secondReadCount \<noteq> 0
                     then memcpy_prog (data + firstReadCount * tsize) secondBaseAddress
                            (secondReadCount * tsize)
                     else Ret ()) (\<lambda>_.
          Ret True)))"

definition copyTo_prog ::
  "size_t \<Rightarrow> MemTransaction \<Rightarrow> ptr \<Rightarrow> size_t \<Rightarrow> size_t \<Rightarrow> bool prog" where
  "copyTo_prog tsize tx data startIdx nMessages =
     (if data = nullptr then Ret False
      else case getMemRegionInfo tsize tx startIdx nMessages nullptr nullptr of
        None \<Rightarrow> Ret False
      | Some (firstWriteCount, secondWriteCount, firstBaseAddress, secondBaseAddress) \<Rightarrow>
          bind_prog (if firstWriteCount \<noteq> 0
                     then memcpy_prog firstBaseAddress data (firstWriteCount * tsize)
                     else Ret ()) (\<lambda>_.
          bind_prog (if secondWriteCount \<noteq> 0
                     then memcpy_prog secondBaseAddress (data + firstWriteCount * tsize)
                            (secondWriteCount * tsize)
                     else Ret ()) (\<lambda>_.
          Ret True)))"

definition availableToReadBytes_prog :: "MessageQueue \<Rightarrow> size_t prog" where
  "availableToReadBytes_prog q =
     bind_prog (load64_prog Acquire (mWritePtr q)) (\<lambda>writePtr.
     bind_prog (load64_prog Acquire (mReadPtr q)) (\<lambda>readPtr.
     Ret (writePtr - readPtr)))"

definition availableToWrite_prog :: "MessageQueue \<Rightarrow> size_t prog" where
  "availableToWrite_prog q =
     bind_prog (of_res (deref_desc q)) (\<lambda>d.
     bind_prog (availableToReadBytes_prog q) (\<lambda>used.
     Ret ((getSize d - used) div sizeofT q)))"

definition beginWrite_prog ::
  "MessageQueue \<Rightarrow> size_t \<Rightarrow> MemTransaction \<Rightarrow> (bool \<times> MemTransaction) prog" where
  "beginWrite_prog q nMessages result =
     bind_prog (if flavor q = kSynchronizedReadWrite
                then bind_prog (availableToWrite_prog q) (\<lambda>n. Ret (n < nMessages))
                else Ret False) (\<lambda>noSpace.
     bind_prog (if noSpace then Ret True
                else bind_prog (of_res (getQuantumCount q)) (\<lambda>n. Ret (nMessages > n))) (\<lambda>refused.
     if refused then Ret (False, MemTransaction_default)
     else
       bind_prog (load64_prog Relaxed (mWritePtr q)) (\<lambda>writePtr.
       if writePtr mod sizeofT q \<noteq> 0 then Ret (False, result)
       else
         bind_prog (of_res (deref_desc q)) (\<lambda>d.
         if getSize d = 0 then Fail Undefined
         else
           let writeOffset = writePtr mod getSize d;
               contiguousMessages = (getSize d - writeOffset) div sizeofT q
           in if contiguousMessages < nMessages
              then Ret (True,
                \<lparr>first = \<lparr>address = mRing q + writeOffset, region_length = contiguousMessages\<rparr>,
                 second = \<lparr>address = mRing q, region_length = nMessages - contiguousMessages\<rparr>\<rparr>)
              else Ret (True,
                \<lparr>first = \<lparr>address = mRing q + writeOffset, region_length = nMessages\<rparr>,
                 second = MemRegion_default\<rparr>)))))"

definition commitWrite_prog :: "MessageQueue \<Rightarrow> size_t \<Rightarrow> bool prog" where
  "commitWrite_prog q nMessages =
     (let nBytesWritten = nMessages * sizeofT q in
      bind_prog (load64_prog Relaxed (mWritePtr q)) (\<lambda>writePtr.
      bind_prog (store64_prog Release (mWritePtr q) (writePtr + nBytesWritten)) (\<lambda>_.
      Ret True)))"

definition fmq_write_prog :: "MessageQueue \<Rightarrow> ptr \<Rightarrow> size_t \<Rightarrow> bool prog" where
  "fmq_write_prog q data nMessages =
     bind_prog (beginWrite_prog q nMessages MemTransaction_default) (\<lambda>(begun, tx).
     if \<not> begun then Ret False
     else
       bind_prog (copyTo_prog (sizeofT q) tx data 0 nMessages) (\<lambda>copied.
       if \<not> copied then Ret False
       else commitWrite_prog q nMessages))"

definition beginRead_prog :: "MessageQueue \<Rightarrow> size_t \<Rightarrow> (bool \<times> MemTransaction) prog" where
  "beginRead_prog q nMessages =
     (let result = MemTransaction_default in
      bind_prog (load64_prog Acquire (mWritePtr q)) (\<lambda>writePtr.
      bind_prog (load64_prog Relaxed (mReadPtr q)) (\<lambda>readPtr.
      if writePtr mod sizeofT q \<noteq> 0 \<or> readPtr mod sizeofT q \<noteq> 0 then Ret (False, result)
      else
        bind_prog (of_res (deref_desc q)) (\<lambda>d.
        if writePtr - readPtr > getSize d then
          bind_prog (store64_prog Release (mReadPtr q) writePtr) (\<lambda>_. Ret (False, result))
        else
          let nBytesDesired = nMessages * sizeofT q in
          if writePtr - readPtr < nBytesDesired then Ret (False, result)
          else if getSize d = 0 then Fail Undefined
          else
            let readOffset = readPtr mod getSize d;
                contiguousMessages = (getSize d - readOffset) div sizeofT q
            in if contiguousMessages < nMessages
               then Ret (True,
                 \<lparr>first = \<lparr>address = mRing q + readOffset, region_length = contiguousMessages\<rparr>,
                  second = \<lparr>address = mRing q,
                            region_length = nMessages - contiguousMessages\<rparr>\<rparr>)
               else Ret (True,
                 \<lparr>first = \<lparr>address = mRing q + readOffset, region_length = nMessages\<rparr>,
                  second = MemRegion_default\<rparr>)))))"

definition commitRead_prog :: "MessageQueue \<Rightarrow> size_t \<Rightarrow> bool prog" where
  "commitRead_prog q nMessages =
     bind_prog (load64_prog Relaxed (mReadPtr q)) (\<lambda>readPtr.
     bind_prog (load64_prog Acquire (mWritePtr q)) (\<lambda>writePtr.
     bind_prog (of_res (deref_desc q)) (\<lambda>d.
     if writePtr - readPtr > getSize d then
       bind_prog (store64_prog Release (mReadPtr q) writePtr) (\<lambda>_. Ret False)
     else
       let nBytesRead = nMessages * sizeofT q in
       bind_prog (store64_prog Release (mReadPtr q) (readPtr + nBytesRead)) (\<lambda>_. Ret True))))"

definition fmq_read_prog :: "MessageQueue \<Rightarrow> ptr \<Rightarrow> size_t \<Rightarrow> bool prog" where
  "fmq_read_prog q data nMessages =
     bind_prog (beginRead_prog q nMessages) (\<lambda>(begun, tx).
     if \<not> begun then Ret False
     else
       bind_prog (copyFrom_prog (sizeofT q) tx data 0 nMessages) (\<lambda>copied.
       if \<not> copied then Ret False
       else commitRead_prog q nMessages))"

section \<open>Running alone\<close>

lemma bind_res_assoc: "bind_res (bind_res m f) g = bind_res m (\<lambda>x. bind_res (f x) g)"
  by (cases m) simp_all

lemma exec_bind:
  "exec (bind_prog m f) h = bind_res (exec m h) (\<lambda>(x, h'). exec (f x) h')"
  by (induction m arbitrary: h) simp_all

lemma exec_load64: "exec (load64_prog mo p) h = bind_res (load64 h p) (\<lambda>v. Inr (v, h))"
  by (simp add: load64_prog_def load64_def)

lemma exec_store64: "exec (store64_prog mo p v) h = bind_res (store64 h p v) (\<lambda>h'. Inr ((), h'))"
  by (simp add: store64_prog_def store64_def set_word64_def)

lemma exec_of_res: "exec (of_res r) h = bind_res r (\<lambda>x. Inr (x, h))"
  by (cases r) simp_all

text \<open>The bytes moved one by one are those moved at once.\<close>

lemma exec_copy_bytes:
  assumes "disjoint_ranges dst n src n" and "i + k \<le> n" and "n < 18446744073709551616"
  shows "exec (copy_bytes k dst src i) h = Inr ((), h\<lparr>bytes := (\<lambda>a.
    if i \<le> unat (a - dst) \<and> unat (a - dst) < i + k then bytes h (src + (a - dst)) else bytes h a)\<rparr>)"
  using assms(2)
proof (induction k arbitrary: i h)
  case 0
  have "(\<lambda>a. if i \<le> unat (a - dst) \<and> unat (a - dst) < i then bytes h (src + (a - dst))
      else bytes h a) = bytes h"
    by (rule ext) auto
  then show ?case by simp
next
  case (Suc k)
  let ?b = "bytes h (src + of_nat i)"
  let ?h = "set_byte (dst + of_nat i) ?b h"
  have i: "i < 18446744073709551616" using Suc.prems assms(3) by linarith
  have src: "bytes ?h (src + (a - dst)) = bytes h (src + (a - dst))" if "unat (a - dst) < n" for a
  proof -
    have "dst + of_nat i \<noteq> src + of_nat (unat (a - dst))"
      by (rule disjoint_ranges_neq [OF assms(1)]) (use Suc.prems that in linarith)+
    then show ?thesis by (simp add: set_byte_def)
  qed
  have at: "a = dst + of_nat i" if "unat (a - dst) = i" for a
    using that by (metis add.commute diff_add_cancel word_of_nat_unat)
  have "exec (copy_bytes (Suc k) dst src i) h = exec (copy_bytes k dst src (Suc i)) ?h" by simp
  also have "\<dots> = Inr ((), ?h\<lparr>bytes := (\<lambda>a. if Suc i \<le> unat (a - dst) \<and> unat (a - dst) < Suc i + k
    then bytes ?h (src + (a - dst)) else bytes ?h a)\<rparr>)"
    using Suc by simp
  also have "\<dots> = Inr ((), h\<lparr>bytes := (\<lambda>a. if i \<le> unat (a - dst) \<and> unat (a - dst) < i + Suc k
    then bytes h (src + (a - dst)) else bytes h a)\<rparr>)"
  proof -
    have "(if Suc i \<le> unat (a - dst) \<and> unat (a - dst) < Suc i + k
        then bytes ?h (src + (a - dst)) else bytes ?h a) =
      (if i \<le> unat (a - dst) \<and> unat (a - dst) < i + Suc k
        then bytes h (src + (a - dst)) else bytes h a)" for a
    proof (cases "unat (a - dst) = i")
      case True
      then have "a = dst + of_nat i" by (rule at)
      then have "a - dst = of_nat i" and "bytes ?h a = ?b" by (simp_all add: set_byte_def)
      with True show ?thesis by simp
    next
      case False
      then have "a \<noteq> dst + of_nat i" using i by auto
      with False src Suc.prems show ?thesis by (auto simp: set_byte_def)
    qed
    then show ?thesis by (simp add: set_byte_def)
  qed
  finally show ?case .
qed

lemma exec_memcpy: "exec (memcpy_prog dst src n) h = bind_res (memcpy h dst src n) (\<lambda>h'. Inr ((), h'))"
proof (cases "disjoint_ranges dst (unat n) src (unat n)")
  case True
  then show ?thesis
    using exec_copy_bytes [OF True, of 0 "unat n" h]
    by (simp add: memcpy_prog_def memcpy_def word_less_nat_alt)
qed (simp add: memcpy_prog_def memcpy_def)

lemma exec_if: "exec (if b then p else r) h = (if b then exec p h else exec r h)"
  by simp

lemmas exec_simps = bind_res_assoc bind_res_if exec_if exec_bind exec_load64 exec_store64
  exec_of_res exec_memcpy

lemma exec_copyFrom:
  "exec (copyFrom_prog tsize tx data startIdx n) h = copyFrom tsize tx h data startIdx n"
  unfolding copyFrom_prog_def copyFrom_def
  by (auto simp: exec_simps split: option.splits)

lemma exec_copyTo:
  "exec (copyTo_prog tsize tx data startIdx n) h = copyTo tsize tx h data startIdx n"
  unfolding copyTo_prog_def copyTo_def
  by (auto simp: exec_simps split: option.splits)

lemma exec_availableToWrite:
  "exec (availableToWrite_prog q) h = bind_res (availableToWrite q h) (\<lambda>n. Inr (n, h))"
  by (simp add: availableToWrite_prog_def availableToReadBytes_prog_def availableToWrite_def
      availableToWriteBytes_def availableToReadBytes_def exec_simps)

lemma exec_beginWrite:
  "exec (beginWrite_prog q n tx) h = bind_res (beginWrite q h n tx) (\<lambda>r. Inr (r, h))"
  by (simp add: beginWrite_prog_def beginWrite_def exec_simps exec_availableToWrite Let_def
      cong: if_cong)

lemma exec_commitWrite: "exec (commitWrite_prog q n) h = commitWrite q h n"
  by (simp add: commitWrite_prog_def commitWrite_def exec_simps)

lemma exec_beginRead:
  "exec (beginRead_prog q n) h = bind_res (beginRead q h n) (\<lambda>(ok, tx, h'). Inr ((ok, tx), h'))"
  by (simp add: beginRead_prog_def beginRead_def exec_simps Let_def cong: if_cong)

lemma exec_commitRead: "exec (commitRead_prog q n) h = commitRead q h n"
  by (simp add: commitRead_prog_def commitRead_def exec_simps Let_def cong: if_cong)

lemma exec_fmq_write: "exec (fmq_write_prog q data n) h = fmq_write q h data n"
  by (simp add: fmq_write_prog_def fmq_write_def exec_simps exec_beginWrite exec_copyTo
      exec_commitWrite split_def cong: if_cong)

lemma exec_fmq_read: "exec (fmq_read_prog q data n) h = fmq_read q h data n"
  by (simp add: fmq_read_prog_def fmq_read_def exec_simps exec_beginRead exec_copyFrom
      exec_commitRead split_def cong: if_cong)

text \<open>
  C11: the programs of single accesses are the calls. Run without interruption, the program of a
  write or of a read, with its loads, its stores and its bytes moved one by one, ends with the
  same result and the same memory as the call, and fails exactly if the call fails.
\<close>

theorem calls_are_their_accesses:
  "exec (fmq_write_prog q data n) h = fmq_write q h data n \<and>
   exec (fmq_read_prog q data n) h = fmq_read q h data n"
  by (simp add: exec_fmq_write exec_fmq_read)

end
