(* ===== verification/Rely_Guarantee.thy ===== *)
theory Rely_Guarantee
  imports Queue_Atomic
begin

text \<open>
  Rely-guarantee reasoning over the programs of \<open>Queue_Atomic\<close>: what a program is sure to do
  while other threads change memory between its accesses.
\<close>

section \<open>The condition\<close>

text \<open>
  \<open>rg R G p Q b h\<close>: started in memory \<open>h\<close>, and with others changing memory by \<open>R\<close> before every
  access, \<open>p\<close> never fails, each of its accesses is one that \<open>G\<close> allows, with the memory before
  and after it, and when \<open>p\<close> returns, \<open>Q\<close> holds. The flag \<open>b\<close> says whether a counter has been
  stored to so far.
\<close>

primrec rg :: "(heap \<Rightarrow> heap \<Rightarrow> bool) \<Rightarrow> (access \<Rightarrow> heap \<Rightarrow> heap \<Rightarrow> bool) \<Rightarrow> 'a prog \<Rightarrow>
    ('a \<Rightarrow> bool \<Rightarrow> heap \<Rightarrow> bool) \<Rightarrow> bool \<Rightarrow> heap \<Rightarrow> bool" where
  "rg R G (Ret x) Q b h = (\<forall>h'. R h h' \<longrightarrow> Q x b h')"
| "rg R G (Fail e) Q b h = False"
| "rg R G (LoadC mo p k) Q b h =
     (\<forall>h'. R h h' \<longrightarrow> p \<noteq> nullptr \<and> G (CounterLoad mo p) h' h' \<and> rg R G (k (words64 h' p)) Q b h')"
| "rg R G (StoreC mo p v k) Q b h =
     (\<forall>h'. R h h' \<longrightarrow> p \<noteq> nullptr \<and> G (CounterStore mo p) h' (set_word64 p v h') \<and>
        rg R G k Q True (set_word64 p v h'))"
| "rg R G (LoadB p k) Q b h =
     (\<forall>h'. R h h' \<longrightarrow> G (ByteLoad p) h' h' \<and> rg R G (k (bytes h' p)) Q b h')"
| "rg R G (StoreB p v k) Q b h =
     (\<forall>h'. R h h' \<longrightarrow> G (ByteStore p) h' (set_byte p v h') \<and> rg R G k Q b (set_byte p v h'))"

lemma rg_environment: "transp R \<Longrightarrow> rg R G p Q b h \<Longrightarrow> R h h' \<Longrightarrow> rg R G p Q b h'"
  by (cases p) (auto dest: transpD)

text \<open>
  What the next action does, for a program that satisfies its condition. \<open>cell\<close> is the counter
  that an access stores to, if it does.
\<close>

definition cell :: "access \<Rightarrow> ptr option" where
  "cell a = (case a of CounterStore mo p \<Rightarrow> Some p | _ \<Rightarrow> None)"

lemma cell_simps [simp]:
  "cell (CounterLoad mo p) = None" "cell (CounterStore mo p) = Some p"
  "cell (ByteLoad p) = None" "cell (ByteStore p) = None"
  by (simp_all add: cell_def)

definition stores :: "'a prog \<Rightarrow> ptr option" where
  "stores p = (case p of StoreC mo a v k \<Rightarrow> Some a | _ \<Rightarrow> None)"

lemma rg_action:
  assumes "rg R G p Q b h" and "reflp R" and "action p h = Some (p', h')"
  obtains a where "next_access p = Some a" and "cell a = stores p" and "G a h h'"
    and "rg R G p' Q (b \<or> stores p \<noteq> None) h'"
proof -
  have "R h h" using assms(2) by (rule reflpD)
  with assms(1,3) have "\<exists>a. next_access p = Some a \<and> cell a = stores p \<and> G a h h' \<and>
      rg R G p' Q (b \<or> stores p \<noteq> None) h'"
    by (cases p) (auto simp: stores_def split: if_splits)
  then show ?thesis using that by blast
qed

lemma rg_proceeds:
  assumes "rg R G p Q b h" and "reflp R"
  shows "(\<exists>x. p = Ret x \<and> Q x b h) \<or> (\<exists>p' h'. action p h = Some (p', h'))"
proof -
  have "R h h" using assms(2) by (rule reflpD)
  with assms(1) show ?thesis by (cases p) auto
qed

section \<open>Composition\<close>

lemma rg_mono:
  "rg R G p Q b h \<Longrightarrow> (\<And>x b h. Q x b h \<Longrightarrow> Q' x b h) \<Longrightarrow> rg R G p Q' b h"
  by (induction p arbitrary: b h) auto

lemma rg_bind:
  assumes "reflp R"
  shows "rg R G m (\<lambda>x b' h'. rg R G (f x) Q b' h') b h \<Longrightarrow> rg R G (bind_prog m f) Q b h"
  by (induction m arbitrary: b h) (auto simp: reflpD [OF assms])

text \<open>
  A condition that the others respect is carried from access to access, so that each access is
  looked at in the memory it meets.
\<close>

definition stable :: "(heap \<Rightarrow> heap \<Rightarrow> bool) \<Rightarrow> (heap \<Rightarrow> bool) \<Rightarrow> bool" where
  "stable R P \<longleftrightarrow> (\<forall>h h'. P h \<longrightarrow> R h h' \<longrightarrow> P h')"

lemma stableD: "stable R P \<Longrightarrow> P h \<Longrightarrow> R h h' \<Longrightarrow> P h'"
  by (auto simp: stable_def)

lemma rg_ret:
  "stable R P \<Longrightarrow> P h \<Longrightarrow> (\<And>h'. P h' \<Longrightarrow> Q x b h') \<Longrightarrow> rg R G (Ret x) Q b h"
  by (auto simp: stable_def)

lemma rg_load:
  "stable R P \<Longrightarrow> P h \<Longrightarrow> p \<noteq> nullptr \<Longrightarrow>
     (\<And>h'. P h' \<Longrightarrow> G (CounterLoad mo p) h' h') \<Longrightarrow>
     (\<And>h'. P h' \<Longrightarrow> rg R G (k (words64 h' p)) Q b h') \<Longrightarrow> rg R G (LoadC mo p k) Q b h"
  by (auto simp: stable_def)

lemma rg_store:
  "stable R P \<Longrightarrow> P h \<Longrightarrow> p \<noteq> nullptr \<Longrightarrow>
     (\<And>h'. P h' \<Longrightarrow> G (CounterStore mo p) h' (set_word64 p v h') \<and>
        rg R G k Q True (set_word64 p v h')) \<Longrightarrow>
     rg R G (StoreC mo p v k) Q b h"
  by (auto simp: stable_def)

section \<open>Copies\<close>

text \<open>
  The copy of one stretch of bytes is part of a longer transfer: byte \<open>c\<close> of the transfer goes
  from \<open>src_at c\<close> to \<open>dst_at c\<close> and has the value \<open>val c\<close>; \<open>J c\<close> holds when \<open>c\<close> bytes have
  been moved.
\<close>

lemma rg_copy:
  assumes stable: "\<And>c. stable R (J c)"
    and addr: "\<And>i. i < K \<Longrightarrow> dst + of_nat i = dst_at (base + i) \<and> src + of_nat i = src_at (base + i)"
    and step: "\<And>c h. c < M \<Longrightarrow> J c h \<Longrightarrow> bytes h (src_at c) = val c \<and>
      G (ByteLoad (src_at c)) h h \<and> G (ByteStore (dst_at c)) h (set_byte (dst_at c) (val c) h) \<and>
      J (Suc c) (set_byte (dst_at c) (val c) h)"
    and le: "base + K \<le> M"
  shows "i + k = K \<Longrightarrow> J (base + i) h \<Longrightarrow>
    rg R G (copy_bytes k dst src i) (\<lambda>_ b' h'. b' = b \<and> J (base + K) h') b h"
proof (induction k arbitrary: i h)
  case 0
  then show ?case using stable by (auto simp: stable_def)
next
  case (Suc k)
  then have i: "i < K" by simp
  then have c: "base + i < M" using le by linarith
  note at = addr [OF i]
  have "G (ByteLoad (src + of_nat i)) h1 h1 \<and>
      rg R G (StoreB (dst + of_nat i) (bytes h1 (src + of_nat i)) (copy_bytes k dst src (Suc i)))
        (\<lambda>_ b' h'. b' = b \<and> J (base + K) h') b h1" if h1: "R h h1" for h1
  proof -
    have J1: "J (base + i) h1" by (rule stableD [OF stable Suc.prems(2) h1])
    then have v: "bytes h1 (src_at (base + i)) = val (base + i)" "G (ByteLoad (src_at (base + i))) h1 h1"
      using step [OF c] by simp_all
    have "G (ByteStore (dst_at (base + i))) h2 (set_byte (dst_at (base + i)) (val (base + i)) h2) \<and>
        rg R G (copy_bytes k dst src (Suc i)) (\<lambda>_ b' h'. b' = b \<and> J (base + K) h') b
          (set_byte (dst_at (base + i)) (val (base + i)) h2)" if h2: "R h1 h2" for h2
      using step [OF c stableD [OF stable J1 h2]] Suc.IH [of "Suc i"] Suc.prems(1) by simp
    then show ?thesis by (simp add: v at)
  qed
  then show ?case by simp
qed

text \<open>A transfer in two pieces, as every copy between a buffer and a transaction is.\<close>

definition two_piece_copy :: "ptr \<Rightarrow> ptr \<Rightarrow> nat \<Rightarrow> ptr \<Rightarrow> ptr \<Rightarrow> nat \<Rightarrow> bool prog" where
  "two_piece_copy d1 s1 k1 d2 s2 k2 =
     bind_prog (copy_bytes k1 d1 s1 0) (\<lambda>_. bind_prog (copy_bytes k2 d2 s2 0) (\<lambda>_. Ret True))"

lemma rg_two_piece_copy:
  assumes refl: "reflp R" and stable: "\<And>c. stable R (J c)"
    and addr1: "\<And>i. i < k1 \<Longrightarrow> d1 + of_nat i = dst_at i \<and> s1 + of_nat i = src_at i"
    and addr2: "\<And>i. i < k2 \<Longrightarrow> d2 + of_nat i = dst_at (k1 + i) \<and> s2 + of_nat i = src_at (k1 + i)"
    and step: "\<And>c h. c < k1 + k2 \<Longrightarrow> J c h \<Longrightarrow> bytes h (src_at c) = val c \<and>
      G (ByteLoad (src_at c)) h h \<and> G (ByteStore (dst_at c)) h (set_byte (dst_at c) (val c) h) \<and>
      J (Suc c) (set_byte (dst_at c) (val c) h)"
    and start: "J 0 h"
  shows "rg R G (two_piece_copy d1 s1 k1 d2 s2 k2) (\<lambda>x b' h'. x \<and> b' = b \<and> J (k1 + k2) h') b h"
proof -
  have one: "rg R G (copy_bytes k1 d1 s1 0) (\<lambda>_ b' h'. b' = b \<and> J k1 h') b h"
    using rg_copy [where J = J and base = 0 and K = k1 and M = "k1 + k2" and i = 0 and k = k1
        and dst_at = dst_at and src_at = src_at and val = val and G = G, OF stable _ step] addr1 start
    by simp
  have two: "rg R G (copy_bytes k2 d2 s2 0) (\<lambda>_ b' h'. b' = b \<and> J (k1 + k2) h') b h1"
    if "J k1 h1" for h1
    using rg_copy [where J = J and base = k1 and K = k2 and M = "k1 + k2" and i = 0 and k = k2
        and dst_at = dst_at and src_at = src_at and val = val and G = G, OF stable addr2 step] that
    by simp
  have last: "rg R G (Ret True) (\<lambda>x b' h'. x \<and> b' = b \<and> J (k1 + k2) h') b h1"
    if "J (k1 + k2) h1" for h1
    using that by (intro rg_ret [OF stable]) auto
  have rest: "rg R G (bind_prog (copy_bytes k2 d2 s2 0) (\<lambda>_. Ret True))
      (\<lambda>x b' h'. x \<and> b' = b \<and> J (k1 + k2) h') b h1" if "J k1 h1" for h1
    by (rule rg_bind [OF refl], rule rg_mono [OF two [OF that]]) (elim conjE, simp only: last)
  show ?thesis
    unfolding two_piece_copy_def
    by (rule rg_bind [OF refl], rule rg_mono [OF one]) (elim conjE, simp only: rest)
qed

text \<open>The two copies of the code have this shape.\<close>

lemma copyTo_prog_shape:
  assumes ok: "tx_ok z tx" and fits: "unat n \<le> tx_length tx" and data: "data \<noteq> 0"
    and apart: "buffer_apart z tx data (unat n * unat z)"
    and k1: "k1 = first_part tx 0 (unat n) * unat z"
    and k2: "k2 = (unat n - first_part tx 0 (unat n)) * unat z"
  shows "copyTo_prog z tx data 0 n =
    two_piece_copy (piece1 z tx 0) data k1 (piece2 z tx 0) (data + of_nat k1) k2"
proof -
  have fits0: "unat (0 :: size_t) + unat n \<le> tx_length tx" using fits by simp
  obtain c1 c2 b1 b2 where info: "getMemRegionInfo z tx 0 n 0 0 = Some (c1, c2, b1, b2)"
    and b: "c1 \<noteq> 0 \<longrightarrow> b1 = piece1 z tx 0" "c2 \<noteq> 0 \<longrightarrow> b2 = piece2 z tx 0"
    and n: "unat (c1 * z) = k1" "unat (c2 * z) = k2" and off: "c1 * z = of_nat k1"
    unfolding k1 k2 by (rule getMemRegionInfo_bytes [OF ok fits0, unfolded unat_0])
  note dis = pieces_disjoint [of z tx 0 "unat n" data, OF ok _ apart, folded k1 k2]
  have "disjoint_ranges (piece1 z tx 0) k1 data k1"
    and "disjoint_ranges (piece2 z tx 0) k2 (data + of_nat k1) k2"
    using dis(1,2) fits by (simp_all add: disjoint_ranges_sym)
  moreover have "c1 = 0 \<Longrightarrow> k1 = 0" "c2 = 0 \<Longrightarrow> k2 = 0" using n by auto
  ultimately show ?thesis
    using data b
    by (cases "c1 = 0"; cases "c2 = 0")
      (simp_all add: copyTo_prog_def info two_piece_copy_def memcpy_prog_def n off n(1) [unfolded off])
qed

lemma copyFrom_prog_shape:
  assumes ok: "tx_ok z tx" and fits: "unat n \<le> tx_length tx" and data: "data \<noteq> 0"
    and apart: "buffer_apart z tx data (unat n * unat z)"
    and k1: "k1 = first_part tx 0 (unat n) * unat z"
    and k2: "k2 = (unat n - first_part tx 0 (unat n)) * unat z"
  shows "copyFrom_prog z tx data 0 n =
    two_piece_copy data (piece1 z tx 0) k1 (data + of_nat k1) (piece2 z tx 0) k2"
proof -
  have fits0: "unat (0 :: size_t) + unat n \<le> tx_length tx" using fits by simp
  obtain c1 c2 b1 b2 where info: "getMemRegionInfo z tx 0 n 0 0 = Some (c1, c2, b1, b2)"
    and b: "c1 \<noteq> 0 \<longrightarrow> b1 = piece1 z tx 0" "c2 \<noteq> 0 \<longrightarrow> b2 = piece2 z tx 0"
    and n: "unat (c1 * z) = k1" "unat (c2 * z) = k2" and off: "c1 * z = of_nat k1"
    unfolding k1 k2 by (rule getMemRegionInfo_bytes [OF ok fits0, unfolded unat_0])
  note dis = pieces_disjoint [of z tx 0 "unat n" data, OF ok _ apart, folded k1 k2]
  have "disjoint_ranges data k1 (piece1 z tx 0) k1"
    and "disjoint_ranges (data + of_nat k1) k2 (piece2 z tx 0) k2"
    using dis(1,2) fits by simp_all
  moreover have "c1 = 0 \<Longrightarrow> k1 = 0" "c2 = 0 \<Longrightarrow> k2 = 0" using n by auto
  ultimately show ?thesis
    using data b
    by (cases "c1 = 0"; cases "c2 = 0")
      (simp_all add: copyFrom_prog_def info two_piece_copy_def memcpy_prog_def n off n(1) [unfolded off])
qed

end
