(* ===== verification/Queue_Concurrency.thy ===== *)
theory Queue_Concurrency
  imports Queue_Channel
begin

text \<open>
  One writer and one reader at work on a synchronized queue at the same time. A call of the
  code has three parts that touch shared memory (\<open>beginWrite\<close>, \<open>copyTo\<close>, \<open>commitWrite\<close>, and
  the same for reading) and each part meets the other side in one atomic load or store, or
  only in the bytes of the ring; the parts of the two sides interleave in any order. The same
  steps are those of the zero-copy interface, which hands the transaction to the client
  between begin and commit.
\<close>

section \<open>The two sides\<close>

text \<open>
  \<open>WCopied\<close> and \<open>RCopied\<close> keep, beside the message count, the bytes that were copied; the
  code has no such field, they only name what a later commit publishes or retires.
\<close>

datatype writer = WIdle | WBegun size_t MemTransaction | WCopied size_t "u8 list"
datatype reader = RIdle | RBegun size_t MemTransaction | RCopied size_t "u8 list"

record spsc =
  mem :: heap
  writer :: writer
  reader :: reader

inductive spsc_step :: "MessageQueue \<Rightarrow> spsc \<Rightarrow> u8 list \<Rightarrow> u8 list \<Rightarrow> spsc \<Rightarrow> bool" for q where
  begin_write: "writer s = WIdle \<Longrightarrow> write_room q (mem s) n \<Longrightarrow>
    beginWrite q (mem s) n MemTransaction_default = Inr (ok, tx) \<Longrightarrow>
    spsc_step q s [] [] (s\<lparr>writer := if ok then WBegun n tx else WIdle\<rparr>)"
| copy_in: "writer s = WBegun n tx \<Longrightarrow> buffer_ok q data n \<Longrightarrow>
    copyTo (sizeofT q) tx (mem s) data 0 n = Inr (ok, h') \<Longrightarrow>
    spsc_step q s [] [] (s\<lparr>mem := h', writer :=
      if ok then WCopied n (mem_bytes (mem s) data (msg_bytes q n)) else WIdle\<rparr>)"
| commit_write: "writer s = WCopied n new \<Longrightarrow> commitWrite q (mem s) n = Inr (ok, h') \<Longrightarrow>
    spsc_step q s (if ok then new else []) [] (s\<lparr>mem := h', writer := WIdle\<rparr>)"
| begin_read: "reader s = RIdle \<Longrightarrow> msg_bytes q n < 2 ^ 64 \<Longrightarrow>
    beginRead q (mem s) n = Inr (ok, tx, h') \<Longrightarrow>
    spsc_step q s [] [] (s\<lparr>mem := h', reader := if ok then RBegun n tx else RIdle\<rparr>)"
| copy_out: "reader s = RBegun n tx \<Longrightarrow> buffer_ok q data n \<Longrightarrow>
    copyFrom (sizeofT q) tx (mem s) data 0 n = Inr (ok, h') \<Longrightarrow>
    spsc_step q s [] [] (s\<lparr>mem := h', reader :=
      if ok then RCopied n (mem_bytes h' data (msg_bytes q n)) else RIdle\<rparr>)"
| commit_read: "reader s = RCopied n got \<Longrightarrow> commitRead q (mem s) n = Inr (ok, h') \<Longrightarrow>
    spsc_step q s [] (if ok then got else []) (s\<lparr>mem := h', reader := RIdle\<rparr>)"
| client: "client_change q (mem s) h' \<Longrightarrow> spsc_step q s [] [] (s\<lparr>mem := h'\<rparr>)"

inductive_cases spsc_stepE: "spsc_step q s sent recv s'"

section \<open>The invariant\<close>

text \<open>The space that a writer has found stays free until it commits.\<close>

definition writable :: "MessageQueue \<Rightarrow> heap \<Rightarrow> size_t \<Rightarrow> bool" where
  "writable q h n \<longleftrightarrow> used q h + msg_bytes q n \<le> unat (ring_size q) \<and>
     no_seam (ring_size q) (readCtr q h) (used q h + msg_bytes q n)"

fun writer_ok :: "MessageQueue \<Rightarrow> heap \<Rightarrow> writer \<Rightarrow> bool" where
  "writer_ok q h WIdle \<longleftrightarrow> True"
| "writer_ok q h (WBegun n tx) \<longleftrightarrow>
     tx = ring_tx q (ring_size q) (writeCtr q h) n \<and> writable q h n"
| "writer_ok q h (WCopied n new) \<longleftrightarrow> writable q h n \<and>
     new = ring_bytes h (mRing q) (ring_size q) (writeCtr q h) (msg_bytes q n)"

fun reader_ok :: "MessageQueue \<Rightarrow> heap \<Rightarrow> reader \<Rightarrow> bool" where
  "reader_ok q h RIdle \<longleftrightarrow> True"
| "reader_ok q h (RBegun n tx) \<longleftrightarrow>
     tx = ring_tx q (ring_size q) (readCtr q h) n \<and> msg_bytes q n \<le> used q h"
| "reader_ok q h (RCopied n got) \<longleftrightarrow>
     msg_bytes q n \<le> used q h \<and> got = take (msg_bytes q n) (contents q h)"

definition spsc_inv :: "MessageQueue \<Rightarrow> spsc \<Rightarrow> bool" where
  "spsc_inv q s \<longleftrightarrow> sync_inv q (mem s) \<and>
     writer_ok q (mem s) (writer s) \<and> reader_ok q (mem s) (reader s)"

lemma spsc_invD:
  assumes "spsc_inv q s"
  shows "mq_inv q (mem s)" and "sync_inv q (mem s)" and "flavor q = kSynchronizedReadWrite"
    and "writer_ok q (mem s) (writer s)" and "reader_ok q (mem s) (reader s)"
    and "queue_wf q" and "ring_size q \<noteq> 0"
  using assms by (auto simp: spsc_inv_def sync_inv_def mq_inv_def elim: queue_wfD)

section \<open>What each part needs of memory\<close>

text \<open>Changes outside the ring and the counters disturb neither side.\<close>

lemma writer_ok_frame:
  assumes "client_change q h h'" and "mq_inv q h" and "writer_ok q h w"
  shows "writer_ok q h' w"
proof -
  note fr = client_change_frame [OF assms(1,2)]
  have ctr: "readCtr q h' = readCtr q h" "writeCtr q h' = writeCtr q h"
    using assms(1) by (simp_all add: client_change_def)
  have "ring_size q \<noteq> 0" using mq_invD(1) [OF assms(2)] by (rule queue_wfD)
  note ring = ring_bytes_frame [OF assms(1) this]
  show ?thesis
    using assms(3) by (cases w) (auto simp: writable_def fr(3) ctr ring ring_bytes_def)
qed

lemma reader_ok_frame:
  assumes "client_change q h h'" and "mq_inv q h" and "reader_ok q h r"
  shows "reader_ok q h' r"
proof -
  have "readCtr q h' = readCtr q h" using assms(1) by (simp add: client_change_def)
  with assms(3) client_change_frame(2,3) [OF assms(1,2)] show ?thesis by (cases r) auto
qed

lemma spsc_client:
  assumes "spsc_inv q s" and "client_change q (mem s) h'"
  shows "spsc_inv q (s\<lparr>mem := h'\<rparr>)"
  using assms client_change_frame(1) [OF assms(2)] writer_ok_frame [OF assms(2)]
    reader_ok_frame [OF assms(2)]
  by (auto simp: spsc_inv_def sync_inv_def)

text \<open>A write of the ring beyond the waiting bytes leaves them, and the reader, alone.\<close>

lemma free_space_apart:
  assumes inv: "mq_inv q h" and free: "writable q h n" and i: "i < used q h"
    and k: "k < msg_bytes q n"
  shows "ring_addr (mRing q) (ring_size q) (readCtr q h) i \<noteq>
    ring_addr (mRing q) (ring_size q) (writeCtr q h) k"
proof -
  have at: "ring_addr (mRing q) (ring_size q) (writeCtr q h) k =
      ring_addr (mRing q) (ring_size q) (readCtr q h) (used q h + k)"
    using ring_addr_shift [of "mRing q" "ring_size q" "readCtr q h" "used q h" k]
    by (simp flip: writeCtr_eq)
  show ?thesis
    using ring_addr_inj [of "ring_size q" "readCtr q h" "used q h + msg_bytes q n" i
        "used q h + k" "mRing q"] free i k
    by (auto simp: at writable_def)
qed

lemma writable_stretch:
  assumes inv: "mq_inv q h" and free: "writable q h n"
  shows "ring_stretch q (ring_size q) (writeCtr q h) n"
    and "no_seam (ring_size q) (writeCtr q h) (msg_bytes q n)"
proof -
  note D = mq_invD [OF inv]
  have "ring_size q \<noteq> 0" "sizeofT q \<noteq> 0" "unat (sizeofT q) dvd unat (ring_size q)"
    using D(1) by (rule queue_wfD, simp)+
  moreover have "msg_bytes q n \<le> unat (ring_size q)" using free by (simp add: writable_def)
  ultimately show "ring_stretch q (ring_size q) (writeCtr q h) n"
    using D(3) by (simp add: ring_stretch_def msg_bytes_def)
  show "no_seam (ring_size q) (writeCtr q h) (msg_bytes q n)"
    using no_seam_shift [of "ring_size q" "readCtr q h" "used q h"] free
    by (simp add: writable_def flip: writeCtr_eq)
qed

lemma readable_stretch:
  assumes inv: "mq_inv q h" and has: "msg_bytes q n \<le> used q h"
  shows "ring_stretch q (ring_size q) (readCtr q h) n"
    and "no_seam (ring_size q) (readCtr q h) (msg_bytes q n)"
proof -
  note D = mq_invD [OF inv]
  have "ring_size q \<noteq> 0" "sizeofT q \<noteq> 0" "unat (sizeofT q) dvd unat (ring_size q)"
    using D(1) by (rule queue_wfD, simp)+
  moreover have "msg_bytes q n \<le> unat (ring_size q)" using has D(4) by linarith
  ultimately show "ring_stretch q (ring_size q) (readCtr q h) n"
    using D(2) by (simp add: ring_stretch_def msg_bytes_def)
  show "no_seam (ring_size q) (readCtr q h) (msg_bytes q n)" using D(5) has by (rule no_seam_mono)
qed

lemma take_contents:
  "m \<le> used q h \<Longrightarrow>
     take m (contents q h) = ring_bytes h (mRing q) (ring_size q) (readCtr q h) m"
  by (rule nth_equalityI) (simp_all add: contents_def)

section \<open>The parts of a write\<close>

lemma spsc_begin_write:
  assumes inv: "spsc_inv q s" and room: "write_room q (mem s) n"
    and run: "beginWrite q (mem s) n MemTransaction_default = Inr (True, tx)"
  shows "writer_ok q (mem s) (WBegun n tx)"
proof -
  note D = spsc_invD [OF inv] and M = mq_invD [OF spsc_invD(1) [OF inv]]
  have le: "msg_bytes q n \<le> write_limit q (mem s)"
    and tx: "tx = ring_tx q (ring_size q) (writeCtr q (mem s)) n"
    using beginWrite_result [OF D(6) M(3,4), of n] run by (simp_all split: if_splits)
  have "used q (mem s) + msg_bytes q n \<le> unat (ring_size q)"
    using le D(3) M(4) by (simp add: write_limit_def)
  with room tx show ?thesis by (simp add: writable_def write_room_def)
qed

lemma spsc_copy_in:
  assumes inv: "spsc_inv q s" and w: "writer s = WBegun n tx" and buf: "buffer_ok q data n"
  obtains h' where "copyTo (sizeofT q) tx (mem s) data 0 n = Inr (True, h')"
    and "spsc_inv q (s\<lparr>mem := h',
      writer := WCopied n (mem_bytes (mem s) data (msg_bytes q n))\<rparr>)"
    and "contents q h' = contents q (mem s)"
proof -
  let ?h = "mem s" and ?S = "ring_size q" and ?m = "msg_bytes q n"
  note D = spsc_invD [OF inv] and M = mq_invD [OF spsc_invD(1) [OF inv]]
  have tx: "tx = ring_tx q ?S (writeCtr q ?h) n" and free: "writable q ?h n"
    using D(4) w by simp_all
  have data: "data \<noteq> 0" "disjoint_ranges data ?m (mRing q) (unat ?S)"
    using buf free by (simp_all add: buffer_ok_def writable_def)
  obtain h' where h': "copyTo (sizeofT q) tx ?h data 0 n = Inr (True, h')"
    "words64 h' = words64 ?h"
    "\<And>i. i < ?m \<Longrightarrow> bytes h' (ring_addr (mRing q) ?S (writeCtr q ?h) i) = bytes ?h (data + of_nat i)"
    "\<And>a. (\<And>i. i < ?m \<Longrightarrow> a \<noteq> ring_addr (mRing q) ?S (writeCtr q ?h) i) \<Longrightarrow> bytes h' a = bytes ?h a"
    using ring_copyTo [OF writable_stretch [OF D(1) free] data, of ?h] unfolding tx by metis
  have u: "used q h' = used q ?h" by (simp add: used_def h'(2))
  have old: "bytes h' (ring_addr (mRing q) ?S (readCtr q ?h) i) =
      bytes ?h (ring_addr (mRing q) ?S (readCtr q ?h) i)" if "i < used q ?h" for i
    using free_space_apart [OF D(1) free that] by (intro h'(4)) metis
  have c: "contents q h' = contents q ?h"
    by (rule nth_equalityI) (simp_all add: contents_def h'(2) u old)
  have "sync_inv q h'" using D(2) by (simp add: sync_inv_def mq_inv_def h'(2) u)
  moreover have "mem_bytes ?h data ?m = ring_bytes h' (mRing q) ?S (writeCtr q ?h) ?m"
    by (rule nth_equalityI) (simp_all add: h'(3))
  then have "writer_ok q h' (WCopied n (mem_bytes ?h data ?m))"
    using free by (simp add: writable_def u h'(2))
  moreover have "reader_ok q h' (reader s)"
    using D(5) by (cases "reader s") (simp_all add: u c h'(2))
  ultimately show ?thesis using h'(1) c by (intro that [of h']) (simp_all add: spsc_inv_def)
qed

lemma spsc_commit_write:
  assumes inv: "spsc_inv q s" and w: "writer s = WCopied n new"
  obtains h' where "commitWrite q (mem s) n = Inr (True, h')"
    and "spsc_inv q (s\<lparr>mem := h', writer := WIdle\<rparr>)"
    and "contents q h' = contents q (mem s) @ new"
proof -
  let ?h = "mem s" and ?m = "msg_bytes q n"
  note D = spsc_invD [OF inv]
  have free: "writable q ?h n"
    and new: "new = ring_bytes ?h (mRing q) (ring_size q) (writeCtr q ?h) ?m"
    using D(4) w by simp_all
  have small: "?m < 18446744073709551616"
    using free unat_u64_less [of "ring_size q"] unfolding writable_def by linarith
  define h' where "h' = set_writeCtr q (writeCtr q ?h + of_nat ?m) ?h"
  have run: "commitWrite q ?h n = Inr (True, h')"
    by (simp add: commitWrite_result [OF D(6)] msg_bytes_of_nat [OF small] h'_def)
  note cells = queue_cells [OF D(6), of "writeCtr q ?h + of_nat ?m" ?h, folded h'_def]
  have room: "used q ?h + ?m \<le> unat (ring_size q)"
    "no_seam (ring_size q) (readCtr q ?h) (used q ?h + ?m)"
    using free by (simp_all add: writable_def)
  note step = commit_appends [OF D(1) room msg_bytes_aligned cells(1,2), simplified cells(5)]
  have c: "contents q h' = contents q ?h @ new"
    using step(1) cells(5) by (simp add: new ring_bytes_def)
  have "reader_ok q h' (reader s)"
    using D(5) by (cases "reader s") (simp_all add: cells(1) step(3) c)
  with run c step(2) D(3) show ?thesis
    by (intro that [of h']) (simp_all add: spsc_inv_def sync_inv_def)
qed

section \<open>The parts of a read\<close>

lemma spsc_begin_read:
  assumes inv: "spsc_inv q s" and small: "msg_bytes q n < 2 ^ 64"
    and run: "beginRead q (mem s) n = Inr (ok, tx, h')"
  shows "h' = mem s" and "ok \<Longrightarrow> reader_ok q (mem s) (RBegun n tx)"
proof -
  note D = spsc_invD [OF inv] and M = mq_invD [OF spsc_invD(1) [OF inv]]
  have small': "msg_bytes q n < 18446744073709551616" using small by simp
  note res = beginRead_result [OF D(6) M(3,2) small']
  show "h' = mem s" and "ok \<Longrightarrow> reader_ok q (mem s) (RBegun n tx)"
    using res run M(4) by (simp_all split: if_splits)
qed

lemma spsc_copy_out:
  assumes inv: "spsc_inv q s" and r: "reader s = RBegun n tx" and buf: "buffer_ok q data n"
  obtains h' where "copyFrom (sizeofT q) tx (mem s) data 0 n = Inr (True, h')"
    and "spsc_inv q (s\<lparr>mem := h', reader := RCopied n (mem_bytes h' data (msg_bytes q n))\<rparr>)"
    and "contents q h' = contents q (mem s)"
proof -
  let ?h = "mem s" and ?S = "ring_size q" and ?m = "msg_bytes q n"
  note D = spsc_invD [OF inv] and M = mq_invD [OF spsc_invD(1) [OF inv]]
  have tx: "tx = ring_tx q ?S (readCtr q ?h) n" and has: "?m \<le> used q ?h"
    using D(5) r by simp_all
  have data: "data \<noteq> 0" "disjoint_ranges data ?m (mRing q) (unat ?S)"
    using buf has M(4) by (simp_all add: buffer_ok_def)
  obtain h' where h': "copyFrom (sizeofT q) tx ?h data 0 n = Inr (True, h')"
    "words64 h' = words64 ?h"
    "mem_bytes h' data ?m = ring_bytes ?h (mRing q) ?S (readCtr q ?h) ?m"
    "\<And>a. (\<And>i. i < ?m \<Longrightarrow> a \<noteq> data + of_nat i) \<Longrightarrow> bytes h' a = bytes ?h a"
    using ring_copyFrom [OF readable_stretch [OF D(1) has] data, of ?h] unfolding tx by metis
  have "bytes h' (mRing q + of_nat j) = bytes ?h (mRing q + of_nat j)" if "j < unat ?S" for j
    using disjoint_ranges_neq [OF data(2) _ that] by (intro h'(4)) metis
  then have cl: "client_change q ?h h'" by (simp add: client_change_def h'(2))
  note fr = client_change_frame [OF cl D(1)]
  have got: "mem_bytes h' data ?m = take ?m (contents q h')"
    by (simp add: h'(3) fr(2) take_contents [OF has])
  from spsc_client [OF inv cl] show ?thesis
    using h'(1) fr has got by (intro that [of h']) (simp_all add: spsc_inv_def)
qed

lemma spsc_commit_read:
  assumes inv: "spsc_inv q s" and r: "reader s = RCopied n got"
  obtains h' where "commitRead q (mem s) n = Inr (True, h')"
    and "spsc_inv q (s\<lparr>mem := h', reader := RIdle\<rparr>)"
    and "contents q (mem s) = got @ contents q h'"
proof -
  let ?h = "mem s" and ?m = "msg_bytes q n"
  note D = spsc_invD [OF inv] and M = mq_invD [OF spsc_invD(1) [OF inv]]
  have has: "?m \<le> used q ?h" and got: "got = take ?m (contents q ?h)" using D(5) r by simp_all
  have small: "?m < 18446744073709551616"
    using has M(4) unat_u64_less [of "ring_size q"] by linarith
  define h' where "h' = set_readCtr q (readCtr q ?h + of_nat ?m) ?h"
  have run: "commitRead q ?h n = Inr (True, h')"
    using M(4) by (simp add: commitRead_result [OF D(6)] msg_bytes_of_nat [OF small] h'_def)
  note cells = queue_cells [OF D(6), of "readCtr q ?h + of_nat ?m" ?h, folded h'_def]
  note step = commit_drops [OF D(1) has msg_bytes_aligned cells(4,3), simplified cells(6)]
  have free: "writable q h' k" if "writable q ?h k" for k
  proof -
    have sum: "?m + (used q ?h - ?m + msg_bytes q k) = used q ?h + msg_bytes q k"
      using has by simp
    have "no_seam (ring_size q) (readCtr q ?h + of_nat ?m) (used q ?h - ?m + msg_bytes q k)"
      using that by (intro no_seam_shift) (simp only: sum writable_def)
    moreover have "used q ?h - ?m + msg_bytes q k \<le> unat (ring_size q)"
      using that unfolding writable_def by linarith
    ultimately show ?thesis by (simp only: writable_def cells(4) step(3))
  qed
  have "writer_ok q h' (writer s)"
    using D(4) free by (cases "writer s") (auto simp: cells(3,6) ring_bytes_def)
  with run step(1,2) D(3) got show ?thesis
    by (intro that [of h']) (simp_all add: spsc_inv_def sync_inv_def)
qed

section \<open>Any interleaving\<close>

lemma spsc_step_preserves:
  assumes inv: "spsc_inv q s" and step: "spsc_step q s xs ys s'"
  shows "spsc_inv q s' \<and> contents q (mem s) @ xs = ys @ contents q (mem s')"
  using step
proof cases
  case (begin_write n ok tx)
  with spsc_begin_write [OF inv, of n tx] inv show ?thesis by (auto simp: spsc_inv_def)
next
  case (copy_in n tx data ok h')
  with spsc_copy_in [OF inv copy_in(4,5)] show ?thesis by fastforce
next
  case (commit_write n new ok h')
  with spsc_commit_write [OF inv commit_write(4)] show ?thesis by fastforce
next
  case (begin_read n ok tx h')
  with spsc_begin_read [OF inv begin_read(5,6)] inv show ?thesis by (auto simp: spsc_inv_def)
next
  case (copy_out n tx data ok h')
  with spsc_copy_out [OF inv copy_out(4,5)] show ?thesis by fastforce
next
  case (commit_read n got ok h')
  with spsc_commit_read [OF inv commit_read(4)] show ?thesis by fastforce
next
  case (client h')
  with spsc_client [OF inv] client_change_frame(2) spsc_invD(1) [OF inv] show ?thesis by auto
qed

interpretation spsc_channel: fifo_channel "spsc_step q" "spsc_inv q" "\<lambda>s. contents q (mem s)"
  "unat (ring_size q)" for q
proof
  show "spsc_inv q s'" if "spsc_inv q s" "spsc_step q s xs ys s'" for s xs ys s'
    using spsc_step_preserves that by blast
  show "contents q (mem s) @ xs = ys @ contents q (mem s')"
    if "spsc_inv q s" "spsc_step q s xs ys s'" for s xs ys s'
    using spsc_step_preserves that by blast
  show "length (contents q (mem s)) \<le> unat (ring_size q)" if "spsc_inv q s" for s
    using mq_invD(4) [OF spsc_invD(1) [OF that]] by simp
qed

lemma spsc_inv_start:
  "flavor q = kSynchronizedReadWrite \<Longrightarrow> mq_inv q h \<Longrightarrow>
     spsc_inv q \<lparr>mem = h, writer = WIdle, reader = RIdle\<rparr>"
  by (simp add: spsc_inv_def sync_inv_def)

text \<open>
  C4: one writer and one reader need no lock. However the parts of their calls interleave,
  starting from an empty queue, the bytes that committed reads obtained are, in order, a prefix
  of the bytes that committed writes published; the difference is exactly what waits between
  the two counters and never exceeds the ring.
\<close>

theorem concurrent_queue_is_fifo:
  assumes "run (spsc_step q) \<lparr>mem = h, writer = WIdle, reader = RIdle\<rparr> sent recv s'"
    and "flavor q = kSynchronizedReadWrite" and "mq_inv q h" and "contents q h = []"
  shows "sent = recv @ contents q (mem s') \<and>
    length sent \<le> length recv + unat (ring_size q) \<and> mq_inv q (mem s')"
proof -
  note inv = spsc_inv_start [OF assms(2,3)]
  from spsc_channel.received_is_prefix [OF assms(1) inv] assms(4)
    spsc_invD(1) [OF spsc_channel.inv_run [OF assms(1) inv]]
  show ?thesis by simp
qed

text \<open>
  What the other side does never makes a call fail half way. In every state that the two
  sides can reach, the copy of a begun write or read transfers its messages, both commits
  return true, and none of them meets undefined behaviour; in particular the overflow check of
  \<open>commitRead\<close> never fires on a synchronized queue.
\<close>

lemma concurrent_calls_complete:
  assumes "run (spsc_step q) \<lparr>mem = h, writer = WIdle, reader = RIdle\<rparr> sent recv s"
    and "flavor q = kSynchronizedReadWrite" and "mq_inv q h"
  shows "(\<forall>n tx data. writer s = WBegun n tx \<longrightarrow> buffer_ok q data n \<longrightarrow>
      (\<exists>h'. copyTo (sizeofT q) tx (mem s) data 0 n = Inr (True, h'))) \<and>
    (\<forall>n new. writer s = WCopied n new \<longrightarrow> (\<exists>h'. commitWrite q (mem s) n = Inr (True, h'))) \<and>
    (\<forall>n tx data. reader s = RBegun n tx \<longrightarrow> buffer_ok q data n \<longrightarrow>
      (\<exists>h'. copyFrom (sizeofT q) tx (mem s) data 0 n = Inr (True, h'))) \<and>
    (\<forall>n got. reader s = RCopied n got \<longrightarrow> (\<exists>h'. commitRead q (mem s) n = Inr (True, h')))"
proof -
  have inv: "spsc_inv q s"
    using assms(1) spsc_inv_start [OF assms(2,3)] by (rule spsc_channel.inv_run)
  show ?thesis
    using spsc_copy_in [OF inv] spsc_commit_write [OF inv] spsc_copy_out [OF inv]
      spsc_commit_read [OF inv] by metis
qed

end
