(* ===== verification/Queue_Interleaving.thy ===== *)
theory Queue_Interleaving
  imports Rely_Guarantee Queue_Concurrency
begin

text \<open>
  One writer and one reader on a synchronized queue, access by access: between any two loads,
  stores or copied bytes of one side the other side may act. This is the concurrency that the
  code meets if memory is sequentially consistent. What is shown of each side is a condition on its
  program alone, and \<open>Weak_Channel\<close> uses it for the memory model of C++ as well.
\<close>

section \<open>What each side does to the other\<close>

text \<open>The bytes of a buffer that a call may touch; a request larger than the ring touches none.\<close>

definition buf_len :: "MessageQueue \<Rightarrow> size_t \<Rightarrow> nat" where
  "buf_len q n = (if msg_bytes q n \<le> unat (ring_size q) then msg_bytes q n else 0)"

text \<open>
  What a writer with its buffer at \<open>data\<close> meets between two of its accesses: the reader may take
  messages out, the ring and the buffer stay.
\<close>

definition env_writer :: "MessageQueue \<Rightarrow> ptr \<Rightarrow> nat \<Rightarrow> heap \<Rightarrow> heap \<Rightarrow> bool" where
  "env_writer q data m h h' \<longleftrightarrow> writeCtr q h' = writeCtr q h \<and> used q h' \<le> used q h \<and>
     (mq_inv q h \<longrightarrow> mq_inv q h') \<and>
     (\<forall>j<unat (ring_size q). bytes h' (mRing q + of_nat j) = bytes h (mRing q + of_nat j)) \<and>
     (\<forall>i<m. bytes h' (data + of_nat i) = bytes h (data + of_nat i))"

text \<open>What a reader meets: messages are appended to those that wait.\<close>

definition env_reader :: "MessageQueue \<Rightarrow> ptr \<Rightarrow> nat \<Rightarrow> heap \<Rightarrow> heap \<Rightarrow> bool" where
  "env_reader q data m h h' \<longleftrightarrow> readCtr q h' = readCtr q h \<and>
     (mq_inv q h \<longrightarrow> mq_inv q h' \<and> (\<exists>xs. contents q h' = contents q h @ xs)) \<and>
     (\<forall>i<m. bytes h' (data + of_nat i) = bytes h (data + of_nat i))"

text \<open>
  What the sides do themselves. A writer changes bytes of the ring that hold no message, or
  publishes with one store all the bytes of its buffer; a reader changes bytes of its buffer, or
  retires with one store as many messages as its buffer then holds, and exactly those.
\<close>

definition by_writer :: "MessageQueue \<Rightarrow> ptr \<Rightarrow> size_t \<Rightarrow> ptr option \<Rightarrow> heap \<Rightarrow> heap \<Rightarrow> bool" where
  "by_writer q data n ctr h h' \<longleftrightarrow> readCtr q h' = readCtr q h \<and> mq_inv q h' \<and>
     same_outside_ring q h h' \<and> (ctr = None \<or> ctr = Some (mWritePtr q)) \<and>
     contents q h' = contents q h @ (if ctr = None then [] else mem_bytes h data (msg_bytes q n))"

definition by_reader :: "MessageQueue \<Rightarrow> ptr \<Rightarrow> size_t \<Rightarrow> ptr option \<Rightarrow> heap \<Rightarrow> heap \<Rightarrow> bool" where
  "by_reader q data n ctr h h' \<longleftrightarrow> writeCtr q h' = writeCtr q h \<and> mq_inv q h' \<and>
     (\<forall>a. (\<forall>i<buf_len q n. a \<noteq> data + of_nat i) \<longrightarrow> bytes h' a = bytes h a) \<and>
     (ctr = None \<or> ctr = Some (mReadPtr q)) \<and>
     contents q h = (if ctr = None then [] else mem_bytes h data (msg_bytes q n)) @ contents q h'"

text \<open>
  The accesses themselves: a side loads its own counter with any order and that of the other side
  with acquire, and stores to its own with release. A writer loads bytes of its buffer and stores
  where no message is held, a reader loads where one is held and stores to its buffer.
\<close>

definition held :: "MessageQueue \<Rightarrow> heap \<Rightarrow> ptr set" where
  "held q h = ring_addr (mRing q) (ring_size q) (readCtr q h) ` {..<used q h}"

fun write_touch :: "MessageQueue \<Rightarrow> ptr \<Rightarrow> size_t \<Rightarrow> access \<Rightarrow> heap \<Rightarrow> bool" where
  "write_touch q data n (CounterLoad mo p) h =
     (p = mWritePtr q \<or> p = mReadPtr q \<and> mo = Acquire)"
| "write_touch q data n (CounterStore mo p) h = (p = mWritePtr q \<and> mo = Release)"
| "write_touch q data n (ByteLoad a) h = (a \<in> byte_range data (buf_len q n))"
| "write_touch q data n (ByteStore a) h =
     (a \<in> byte_range (mRing q) (unat (ring_size q)) - held q h)"

fun read_touch :: "MessageQueue \<Rightarrow> ptr \<Rightarrow> size_t \<Rightarrow> access \<Rightarrow> heap \<Rightarrow> bool" where
  "read_touch q data n (CounterLoad mo p) h =
     (p = mReadPtr q \<or> p = mWritePtr q \<and> mo = Acquire)"
| "read_touch q data n (CounterStore mo p) h = (p = mReadPtr q \<and> mo = Release)"
| "read_touch q data n (ByteLoad a) h = (a \<in> held q h)"
| "read_touch q data n (ByteStore a) h = (a \<in> byte_range data (buf_len q n))"

definition write_acts :: "MessageQueue \<Rightarrow> ptr \<Rightarrow> size_t \<Rightarrow> access \<Rightarrow> heap \<Rightarrow> heap \<Rightarrow> bool" where
  "write_acts q data n a h h' \<longleftrightarrow> by_writer q data n (cell a) h h' \<and> write_touch q data n a h"

definition read_acts :: "MessageQueue \<Rightarrow> ptr \<Rightarrow> size_t \<Rightarrow> access \<Rightarrow> heap \<Rightarrow> heap \<Rightarrow> bool" where
  "read_acts q data n a h h' \<longleftrightarrow> by_reader q data n (cell a) h h' \<and> read_touch q data n a h"

lemma acts_load:
  assumes "mq_inv q h" and "cell a = None"
  shows "write_touch q data n a h \<Longrightarrow> write_acts q data n a h h"
    and "read_touch q data n a h \<Longrightarrow> read_acts q data n a h h"
  using assms
  by (simp_all add: write_acts_def read_acts_def by_writer_def by_reader_def same_outside_ring_def)

lemma env_writer_order: "reflp (env_writer q data m)" "transp (env_writer q data m)"
  by (auto simp: env_writer_def intro!: reflpI transpI)

lemma env_reader_order: "reflp (env_reader q data m)" "transp (env_reader q data m)"
proof -
  show "reflp (env_reader q data m)" by (auto simp: env_reader_def intro!: reflpI)
  show "transp (env_reader q data m)"
    by (rule transpI) (auto simp: env_reader_def)
qed

section \<open>The writer\<close>

text \<open>The reader only adds to the space that the writer has found.\<close>

lemma readCtr_moves:
  assumes "writeCtr q h' = writeCtr q h" and "used q h' \<le> used q h"
  shows "readCtr q h' = readCtr q h + of_nat (used q h - used q h')"
proof -
  have "readCtr q h + of_nat (used q h) = readCtr q h' + of_nat (used q h')"
    using assms(1) by (simp flip: writeCtr_eq)
  moreover have "(of_nat (used q h) :: u64) = of_nat (used q h - used q h') + of_nat (used q h')"
    using assms(2) by (simp flip: of_nat_add)
  ultimately show ?thesis by (simp add: algebra_simps)
qed

lemma seam_moves:
  assumes "writeCtr q h' = writeCtr q h" and "used q h' \<le> used q h"
    and "no_seam S (readCtr q h) (used q h + k)"
  shows "no_seam S (readCtr q h') (used q h' + k)"
proof -
  have "no_seam S (readCtr q h) ((used q h - used q h') + (used q h' + k))"
    using assms(2,3) by simp
  then show ?thesis unfolding readCtr_moves [OF assms(1,2)] by (rule no_seam_shift)
qed

lemma writable_env: "env_writer q data m h h' \<Longrightarrow> writable q h n \<Longrightarrow> writable q h' n"
  using seam_moves [where q = q and h = h and h' = h'] by (simp add: env_writer_def writable_def)

lemma write_room_env: "env_writer q data m h h' \<Longrightarrow> write_room q h n \<Longrightarrow> write_room q h' n"
  using seam_moves [where q = q and h = h and h' = h']
  by (simp add: env_writer_def write_room_def)

text \<open>
  A writer knows its own counter, and that room it had at the start is still there; the state of
  its copy is that \<open>c\<close> bytes of the buffer are in the free part of the ring behind it.
\<close>

definition has_room :: "MessageQueue \<Rightarrow> size_t \<Rightarrow> heap \<Rightarrow> bool" where
  "has_room q n h \<longleftrightarrow> used q h + msg_bytes q n \<le> unat (ring_size q)"

definition write_start ::
  "MessageQueue \<Rightarrow> ptr \<Rightarrow> size_t \<Rightarrow> bool \<Rightarrow> u64 \<Rightarrow> u8 list \<Rightarrow> heap \<Rightarrow> bool" where
  "write_start q data n fits w new h \<longleftrightarrow> mq_inv q h \<and> write_room q h n \<and> writeCtr q h = w \<and>
     mem_bytes h data (buf_len q n) = new \<and> (fits \<longrightarrow> has_room q n h)"

definition write_copied ::
  "MessageQueue \<Rightarrow> ptr \<Rightarrow> size_t \<Rightarrow> u64 \<Rightarrow> u8 list \<Rightarrow> nat \<Rightarrow> heap \<Rightarrow> bool" where
  "write_copied q data n w new c h \<longleftrightarrow> mq_inv q h \<and> writable q h n \<and> writeCtr q h = w \<and>
     mem_bytes h data (msg_bytes q n) = new \<and>
     (\<forall>i<c. bytes h (ring_addr (mRing q) (ring_size q) w i) = new ! i)"

lemma mem_bytes_cong:
  "(\<And>i. i < m \<Longrightarrow> bytes h' (a + of_nat i) = bytes h (a + of_nat i)) \<Longrightarrow>
     mem_bytes h' a m = mem_bytes h a m"
  by (simp add: mem_bytes_def)

lemma env_writerD:
  assumes "env_writer q data m h h'" and "mq_inv q h"
  shows "mq_inv q h'" and "writeCtr q h' = writeCtr q h"
    and "mem_bytes h' data m = mem_bytes h data m"
    and "bytes h' (ring_addr (mRing q) (ring_size q) w i) =
      bytes h (ring_addr (mRing q) (ring_size q) w i)"
proof -
  have S: "ring_size q \<noteq> 0" using assms(2) by (auto simp: mq_inv_def elim: queue_wfD)
  show "mq_inv q h'" "writeCtr q h' = writeCtr q h"
    using assms by (simp_all add: env_writer_def)
  show "mem_bytes h' data m = mem_bytes h data m"
    using assms(1) by (intro mem_bytes_cong) (simp add: env_writer_def)
  obtain j where "ring_addr (mRing q) (ring_size q) w i = mRing q + of_nat j"
    and "j < unat (ring_size q)"
    using S by (rule ring_addr_range)
  with assms(1) show "bytes h' (ring_addr (mRing q) (ring_size q) w i) =
      bytes h (ring_addr (mRing q) (ring_size q) w i)"
    by (simp add: env_writer_def)
qed

lemma has_room_env: "env_writer q data m h h' \<Longrightarrow> has_room q n h \<Longrightarrow> has_room q n h'"
  by (simp add: env_writer_def has_room_def)

lemma write_start_stable:
  "stable (env_writer q data (buf_len q n)) (write_start q data n fits w new)"
  unfolding stable_def
proof (intro allI impI)
  fix h h'
  assume h: "write_start q data n fits w new h" and e: "env_writer q data (buf_len q n) h h'"
  then have "mq_inv q h" by (simp add: write_start_def)
  from env_writerD [OF e this] h write_room_env [OF e] has_room_env [OF e]
  show "write_start q data n fits w new h'"
    by (simp add: write_start_def)
qed

lemma buf_len_fits: "msg_bytes q n \<le> unat (ring_size q) \<Longrightarrow> buf_len q n = msg_bytes q n"
  by (simp add: buf_len_def)

lemma buf_len_writable: "writable q h n \<Longrightarrow> buf_len q n = msg_bytes q n"
  by (simp add: buf_len_fits writable_def)

lemma write_copied_stable:
  "stable (env_writer q data (buf_len q n)) (write_copied q data n w new c)"
  unfolding stable_def
proof (intro allI impI)
  fix h h'
  assume h: "write_copied q data n w new c h" and e: "env_writer q data (buf_len q n) h h'"
  then have inv: "mq_inv q h" and free: "writable q h n" by (simp_all add: write_copied_def)
  from h env_writerD [OF e inv, unfolded buf_len_writable [OF free]] writable_env [OF e free]
  show "write_copied q data n w new c h'" by (simp add: write_copied_def)
qed

text \<open>The programs of begin and commit on a well formed queue.\<close>

lemma beginWrite_prog_shape:
  assumes "queue_wf q" and "flavor q = kSynchronizedReadWrite"
  shows "beginWrite_prog q n MemTransaction_default =
    LoadC Acquire (mWritePtr q) (\<lambda>w0. LoadC Acquire (mReadPtr q) (\<lambda>r.
      if (ring_size q - (w0 - r)) div sizeofT q < n \<or> ring_size q div sizeofT q < n
      then Ret (False, MemTransaction_default)
      else LoadC Relaxed (mWritePtr q) (\<lambda>w. if w mod sizeofT q \<noteq> 0 then Ret (False, MemTransaction_default)
        else Ret (True, ring_tx q (ring_size q) w n))))"
proof -
  obtain d where "mDesc q = Some d" "getSize d = ring_size q" "getQuantum d = sizeofT q"
    "sizeofT q \<noteq> 0" "ring_size q \<noteq> 0"
    using assms(1) by (rule queue_wfD) blast
  with assms(2) show ?thesis
    by (simp add: beginWrite_prog_def availableToWrite_prog_def availableToReadBytes_prog_def
        load64_prog_def deref_desc_def getQuantumCount_def ring_tx_def Let_def fun_eq_iff)
qed

lemma commitWrite_prog_shape:
  "commitWrite_prog q n =
     LoadC Relaxed (mWritePtr q) (\<lambda>w. StoreC Release (mWritePtr q) (w + n * sizeofT q) (Ret True))"
  by (simp add: commitWrite_prog_def load64_prog_def store64_prog_def)

lemma beginRead_prog_shape:
  assumes "queue_wf q"
  shows "beginRead_prog q n =
    LoadC Acquire (mWritePtr q) (\<lambda>w. LoadC Relaxed (mReadPtr q) (\<lambda>r.
      if w mod sizeofT q \<noteq> 0 \<or> r mod sizeofT q \<noteq> 0 then Ret (False, MemTransaction_default)
      else if ring_size q < w - r then StoreC Release (mReadPtr q) w (Ret (False, MemTransaction_default))
      else if w - r < n * sizeofT q then Ret (False, MemTransaction_default)
      else Ret (True, ring_tx q (ring_size q) r n)))"
proof -
  obtain d where "mDesc q = Some d" "getSize d = ring_size q" "ring_size q \<noteq> 0"
    using assms by (rule queue_wfD) blast
  then show ?thesis
    by (simp add: beginRead_prog_def load64_prog_def store64_prog_def deref_desc_def ring_tx_def
        Let_def fun_eq_iff)
qed

lemma commitRead_prog_shape:
  assumes "queue_wf q"
  shows "commitRead_prog q n =
    LoadC Relaxed (mReadPtr q) (\<lambda>r. LoadC Acquire (mWritePtr q) (\<lambda>w.
      if ring_size q < w - r then StoreC Release (mReadPtr q) w (Ret False)
      else StoreC Release (mReadPtr q) (r + n * sizeofT q) (Ret True)))"
proof -
  obtain d where "mDesc q = Some d" "getSize d = ring_size q"
    using assms by (rule queue_wfD) blast
  then show ?thesis
    by (simp add: commitRead_prog_def load64_prog_def store64_prog_def deref_desc_def fun_eq_iff)
qed

lemma space_found:
  assumes inv: "mq_inv q h"
  shows "(ring_size q - (writeCtr q h - readCtr q h)) div sizeofT q < n \<longleftrightarrow>
    unat (ring_size q) < used q h + msg_bytes q n"
proof -
  note M = mq_invD [OF inv]
  have z: "sizeofT q \<noteq> 0" using M(1) by (rule queue_wfD)
  have "unat (ring_size q - (writeCtr q h - readCtr q h)) = unat (ring_size q) - used q h"
    using M(4) by (simp add: unat_diff_le word_le_nat_alt used_def)
  then have "(ring_size q - (writeCtr q h - readCtr q h)) div sizeofT q < n \<longleftrightarrow>
      unat (ring_size q) - used q h < msg_bytes q n"
    by (simp add: div_less_iff [OF z] msg_bytes_def)
  with M(4) show ?thesis by linarith
qed

lemma rg_beginWrite:
  assumes sync: "flavor q = kSynchronizedReadWrite" and start: "write_start q data n fits w new h"
  shows "rg (env_writer q data (buf_len q n)) (write_acts q data n)
    (beginWrite_prog q n MemTransaction_default)
    (\<lambda>(ok, tx) b' h'. b' = b \<and> (fits \<longrightarrow> ok) \<and>
      (ok \<longrightarrow> tx = ring_tx q (ring_size q) w n \<and> write_copied q data n w new 0 h')) b h"
proof -
  let ?R = "env_writer q data (buf_len q n)" and ?G = "write_acts q data n"
  let ?Q = "\<lambda>(ok, tx) b' h'. b' = b \<and> (fits \<longrightarrow> ok) \<and>
    (ok \<longrightarrow> tx = ring_tx q (ring_size q) w n \<and> write_copied q data n w new 0 h')"
  have wf: "queue_wf q" using start by (simp add: write_start_def mq_inv_def)
  then have ptrs: "mReadPtr q \<noteq> nullptr" "mWritePtr q \<noteq> nullptr" by (auto elim: queue_wfD)
  note S1 = write_start_stable [of q data n fits w new]
  note S2 = write_copied_stable [of q data n w new 0]
  have loads: "?G (CounterLoad Acquire (mWritePtr q)) h1 h1" "?G (CounterLoad Acquire (mReadPtr q)) h1 h1"
    if "write_start q data n fits w new h1" for h1
    using that by (auto intro!: acts_load(1) simp: write_start_def)
  have reload: "?G (CounterLoad Relaxed (mWritePtr q)) h1 h1" if "write_copied q data n w new 0 h1" for h1
    using that by (auto intro!: acts_load(1) simp: write_copied_def)
  have refused: "rg ?R ?G (Ret (False, MemTransaction_default)) ?Q b h1"
    if "\<not> fits" for h1 using that by simp
  have granted: "rg ?R ?G (Ret (True, ring_tx q (ring_size q) w n)) ?Q b h1"
    if "write_copied q data n w new 0 h1" for h1
    by (rule rg_ret [OF S2 that]) simp
  have third: "rg ?R ?G (LoadC Relaxed (mWritePtr q) (\<lambda>w. if w mod sizeofT q \<noteq> 0
      then Ret (False, MemTransaction_default) else Ret (True, ring_tx q (ring_size q) w n))) ?Q b h1"
    if "write_copied q data n w new 0 h1" for h1
  proof (rule rg_load [where G = "write_acts q data n", OF S2 that ptrs(2), OF reload])
    fix h2 assume h2: "write_copied q data n w new 0 h2"
    then have "w mod sizeofT q = 0" and w: "writeCtr q h2 = w"
      using mq_invD(3) [of q h2] by (auto simp: write_copied_def mod_sizeofT_iff)
    then show "rg ?R ?G (if writeCtr q h2 mod sizeofT q \<noteq> 0 then Ret (False, MemTransaction_default)
        else Ret (True, ring_tx q (ring_size q) (writeCtr q h2) n)) ?Q b h2"
      using granted [OF h2] by (simp only: w) simp
  qed
  have free: "write_copied q data n w new 0 h1"
    if "write_start q data n fits w new h1"
      and "\<not> (ring_size q - (w - readCtr q h1)) div sizeofT q < n" for h1
  proof -
    have "writable q h1 n"
      using that space_found [of q h1 n]
      by (simp add: write_start_def writable_def write_room_def)
    with that(1) show ?thesis by (simp add: write_start_def write_copied_def buf_len_writable)
  qed
  have second: "rg ?R ?G (LoadC Acquire (mReadPtr q) (\<lambda>r.
      if (ring_size q - (w - r)) div sizeofT q < n \<or> ring_size q div sizeofT q < n
      then Ret (False, MemTransaction_default)
      else LoadC Relaxed (mWritePtr q) (\<lambda>w. if w mod sizeofT q \<noteq> 0 then Ret (False, MemTransaction_default)
        else Ret (True, ring_tx q (ring_size q) w n)))) ?Q b h1"
    if "write_start q data n fits w new h1" for h1
  proof (rule rg_load [where G = "write_acts q data n", OF S1 that ptrs(1), OF loads(2)])
    fix h2 assume h2: "write_start q data n fits w new h2"
    show "rg ?R ?G (if (ring_size q - (w - readCtr q h2)) div sizeofT q < n \<or>
        ring_size q div sizeofT q < n then Ret (False, MemTransaction_default)
      else LoadC Relaxed (mWritePtr q) (\<lambda>w. if w mod sizeofT q \<noteq> 0 then Ret (False, MemTransaction_default)
        else Ret (True, ring_tx q (ring_size q) w n))) ?Q b h2"
    proof (cases fits)
      case True
      with h2 have room: "has_room q n h2" and M: "mq_inv q h2" "writeCtr q h2 = w"
        by (simp_all add: write_start_def)
      have "sizeofT q \<noteq> 0" using mq_invD(1) [OF M(1)] by (rule queue_wfD)
      then have "\<not> ring_size q div sizeofT q < n"
        using room by (simp add: div_less_iff has_room_def msg_bytes_def)
      moreover have fit: "\<not> (ring_size q - (w - readCtr q h2)) div sizeofT q < n"
        using space_found [OF M(1), of n] room M(2) by (simp add: has_room_def)
      ultimately show ?thesis using third [OF free [OF h2 fit]] by (simp del: rg.simps)
    next
      case False
      show ?thesis using refused [OF False] third [OF free [OF h2]] by (simp del: rg.simps)
    qed
  qed
  show ?thesis
    unfolding beginWrite_prog_shape [OF wf sync]
  proof (rule rg_load [where G = "write_acts q data n", OF S1 start ptrs(2), OF loads(1)])
    fix h1 assume h1: "write_start q data n fits w new h1"
    then have w: "writeCtr q h1 = w" by (simp add: write_start_def)
    show "rg ?R ?G (LoadC Acquire (mReadPtr q) (\<lambda>r.
      if (ring_size q - (writeCtr q h1 - r)) div sizeofT q < n \<or> ring_size q div sizeofT q < n
      then Ret (False, MemTransaction_default)
      else LoadC Relaxed (mWritePtr q) (\<lambda>w. if w mod sizeofT q \<noteq> 0 then Ret (False, MemTransaction_default)
        else Ret (True, ring_tx q (ring_size q) w n)))) ?Q b h1"
      unfolding w by (rule second [OF h1])
  qed
qed

section \<open>Copies to and from the ring\<close>

text \<open>
  The copy of a begun transaction moves its bytes in one piece or in two, which lie in the ring.
  Numbered through, the bytes on the side of the ring are those from the counter on.
\<close>

definition ring_pieces :: "MessageQueue \<Rightarrow> u64 \<Rightarrow> size_t \<Rightarrow> ptr \<Rightarrow> nat \<Rightarrow> ptr \<Rightarrow> nat \<Rightarrow> bool" where
  "ring_pieces q p n d1 k1 d2 k2 \<longleftrightarrow> k1 + k2 = msg_bytes q n \<and>
     (\<forall>i<k1. d1 + of_nat i \<in> byte_range (mRing q) (unat (ring_size q))) \<and>
     (\<forall>i<k2. d2 + of_nat i \<in> byte_range (mRing q) (unat (ring_size q))) \<and>
     (no_seam (ring_size q) p (msg_bytes q n) \<longrightarrow>
       (\<forall>i<k1. d1 + of_nat i = ring_addr (mRing q) (ring_size q) p i) \<and>
       (\<forall>i<k2. d2 + of_nat i = ring_addr (mRing q) (ring_size q) p (k1 + i)))"

lemma ring_copy_progs:
  assumes st: "ring_stretch q (ring_size q) p n" and data: "data \<noteq> 0"
    and apart: "disjoint_ranges data (msg_bytes q n) (mRing q) (unat (ring_size q))"
  obtains d1 k1 d2 k2 where "ring_pieces q p n d1 k1 d2 k2"
    and "copyTo_prog (sizeofT q) (ring_tx q (ring_size q) p n) data 0 n =
      two_piece_copy d1 data k1 d2 (data + of_nat k1) k2"
    and "copyFrom_prog (sizeofT q) (ring_tx q (ring_size q) p n) data 0 n =
      two_piece_copy data d1 k1 (data + of_nat k1) d2 k2"
proof -
  let ?z = "sizeofT q" and ?tx = "ring_tx q (ring_size q) p n"
  let ?f = "first_part ?tx 0 (unat n)"
  obtain k1 k2 where k: "k1 = ?f * unat ?z" "k2 = (unat n - ?f) * unat ?z" by blast
  have f: "?f \<le> unat n" by (simp add: first_part_def)
  then have sum: "k1 + k2 = msg_bytes q n"
    by (simp add: k msg_bytes_def flip: add_mult_distrib)
  have fits: "unat n \<le> tx_length ?tx" by (simp add: ring_tx_length)
  have ap: "buffer_apart ?z ?tx data (unat n * unat ?z)"
    using ring_tx_apart [OF st] apart by (simp add: msg_bytes_def)
  have addr: "tx_addr ?z ?tx i = ring_addr (mRing q) (ring_size q) p i"
    if "no_seam (ring_size q) p (msg_bytes q n)" "i < msg_bytes q n" for i
    using ring_tx_addr [OF st] that by (simp add: msg_bytes_def)
  have "ring_pieces q p n (piece1 ?z ?tx 0) k1 (piece2 ?z ?tx 0) k2"
    unfolding ring_pieces_def
  proof (intro conjI impI allI sum)
    show "piece1 ?z ?tx 0 + of_nat i \<in> byte_range (mRing q) (unat (ring_size q))" if "i < k1" for i
      using tx_addr_piece1 [OF that [unfolded k(1)]] ring_tx_inside [OF st, of i] that sum
      by (simp add: msg_bytes_def)
    show "piece2 ?z ?tx 0 + of_nat i \<in> byte_range (mRing q) (unat (ring_size q))" if "i < k2" for i
    proof -
      have "?f < unat n" by (rule ccontr) (use that in \<open>simp add: k(2)\<close>)
      from tx_addr_piece2 [OF this, of ?z i] ring_tx_inside [OF st, of "k1 + i"] that sum
      show ?thesis by (simp add: k(1) msg_bytes_def)
    qed
  next
    fix i assume seam: "no_seam (ring_size q) p (msg_bytes q n)" and i: "i < k1"
    from tx_addr_piece1 [OF i [unfolded k(1)]] addr [OF seam, of i] i sum
    show "piece1 ?z ?tx 0 + of_nat i = ring_addr (mRing q) (ring_size q) p i" by simp
  next
    fix i assume seam: "no_seam (ring_size q) p (msg_bytes q n)" and i: "i < k2"
    have "?f < unat n" by (rule ccontr) (use i in \<open>simp add: k(2)\<close>)
    from tx_addr_piece2 [OF this, of ?z i] addr [OF seam, of "k1 + i"] i sum
    show "piece2 ?z ?tx 0 + of_nat i = ring_addr (mRing q) (ring_size q) p (k1 + i)"
      by (simp add: k(1))
  qed
  from that [OF this copyTo_prog_shape [OF ring_tx_ok [OF st] fits data ap k]
      copyFrom_prog_shape [OF ring_tx_ok [OF st] fits data ap k]] show ?thesis .
qed

lemma set_byte_parts [simp]:
  "words64 (set_byte p v h) = words64 h" "bytes (set_byte p v h) = (bytes h)(p := v)"
  by (simp_all add: set_byte_def)

lemma words_only:
  assumes "words64 h' = words64 h"
  shows "mq_inv q h' \<longleftrightarrow> mq_inv q h" and "used q h' = used q h"
    and "writable q h' n \<longleftrightarrow> writable q h n"
  using assms by (simp_all add: mq_inv_def used_def writable_def)

lemma contents_cong:
  assumes "words64 h' = words64 h" and "\<And>i. i < used q h \<Longrightarrow>
    bytes h' (ring_addr (mRing q) (ring_size q) (readCtr q h) i) =
    bytes h (ring_addr (mRing q) (ring_size q) (readCtr q h) i)"
  shows "contents q h' = contents q h"
  by (rule nth_equalityI) (simp_all add: contents_def words_only [OF assms(1)] assms)

text \<open>Storing one byte of a message behind the write counter.\<close>

lemma store_ring_byte:
  assumes inv: "mq_inv q h" and free: "writable q h n" and c: "c < msg_bytes q n"
    and h': "h' = set_byte (ring_addr (mRing q) (ring_size q) (writeCtr q h) c) v h"
  shows "write_acts q data n (ByteStore (ring_addr (mRing q) (ring_size q) (writeCtr q h) c)) h h'"
proof -
  have w: "words64 h' = words64 h" by (simp add: h')
  have "contents q h' = contents q h"
    using free_space_apart [OF inv free _ c] by (intro contents_cong [OF w]) (simp add: h')
  moreover obtain j where j: "ring_addr (mRing q) (ring_size q) (writeCtr q h) c = mRing q + of_nat j"
    "j < unat (ring_size q)"
    using inv by (metis ring_addr_range mq_invD(1) queue_wfD)
  then have "same_outside_ring q h h'" by (auto simp: same_outside_ring_def h')
  ultimately have "by_writer q data n None h h'"
    using inv by (simp add: by_writer_def w words_only [OF w])
  moreover have "ring_addr (mRing q) (ring_size q) (writeCtr q h) c \<notin> held q h"
    using free_space_apart [OF inv free _ c] by (auto simp: held_def dest: sym)
  ultimately show ?thesis using j byte_rangeI [OF j(2), of "mRing q"] by (simp add: write_acts_def)
qed

lemma write_buffer_apart:
  assumes "buffer_ok q data n" and "mq_inv q h" and "writable q h n" and "i < msg_bytes q n"
  shows "data + of_nat i \<noteq> ring_addr (mRing q) (ring_size q) w c"
proof (rule apart_from_ring)
  show "disjoint_ranges data (msg_bytes q n) (mRing q) (unat (ring_size q))"
    using assms(1,3) by (simp add: buffer_ok_def writable_def)
  show "ring_size q \<noteq> 0" using assms(2) by (auto simp: mq_inv_def elim: queue_wfD)
qed (rule assms(4))

lemma write_copy_step:
  assumes buf: "buffer_ok q data n" and c: "c < msg_bytes q n"
    and J: "write_copied q data n w new c h"
    and h': "h' = set_byte (ring_addr (mRing q) (ring_size q) w c) (new ! c) h"
  shows "bytes h (data + of_nat c) = new ! c"
    and "write_acts q data n (ByteLoad (data + of_nat c)) h h"
    and "write_acts q data n (ByteStore (ring_addr (mRing q) (ring_size q) w c)) h h'"
    and "write_copied q data n w new (Suc c) h'"
proof -
  have D: "mq_inv q h" "writable q h n" "writeCtr q h = w" "mem_bytes h data (msg_bytes q n) = new"
    "\<And>i. i < c \<Longrightarrow> bytes h (ring_addr (mRing q) (ring_size q) w i) = new ! i"
    using J by (simp_all add: write_copied_def)
  show "bytes h (data + of_nat c) = new ! c" using D(4) c by auto
  show "write_acts q data n (ByteLoad (data + of_nat c)) h h"
    using c by (intro acts_load(1) [OF D(1)]) (simp_all add: byte_rangeI buf_len_writable [OF D(2)])
  show "write_acts q data n (ByteStore (ring_addr (mRing q) (ring_size q) w c)) h h'"
    unfolding D(3) [symmetric]
    by (rule store_ring_byte [OF D(1,2) c, of _ "new ! c"]) (simp add: h' D(3))
  have "mem_bytes h' data (msg_bytes q n) = mem_bytes h data (msg_bytes q n)"
    using write_buffer_apart [OF buf D(1,2)] by (intro mem_bytes_cong) (simp add: h')
  moreover have w: "words64 h' = words64 h" by (simp add: h')
  moreover have "bytes h' (ring_addr (mRing q) (ring_size q) w i) = new ! i" if "i < Suc c" for i
  proof (cases "i = c")
    case False
    then have "i < c" using that by simp
    moreover have "msg_bytes q n \<le> unat (ring_size q)" using D(2) by (simp add: writable_def)
    ultimately have "ring_addr (mRing q) (ring_size q) w i \<noteq> ring_addr (mRing q) (ring_size q) w c"
      using ring_addr_inj [OF writable_stretch(2) [OF D(1,2)], of i c "mRing q"] c D(3) by auto
    with D(5) \<open>i < c\<close> show ?thesis by (simp add: h')
  qed (simp add: h')
  ultimately show "write_copied q data n w new (Suc c) h'"
    using D(1-4) by (simp add: write_copied_def words_only [OF w])
qed

lemma rg_write_copy:
  assumes buf: "buffer_ok q data n" and start: "write_copied q data n w new 0 h"
  shows "rg (env_writer q data (buf_len q n)) (write_acts q data n)
    (copyTo_prog (sizeofT q) (ring_tx q (ring_size q) w n) data 0 n)
    (\<lambda>x b' h'. x \<and> b' = b \<and> write_copied q data n w new (msg_bytes q n) h') b h"
proof -
  have D: "mq_inv q h" "writable q h n" "writeCtr q h = w"
    using start by (simp_all add: write_copied_def)
  note st = writable_stretch [OF D(1,2), unfolded D(3)]
  have data: "data \<noteq> 0" "disjoint_ranges data (msg_bytes q n) (mRing q) (unat (ring_size q))"
    using buf D(2) by (simp_all add: buffer_ok_def writable_def)
  obtain d1 k1 d2 k2 where pieces: "ring_pieces q w n d1 k1 d2 k2"
    and prog: "copyTo_prog (sizeofT q) (ring_tx q (ring_size q) w n) data 0 n =
      two_piece_copy d1 data k1 d2 (data + of_nat k1) k2"
    by (rule ring_copy_progs [OF st(1) data])
  note P = pieces [unfolded ring_pieces_def]
  have k: "k1 + k2 = msg_bytes q n" using P by simp
  show ?thesis
    unfolding prog k [symmetric]
  proof (rule rg_two_piece_copy [where src_at = "\<lambda>c. data + of_nat c" and val = "(!) new"
      and dst_at = "ring_addr (mRing q) (ring_size q) w"])
    show "reflp (env_writer q data (buf_len q n))" by (rule env_writer_order)
    show "stable (env_writer q data (buf_len q n)) (write_copied q data n w new c)" for c
      by (rule write_copied_stable)
    show "write_copied q data n w new 0 h" by (rule start)
    fix c h assume c: "c < k1 + k2" and J: "write_copied q data n w new c h"
    show "bytes h (data + of_nat c) = new ! c \<and>
        write_acts q data n (ByteLoad (data + of_nat c)) h h \<and>
        write_acts q data n (ByteStore (ring_addr (mRing q) (ring_size q) w c)) h
          (set_byte (ring_addr (mRing q) (ring_size q) w c) (new ! c) h) \<and>
        write_copied q data n w new (Suc c)
          (set_byte (ring_addr (mRing q) (ring_size q) w c) (new ! c) h)"
      using write_copy_step [OF buf c [unfolded k] J refl] by simp
  qed (use P st(2) in \<open>simp_all add: add.assoc\<close>)
qed

text \<open>The store that publishes.\<close>

lemma write_commit_step:
  assumes "write_copied q data n w new (msg_bytes q n) h"
  shows "write_acts q data n (CounterStore Release (mWritePtr q)) h
    (set_word64 (mWritePtr q) (w + n * sizeofT q) h)"
proof -
  let ?m = "msg_bytes q n"
  have D: "mq_inv q h" "writable q h n" "writeCtr q h = w" "mem_bytes h data ?m = new"
    "\<And>i. i < ?m \<Longrightarrow> bytes h (ring_addr (mRing q) (ring_size q) w i) = new ! i"
    using assms by (simp_all add: write_copied_def)
  have small: "?m < 18446744073709551616"
    using D(2) unat_u64_less [of "ring_size q"] unfolding writable_def by linarith
  define h' where "h' = set_writeCtr q (w + of_nat ?m) h"
  have h': "set_word64 (mWritePtr q) (w + n * sizeofT q) h = h'"
    by (simp add: h'_def set_word64_def set_writeCtr_def msg_bytes_of_nat [OF small])
  note cells = queue_cells [OF mq_invD(1) [OF D(1)], of "w + of_nat ?m" h, folded h'_def]
  have room: "used q h + ?m \<le> unat (ring_size q)"
    "no_seam (ring_size q) (readCtr q h) (used q h + ?m)"
    using D(2) by (simp_all add: writable_def)
  have new: "ring_bytes h (mRing q) (ring_size q) w ?m = mem_bytes h data ?m"
    by (rule nth_equalityI) (use D(4,5) in auto)
  note step = commit_appends [OF D(1) room msg_bytes_aligned, of h', unfolded D(3), OF cells(1,2)]
  have "contents q h' = contents q h @ ring_bytes h' (mRing q) (ring_size q) w ?m"
    and "mq_inv q h'"
    by (rule step; simp add: cells(5))+
  moreover have "ring_bytes h' (mRing q) (ring_size q) w ?m = mem_bytes h data ?m"
    using new cells(5) by (simp add: ring_bytes_def)
  ultimately show ?thesis
    unfolding h' by (simp add: write_acts_def by_writer_def cells(1) same_outside_ring_def cells(5))
qed

lemma rg_commitWrite:
  assumes start: "write_copied q data n w new (msg_bytes q n) h"
  shows "rg (env_writer q data (buf_len q n)) (write_acts q data n) (commitWrite_prog q n)
    (\<lambda>x b' h'. x \<and> b') b h"
proof -
  have "queue_wf q" using start by (simp add: write_copied_def mq_inv_def)
  then have ptr: "mWritePtr q \<noteq> nullptr" by (auto elim: queue_wfD)
  note S = write_copied_stable [of q data n w new "msg_bytes q n"]
  show ?thesis
    unfolding commitWrite_prog_shape
  proof (rule rg_load [OF S start ptr])
    show "write_acts q data n (CounterLoad Relaxed (mWritePtr q)) h1 h1"
      if "write_copied q data n w new (msg_bytes q n) h1" for h1
      using that by (intro acts_load(1)) (simp_all add: write_copied_def)
  next
    fix h1 assume h1: "write_copied q data n w new (msg_bytes q n) h1"
    then have w: "words64 h1 (mWritePtr q) = w" by (simp add: write_copied_def)
    show "rg (env_writer q data (buf_len q n)) (write_acts q data n)
        (StoreC Release (mWritePtr q) (words64 h1 (mWritePtr q) + n * sizeofT q) (Ret True))
        (\<lambda>x b' h'. x \<and> b') b h1"
      unfolding w
    proof (rule rg_store [OF S h1 ptr])
      fix h2 assume "write_copied q data n w new (msg_bytes q n) h2"
      from write_commit_step [OF this]
      show "write_acts q data n (CounterStore Release (mWritePtr q)) h2
          (set_word64 (mWritePtr q) (w + n * sizeofT q) h2) \<and>
        rg (env_writer q data (buf_len q n)) (write_acts q data n) (Ret True)
          (\<lambda>x b' h'. x \<and> b') True (set_word64 (mWritePtr q) (w + n * sizeofT q) h2)"
        by simp
    qed
  qed
qed

text \<open>
  A whole write: whatever the reader does meanwhile, it acts only as \<open>write_acts\<close> says,
  it returns true exactly if it has published, and it does if it had the room when it began.
\<close>

lemma rg_write:
  assumes sync: "flavor q = kSynchronizedReadWrite" and inv: "mq_inv q h"
    and buf: "buffer_ok q data n" and room: "write_room q h n"
  shows "rg (env_writer q data (buf_len q n)) (write_acts q data n) (fmq_write_prog q data n)
    (\<lambda>ok b' h'. ok = b' \<and> (has_room q n h \<longrightarrow> ok)) False h"
proof -
  let ?R = "env_writer q data (buf_len q n)" and ?G = "write_acts q data n"
  let ?post = "\<lambda>ok b' h'. ok = b' \<and> (has_room q n h \<longrightarrow> ok)"
  let ?w = "writeCtr q h" and ?new = "mem_bytes h data (buf_len q n)"
  have start: "write_start q data n (has_room q n h) ?w ?new h" using inv room by (simp add: write_start_def)
  have copied: "rg ?R ?G (bind_prog
      (copyTo_prog (sizeofT q) (ring_tx q (ring_size q) ?w n) data 0 n)
      (\<lambda>copied. if \<not> copied then Ret False else commitWrite_prog q n))
      ?post False h1"
    if "write_copied q data n ?w ?new 0 h1" for h1
  proof (rule rg_bind [OF env_writer_order(1)], rule rg_mono [OF rg_write_copy [OF buf that]])
    fix x b' h2 assume x: "x \<and> b' = False \<and> write_copied q data n ?w ?new (msg_bytes q n) h2"
    show "rg ?R ?G (if \<not> x then Ret False else commitWrite_prog q n) ?post b' h2"
      using rg_mono [OF rg_commitWrite, of q data n ?w ?new h2 ?post False] x by simp
  qed
  show ?thesis
    unfolding fmq_write_prog_def
  proof (rule rg_bind [OF env_writer_order(1)], rule rg_mono [OF rg_beginWrite [OF sync start]])
    fix r b' h1
    assume r: "(case r of (ok, tx) \<Rightarrow> \<lambda>b' h'. b' = False \<and> (has_room q n h \<longrightarrow> ok) \<and> (ok \<longrightarrow>
      tx = ring_tx q (ring_size q) ?w n \<and> write_copied q data n ?w ?new 0 h')) b' h1"
    show "rg ?R ?G (case r of (begun, tx) \<Rightarrow> if \<not> begun then Ret False else
        bind_prog (copyTo_prog (sizeofT q) tx data 0 n)
          (\<lambda>copied. if \<not> copied then Ret False else commitWrite_prog q n))
        ?post b' h1"
      using r copied by (cases r) auto
  qed
qed

section \<open>The reader\<close>

text \<open>
  A reader knows its own counter and that what it has seen waiting still waits; the state of its
  copy is that the first \<open>c\<close> of the oldest bytes are in the buffer.
\<close>

definition has_data :: "MessageQueue \<Rightarrow> size_t \<Rightarrow> heap \<Rightarrow> bool" where
  "has_data q n h \<longleftrightarrow> msg_bytes q n \<le> used q h"

definition read_seen :: "MessageQueue \<Rightarrow> u64 \<Rightarrow> nat \<Rightarrow> heap \<Rightarrow> bool" where
  "read_seen q r k h \<longleftrightarrow> mq_inv q h \<and> readCtr q h = r \<and> k \<le> used q h"

definition read_copied ::
  "MessageQueue \<Rightarrow> ptr \<Rightarrow> size_t \<Rightarrow> u64 \<Rightarrow> u8 list \<Rightarrow> nat \<Rightarrow> heap \<Rightarrow> bool" where
  "read_copied q data n r got c h \<longleftrightarrow> read_seen q r (msg_bytes q n) h \<and> c \<le> msg_bytes q n \<and>
     take (msg_bytes q n) (contents q h) = got \<and> (\<forall>i<c. bytes h (data + of_nat i) = got ! i)"

lemma env_readerD:
  assumes "env_reader q data m h h'" and "mq_inv q h"
  shows "mq_inv q h'" and "readCtr q h' = readCtr q h" and "used q h \<le> used q h'"
    and "k \<le> used q h \<Longrightarrow> take k (contents q h') = take k (contents q h)"
    and "i < m \<Longrightarrow> bytes h' (data + of_nat i) = bytes h (data + of_nat i)"
proof -
  obtain xs where xs: "contents q h' = contents q h @ xs"
    using assms by (auto simp: env_reader_def)
  from xs have "length (contents q h') = length (contents q h) + length xs" by simp
  then show "used q h \<le> used q h'" by simp
  show "take k (contents q h') = take k (contents q h)" if "k \<le> used q h" using that xs by simp
  show "mq_inv q h'" "readCtr q h' = readCtr q h"
    "i < m \<Longrightarrow> bytes h' (data + of_nat i) = bytes h (data + of_nat i)"
    using assms by (simp_all add: env_reader_def)
qed

lemma read_seen_stable: "stable (env_reader q data m) (read_seen q r k)"
  unfolding stable_def
proof (intro allI impI)
  fix h h' assume h: "read_seen q r k h" and e: "env_reader q data m h h'"
  then have "mq_inv q h" by (simp add: read_seen_def)
  from h env_readerD(1-3) [OF e this] show "read_seen q r k h'" by (simp add: read_seen_def)
qed

lemma buf_len_readable: "read_seen q r (msg_bytes q n) h \<Longrightarrow> buf_len q n = msg_bytes q n"
  using mq_invD(4) [of q h] by (simp add: read_seen_def buf_len_def)

lemma read_copied_stable:
  "stable (env_reader q data (buf_len q n)) (read_copied q data n r got c)"
  unfolding stable_def
proof (intro allI impI)
  fix h h'
  assume h: "read_copied q data n r got c h" and e: "env_reader q data (buf_len q n) h h'"
  then have seen: "read_seen q r (msg_bytes q n) h" by (simp add: read_copied_def)
  then have inv: "mq_inv q h" and has: "msg_bytes q n \<le> used q h" by (simp_all add: read_seen_def)
  have "read_seen q r (msg_bytes q n) h'" by (rule stableD [OF read_seen_stable seen e])
  with h env_readerD(4) [OF e inv has] env_readerD(5) [OF e inv, unfolded buf_len_readable [OF seen]]
  show "read_copied q data n r got c h'" by (simp add: read_copied_def)
qed

lemma rg_beginRead:
  assumes inv: "mq_inv q h" and small: "msg_bytes q n < 18446744073709551616"
  shows "rg (env_reader q data (buf_len q n)) (read_acts q data n) (beginRead_prog q n)
    (\<lambda>(ok, tx) b' h'. b' = b \<and> (has_data q n h \<longrightarrow> ok) \<and> (ok \<longrightarrow> tx = ring_tx q (ring_size q) (readCtr q h) n \<and>
      (\<exists>got. read_copied q data n (readCtr q h) got 0 h'))) b h"
proof -
  let ?R = "env_reader q data (buf_len q n)" and ?G = "read_acts q data n" and ?r = "readCtr q h"
  let ?Q = "\<lambda>(ok, tx) b' h'. b' = b \<and> (has_data q n h \<longrightarrow> ok) \<and> (ok \<longrightarrow> tx = ring_tx q (ring_size q) ?r n \<and>
      (\<exists>got. read_copied q data n ?r got 0 h'))"
  have wf: "queue_wf q" using inv by (rule mq_invD)
  then have ptrs: "mReadPtr q \<noteq> nullptr" "mWritePtr q \<noteq> nullptr" by (auto elim: queue_wfD)
  define k0 where "k0 = (if has_data q n h then msg_bytes q n else 0)"
  have start: "read_seen q ?r k0 h" using inv by (simp add: read_seen_def k0_def has_data_def)
  have loads: "?G (CounterLoad Acquire (mWritePtr q)) h1 h1" "?G (CounterLoad Relaxed (mReadPtr q)) h1 h1"
    if "read_seen q ?r k h1" for k h1
    using that by (auto intro!: acts_load(2) simp: read_seen_def)
  have granted: "rg ?R ?G (Ret (True, ring_tx q (ring_size q) ?r n)) ?Q b h1"
    if "read_seen q ?r (msg_bytes q n) h1" for h1
  proof (rule rg_ret [OF read_copied_stable])
    show "read_copied q data n ?r (take (msg_bytes q n) (contents q h1)) 0 h1"
      using that by (simp add: read_copied_def)
  qed auto
  have second: "rg ?R ?G (LoadC Relaxed (mReadPtr q) (\<lambda>r.
      if w mod sizeofT q \<noteq> 0 \<or> r mod sizeofT q \<noteq> 0 then Ret (False, MemTransaction_default)
      else if ring_size q < w - r then StoreC Release (mReadPtr q) w (Ret (False, MemTransaction_default))
      else if w - r < n * sizeofT q then Ret (False, MemTransaction_default)
      else Ret (True, ring_tx q (ring_size q) r n))) ?Q b h1"
    if h1: "read_seen q ?r k0 h1" and w: "w = writeCtr q h1" for h1 w
  proof -
    have M: "mq_inv q h1" "readCtr q h1 = ?r" using h1 by (simp_all add: read_seen_def)
    have al: "w mod sizeofT q = 0" "?r mod sizeofT q = 0"
      using mq_invD(2,3) [OF M(1)] M(2) w by (simp_all add: mod_sizeofT_iff)
    have u: "unat (w - ?r) = used q h1" using M(2) w by (simp add: used_def)
    have over: "\<not> ring_size q < w - ?r" using mq_invD(4) [OF M(1)] u by (simp add: word_less_nat_alt)
    have short: "w - ?r < n * sizeofT q \<longleftrightarrow> used q h1 < msg_bytes q n"
      by (simp add: word_less_nat_alt u msg_bytes_word [OF small])
    have enough: "\<not> used q h1 < msg_bytes q n" if "has_data q n h"
      using h1 that by (simp add: read_seen_def k0_def)
    have seen: "read_seen q ?r (used q h1) h1" using M by (simp add: read_seen_def)
    show ?thesis
    proof (rule rg_load [where G = "read_acts q data n", OF read_seen_stable seen ptrs(1), OF loads(2)])
      fix h2 assume h2: "read_seen q ?r (used q h1) h2"
      then have r: "readCtr q h2 = ?r" by (simp add: read_seen_def)
      have "read_seen q ?r (msg_bytes q n) h2" if "\<not> used q h1 < msg_bytes q n"
        using h2 that by (simp add: read_seen_def)
      from granted [OF this] enough show "rg ?R ?G
        (if w mod sizeofT q \<noteq> 0 \<or> readCtr q h2 mod sizeofT q \<noteq> 0
         then Ret (False, MemTransaction_default)
         else if ring_size q < w - readCtr q h2
         then StoreC Release (mReadPtr q) w (Ret (False, MemTransaction_default))
         else if w - readCtr q h2 < n * sizeofT q then Ret (False, MemTransaction_default)
         else Ret (True, ring_tx q (ring_size q) (readCtr q h2) n)) ?Q b h2"
        by (cases "used q h1 < msg_bytes q n") (simp_all only: r al over short if_True if_False
            not_True_eq_False not_False_eq_True simp_thms, auto)
    qed
  qed
  show ?thesis
    unfolding beginRead_prog_shape [OF wf]
    by (rule rg_load [where G = "read_acts q data n", OF read_seen_stable start ptrs(2), OF loads(1)])
      (assumption, rule second [OF _ refl])
qed

text \<open>Storing one byte of a message into the buffer of the caller.\<close>

lemma read_buffer_apart:
  assumes "buffer_ok q data n" and "mq_inv q h" and "msg_bytes q n \<le> used q h"
  shows "disjoint_ranges data (msg_bytes q n) (mRing q) (unat (ring_size q))"
  using assms(1,3) mq_invD(4) [OF assms(2)] by (simp add: buffer_ok_def)

lemma read_copy_step:
  assumes buf: "buffer_ok q data n" and c: "c < msg_bytes q n"
    and J: "read_copied q data n r got c h" and h': "h' = set_byte (data + of_nat c) (got ! c) h"
  shows "bytes h (ring_addr (mRing q) (ring_size q) r c) = got ! c"
    and "read_acts q data n (ByteLoad (ring_addr (mRing q) (ring_size q) r c)) h h"
    and "read_acts q data n (ByteStore (data + of_nat c)) h h'"
    and "read_copied q data n r got (Suc c) h'"
proof -
  have D: "mq_inv q h" "readCtr q h = r" "msg_bytes q n \<le> used q h"
    "take (msg_bytes q n) (contents q h) = got" "\<And>i. i < c \<Longrightarrow> bytes h (data + of_nat i) = got ! i"
    and seen: "read_seen q r (msg_bytes q n) h"
    using J by (simp_all add: read_copied_def read_seen_def)
  show "bytes h (ring_addr (mRing q) (ring_size q) r c) = got ! c"
    using D(2-4) c by (auto simp: contents_def)
  have w: "words64 h' = words64 h" by (simp add: h')
  have inv': "mq_inv q h'" using D(1) by (simp add: words_only [OF w])
  have S: "ring_size q \<noteq> 0" using D(1) by (auto simp: mq_inv_def elim: queue_wfD)
  have apart: "data + of_nat c \<noteq> ring_addr (mRing q) (ring_size q) p i" for p i
    by (rule apart_from_ring [OF read_buffer_apart [OF buf D(1,3)] c S])
  have same: "contents q h' = contents q h"
    using apart [symmetric] by (intro contents_cong [OF w]) (simp add: h')
  moreover have in_buf: "data + of_nat c \<in> byte_range data (buf_len q n)"
    using c by (simp add: byte_rangeI buf_len_readable [OF seen])
  ultimately show "read_acts q data n (ByteStore (data + of_nat c)) h h'"
    using inv' c by (auto simp: read_acts_def by_reader_def w buf_len_readable [OF seen] h')
  show "read_acts q data n (ByteLoad (ring_addr (mRing q) (ring_size q) r c)) h h"
    using c D(2,3) by (intro acts_load(2) [OF D(1)]) (auto simp: held_def)
  have small: "msg_bytes q n < 18446744073709551616"
    using D(3) mq_invD(4) [OF D(1)] unat_u64_less [of "ring_size q"] by linarith
  have "bytes h' (data + of_nat i) = got ! i" if "i < Suc c" for i
  proof (cases "i = c")
    case False
    then have i: "i < c" using that by simp
    have "unat (of_nat i :: u64) = i" "unat (of_nat c :: u64) = c"
      using i c small by (simp_all only: unat_of_nat_u64)
    with i have "(of_nat i :: u64) \<noteq> of_nat c" by auto
    with D(5) [OF i] show ?thesis by (simp add: h')
  qed (simp add: h')
  with D(2-4) seen same c show "read_copied q data n r got (Suc c) h'"
    by (simp add: read_copied_def read_seen_def words_only [OF w] w)
qed

lemma readable_ring_stretch:
  "read_seen q r (msg_bytes q n) h \<Longrightarrow> ring_stretch q (ring_size q) r n \<and>
     no_seam (ring_size q) r (msg_bytes q n)"
  using readable_stretch [of q h n] by (auto simp: read_seen_def)

lemma rg_read_copy:
  assumes buf: "buffer_ok q data n" and start: "read_copied q data n r got 0 h"
  shows "rg (env_reader q data (buf_len q n)) (read_acts q data n)
    (copyFrom_prog (sizeofT q) (ring_tx q (ring_size q) r n) data 0 n)
    (\<lambda>x b' h'. x \<and> b' = b \<and> read_copied q data n r got (msg_bytes q n) h') b h"
proof -
  have seen: "read_seen q r (msg_bytes q n) h" using start by (simp add: read_copied_def)
  note st = readable_ring_stretch [OF seen]
  have data: "data \<noteq> 0" "disjoint_ranges data (msg_bytes q n) (mRing q) (unat (ring_size q))"
    using buf read_buffer_apart [OF buf, of h] seen by (auto simp: buffer_ok_def read_seen_def)
  obtain d1 k1 d2 k2 where pieces: "ring_pieces q r n d1 k1 d2 k2"
    and prog: "copyFrom_prog (sizeofT q) (ring_tx q (ring_size q) r n) data 0 n =
      two_piece_copy data d1 k1 (data + of_nat k1) d2 k2"
    by (rule ring_copy_progs [OF st [THEN conjunct1] data])
  note P = pieces [unfolded ring_pieces_def]
  have k: "k1 + k2 = msg_bytes q n" using P by simp
  show ?thesis
    unfolding prog k [symmetric]
  proof (rule rg_two_piece_copy [where dst_at = "\<lambda>c. data + of_nat c" and val = "(!) got"
      and src_at = "ring_addr (mRing q) (ring_size q) r"])
    show "reflp (env_reader q data (buf_len q n))" by (rule env_reader_order)
    show "stable (env_reader q data (buf_len q n)) (read_copied q data n r got c)" for c
      by (rule read_copied_stable)
    show "read_copied q data n r got 0 h" by (rule start)
    fix c h assume c: "c < k1 + k2" and J: "read_copied q data n r got c h"
    show "bytes h (ring_addr (mRing q) (ring_size q) r c) = got ! c \<and>
        read_acts q data n (ByteLoad (ring_addr (mRing q) (ring_size q) r c)) h h \<and>
        read_acts q data n (ByteStore (data + of_nat c)) h
          (set_byte (data + of_nat c) (got ! c) h) \<and>
        read_copied q data n r got (Suc c) (set_byte (data + of_nat c) (got ! c) h)"
      using read_copy_step [OF buf c [unfolded k] J refl] by simp
  qed (use P st in \<open>simp_all add: add.assoc\<close>)
qed

text \<open>The store that retires.\<close>

lemma read_commit_step:
  assumes "read_copied q data n r got (msg_bytes q n) h"
  shows "read_acts q data n (CounterStore Release (mReadPtr q)) h
    (set_word64 (mReadPtr q) (r + n * sizeofT q) h)"
proof -
  let ?m = "msg_bytes q n"
  have D: "mq_inv q h" "readCtr q h = r" "?m \<le> used q h" "take ?m (contents q h) = got"
    "\<And>i. i < ?m \<Longrightarrow> bytes h (data + of_nat i) = got ! i"
    using assms by (simp_all add: read_copied_def read_seen_def)
  have small: "?m < 18446744073709551616"
    using D(3) mq_invD(4) [OF D(1)] unat_u64_less [of "ring_size q"] by linarith
  define h' where "h' = set_readCtr q (r + of_nat ?m) h"
  have h': "set_word64 (mReadPtr q) (r + n * sizeofT q) h = h'"
    by (simp add: h'_def set_word64_def set_readCtr_def msg_bytes_of_nat [OF small])
  note cells = queue_cells [OF mq_invD(1) [OF D(1)], of "r + of_nat ?m" h, folded h'_def]
  note step = commit_drops [OF D(1,3) msg_bytes_aligned, of h', unfolded D(2), OF cells(4,3)]
  have "contents q h' = drop ?m (contents q h)" and "mq_inv q h'"
    by (rule step; simp add: cells(6))+
  moreover have "length got = ?m" using D(3,4) by auto
  then have "mem_bytes h data ?m = take ?m (contents q h)"
    unfolding D(4) by (intro nth_equalityI) (simp_all add: D(5))
  ultimately show ?thesis unfolding h' by (simp add: read_acts_def by_reader_def cells(3,6))
qed

lemma rg_commitRead:
  assumes start: "read_copied q data n r got (msg_bytes q n) h"
  shows "rg (env_reader q data (buf_len q n)) (read_acts q data n) (commitRead_prog q n)
    (\<lambda>x b' h'. x \<and> b') b h"
proof -
  let ?R = "env_reader q data (buf_len q n)" and ?J = "read_copied q data n r got (msg_bytes q n)"
  have wf: "queue_wf q" using start by (simp add: read_copied_def read_seen_def mq_inv_def)
  then have ptrs: "mReadPtr q \<noteq> nullptr" "mWritePtr q \<noteq> nullptr" by (auto elim: queue_wfD)
  note S = read_copied_stable [of q data n r got "msg_bytes q n"]
  have loads: "read_acts q data n (CounterLoad Acquire (mWritePtr q)) h1 h1"
    "read_acts q data n (CounterLoad Relaxed (mReadPtr q)) h1 h1" if "?J h1" for h1
    using that by (auto intro!: acts_load(2) simp: read_copied_def read_seen_def)
  have third: "rg ?R (read_acts q data n) (StoreC Release (mReadPtr q) (r + n * sizeofT q) (Ret True))
      (\<lambda>x b' h'. x \<and> b') b h1" if "?J h1" for h1
    by (rule rg_store [OF S that ptrs(1)]) (use read_commit_step in simp)
  have second: "rg ?R (read_acts q data n) (LoadC Acquire (mWritePtr q) (\<lambda>w.
      if ring_size q < w - r then StoreC Release (mReadPtr q) w (Ret False)
      else StoreC Release (mReadPtr q) (r + n * sizeofT q) (Ret True))) (\<lambda>x b' h'. x \<and> b') b h1"
    if "?J h1" for h1
  proof (rule rg_load [where G = "read_acts q data n", OF S that ptrs(2), OF loads(1)])
    fix h2 assume h2: "?J h2"
    then have "\<not> ring_size q < writeCtr q h2 - r"
      using mq_invD(4) [of q h2] by (auto simp: read_copied_def read_seen_def word_less_nat_alt used_def)
    with third [OF h2] show "rg ?R (read_acts q data n)
        (if ring_size q < writeCtr q h2 - r then StoreC Release (mReadPtr q) (writeCtr q h2) (Ret False)
         else StoreC Release (mReadPtr q) (r + n * sizeofT q) (Ret True)) (\<lambda>x b' h'. x \<and> b') b h2"
      by (simp only: if_False)
  qed
  show ?thesis
    unfolding commitRead_prog_shape [OF wf]
  proof (rule rg_load [where G = "read_acts q data n", OF S start ptrs(1), OF loads(2)])
    fix h1 assume h1: "?J h1"
    then have r: "words64 h1 (mReadPtr q) = r" by (simp add: read_copied_def read_seen_def)
    show "rg ?R (read_acts q data n) (LoadC Acquire (mWritePtr q) (\<lambda>w.
        if ring_size q < w - words64 h1 (mReadPtr q) then StoreC Release (mReadPtr q) w (Ret False)
        else StoreC Release (mReadPtr q) (words64 h1 (mReadPtr q) + n * sizeofT q) (Ret True)))
        (\<lambda>x b' h'. x \<and> b') b h1"
      unfolding r by (rule second [OF h1])
  qed
qed

text \<open>A whole read, whatever the writer does meanwhile.\<close>

lemma rg_read:
  assumes inv: "mq_inv q h" and buf: "buffer_ok q data n"
    and small: "msg_bytes q n < 18446744073709551616"
  shows "rg (env_reader q data (buf_len q n)) (read_acts q data n) (fmq_read_prog q data n)
    (\<lambda>ok b' h'. ok = b' \<and> (has_data q n h \<longrightarrow> ok)) False h"
proof -
  let ?R = "env_reader q data (buf_len q n)" and ?G = "read_acts q data n"
  let ?post = "\<lambda>ok b' h'. ok = b' \<and> (has_data q n h \<longrightarrow> ok)"
  let ?r = "readCtr q h"
  have copied: "rg ?R ?G (bind_prog
      (copyFrom_prog (sizeofT q) (ring_tx q (ring_size q) ?r n) data 0 n)
      (\<lambda>copied. if \<not> copied then Ret False else commitRead_prog q n))
      ?post False h1"
    if "read_copied q data n ?r got 0 h1" for h1 got
  proof (rule rg_bind [OF env_reader_order(1)], rule rg_mono [OF rg_read_copy [OF buf that]])
    fix x b' h2 assume x: "x \<and> b' = False \<and> read_copied q data n ?r got (msg_bytes q n) h2"
    show "rg ?R ?G (if \<not> x then Ret False else commitRead_prog q n) ?post b' h2"
      using rg_mono [OF rg_commitRead, of q data n ?r got h2 ?post False] x by simp
  qed
  show ?thesis
    unfolding fmq_read_prog_def
  proof (rule rg_bind [OF env_reader_order(1)], rule rg_mono [OF rg_beginRead [OF inv small]])
    fix r b' h1
    assume r: "(case r of (ok, tx) \<Rightarrow> \<lambda>b' h'. b' = False \<and> (has_data q n h \<longrightarrow> ok) \<and> (ok \<longrightarrow>
      tx = ring_tx q (ring_size q) ?r n \<and> (\<exists>got. read_copied q data n ?r got 0 h'))) b' h1"
    show "rg ?R ?G (case r of (begun, tx) \<Rightarrow> if \<not> begun then Ret False else
        bind_prog (copyFrom_prog (sizeofT q) tx data 0 n)
          (\<lambda>copied. if \<not> copied then Ret False else commitRead_prog q n))
        ?post b' h1"
      using r copied by (cases r) auto
  qed
qed

text \<open>That the result is honest is what most users need.\<close>

lemma rg_write_honest:
  assumes "flavor q = kSynchronizedReadWrite" and "mq_inv q h"
    and "buffer_ok q data n" and "write_room q h n"
  shows "rg (env_writer q data (buf_len q n)) (write_acts q data n) (fmq_write_prog q data n)
    (\<lambda>ok b' h'. ok = b') False h"
  by (rule rg_mono [OF rg_write [OF assms]]) simp

lemma rg_read_honest:
  assumes "mq_inv q h" and "buffer_ok q data n" and "msg_bytes q n < 18446744073709551616"
  shows "rg (env_reader q data (buf_len q n)) (read_acts q data n) (fmq_read_prog q data n)
    (\<lambda>ok b' h'. ok = b') False h"
  by (rule rg_mono [OF rg_read [OF assms]]) simp

end
