(* ===== verification/Queue_Fine.thy ===== *)
theory Queue_Fine
  imports Queue_Interleaving
begin

text \<open>
  The system of one writer and one reader whose calls are programs of single accesses: what
  passes between them, that neither is ever stuck, and how many accesses a call takes.
\<close>

section \<open>The system\<close>

text \<open>The two threads.\<close>

datatype role = Writer | Reader

fun other :: "role \<Rightarrow> role" where
  "other Writer = Reader"
| "other Reader = Writer"

lemma other_simps [simp]: "other (other r) = r" "other r \<noteq> r" "r \<noteq> other r"
  by (cases r; simp)+

text \<open>
  A call in progress has its buffer, its message count and what is left of its program. The flag
  says whether it has stored to its counter; the code has no such variable.
\<close>

datatype side = Idle | Running ptr size_t bool "bool prog"

record fine =
  fmem :: heap
  wside :: side
  rside :: side

text \<open>The buffers of calls in progress do not overlap, and their owners leave them alone.\<close>

fun clear_of :: "MessageQueue \<Rightarrow> ptr \<Rightarrow> size_t \<Rightarrow> side \<Rightarrow> bool" where
  "clear_of q data n Idle = True"
| "clear_of q data n (Running data' n' b p) =
     disjoint_ranges data (buf_len q n) data' (buf_len q n')"

fun keeps_buffer :: "MessageQueue \<Rightarrow> heap \<Rightarrow> heap \<Rightarrow> side \<Rightarrow> bool" where
  "keeps_buffer q h h' Idle = True"
| "keeps_buffer q h h' (Running data n b p) =
     (\<forall>i<buf_len q n. bytes h' (data + of_nat i) = bytes h (data + of_nat i))"

text \<open>
  A step is the start of a call, one access of a call, its return, or a change of other memory.
  The labels are the bytes that become visible to the reader and those that the reader has
  taken: both happen at the store to a counter.
\<close>

inductive fine_step :: "MessageQueue \<Rightarrow> fine \<Rightarrow> u8 list \<Rightarrow> u8 list \<Rightarrow> fine \<Rightarrow> bool" for q where
  start_write: "wside s = Idle \<Longrightarrow> buffer_ok q data n \<Longrightarrow> write_room q (fmem s) n \<Longrightarrow>
    clear_of q data n (rside s) \<Longrightarrow>
    fine_step q s [] [] (s\<lparr>wside := Running data n False (fmq_write_prog q data n)\<rparr>)"
| write_access: "wside s = Running data n b p \<Longrightarrow> action p (fmem s) = Some (p', h') \<Longrightarrow>
    fine_step q s (if stores p = None then [] else mem_bytes (fmem s) data (msg_bytes q n)) []
      (s\<lparr>fmem := h', wside := Running data n (b \<or> stores p \<noteq> None) p'\<rparr>)"
| write_return: "wside s = Running data n b (Ret ok) \<Longrightarrow> fine_step q s [] [] (s\<lparr>wside := Idle\<rparr>)"
| start_read: "rside s = Idle \<Longrightarrow> buffer_ok q data n \<Longrightarrow> msg_bytes q n < 2 ^ 64 \<Longrightarrow>
    clear_of q data n (wside s) \<Longrightarrow>
    fine_step q s [] [] (s\<lparr>rside := Running data n False (fmq_read_prog q data n)\<rparr>)"
| read_access: "rside s = Running data n b p \<Longrightarrow> action p (fmem s) = Some (p', h') \<Longrightarrow>
    fine_step q s [] (if stores p = None then [] else mem_bytes (fmem s) data (msg_bytes q n))
      (s\<lparr>fmem := h', rside := Running data n (b \<or> stores p \<noteq> None) p'\<rparr>)"
| read_return: "rside s = Running data n b (Ret ok) \<Longrightarrow> fine_step q s [] [] (s\<lparr>rside := Idle\<rparr>)"
| other_memory: "client_change q (fmem s) h' \<Longrightarrow> keeps_buffer q (fmem s) h' (wside s) \<Longrightarrow>
    keeps_buffer q (fmem s) h' (rside s) \<Longrightarrow> fine_step q s [] [] (s\<lparr>fmem := h'\<rparr>)"

inductive_cases fine_stepE: "fine_step q s sent recv s'"

section \<open>The invariant\<close>

fun wside_ok :: "MessageQueue \<Rightarrow> heap \<Rightarrow> side \<Rightarrow> bool" where
  "wside_ok q h Idle = True"
| "wside_ok q h (Running data n b p) = (buffer_ok q data n \<and>
     rg (env_writer q data (buf_len q n)) (write_acts q data n) p (\<lambda>ok b' h'. ok = b') b h)"

fun rside_ok :: "MessageQueue \<Rightarrow> heap \<Rightarrow> side \<Rightarrow> bool" where
  "rside_ok q h Idle = True"
| "rside_ok q h (Running data n b p) = (buffer_ok q data n \<and>
     rg (env_reader q data (buf_len q n)) (read_acts q data n) p (\<lambda>ok b' h'. ok = b') b h)"

fun sides_apart :: "MessageQueue \<Rightarrow> side \<Rightarrow> side \<Rightarrow> bool" where
  "sides_apart q Idle r = True"
| "sides_apart q (Running data n b p) r = clear_of q data n r"

definition fine_inv :: "MessageQueue \<Rightarrow> fine \<Rightarrow> bool" where
  "fine_inv q s \<longleftrightarrow> sync_inv q (fmem s) \<and> wside_ok q (fmem s) (wside s) \<and>
     rside_ok q (fmem s) (rside s) \<and> sides_apart q (wside s) (rside s)"

lemma sides_apart_idle [simp]: "sides_apart q w Idle"
  by (cases w) simp_all

lemma sides_apart_running:
  "sides_apart q w (Running data n b p) = clear_of q data n w"
  by (cases w) (simp_all add: disjoint_ranges_sym)

lemma buffer_outside_ring:
  assumes "buffer_ok q data n" and "i < buf_len q n" and "j < unat (ring_size q)"
  shows "data + of_nat i \<noteq> mRing q + of_nat j"
proof (rule disjoint_ranges_neq [OF _ assms(2,3)])
  show "disjoint_ranges data (buf_len q n) (mRing q) (unat (ring_size q))"
    using assms(1) by (simp add: buf_len_def buffer_ok_def)
qed

text \<open>What one side does is among the changes the other side reckons with.\<close>

lemma reader_meets_writer:
  assumes "by_writer q data n c h h'" and "buffer_ok q data' n'"
  shows "env_reader q data' (buf_len q n') h h'"
proof -
  have "bytes h' (data' + of_nat i) = bytes h (data' + of_nat i)" if "i < buf_len q n'" for i
    using assms(1) buffer_outside_ring [OF assms(2) that]
    by (auto simp: by_writer_def same_outside_ring_def)
  with assms(1) show ?thesis by (auto simp: by_writer_def env_reader_def)
qed

lemma writer_meets_reader:
  assumes "by_reader q data n c h h'" and buf: "buffer_ok q data n"
    and apart: "disjoint_ranges data' m data (buf_len q n)"
  shows "env_writer q data' m h h'"
proof -
  have same: "bytes h' a = bytes h a" if "\<forall>i<buf_len q n. a \<noteq> data + of_nat i" for a
    using assms(1) that by (simp add: by_reader_def)
  have "length (contents q h') \<le> length (contents q h)"
    using assms(1) by (auto simp: by_reader_def)
  moreover have "bytes h' (mRing q + of_nat j) = bytes h (mRing q + of_nat j)"
    if "j < unat (ring_size q)" for j
    using buffer_outside_ring [OF buf _ that] by (intro same) metis
  moreover have "bytes h' (data' + of_nat i) = bytes h (data' + of_nat i)" if "i < m" for i
    using disjoint_ranges_neq [OF apart that] by (intro same) blast
  ultimately show ?thesis using assms(1) by (simp add: by_reader_def env_writer_def)
qed

lemma wside_ok_env:
  "(\<And>data n b p. w = Running data n b p \<Longrightarrow> env_writer q data (buf_len q n) h h') \<Longrightarrow>
     wside_ok q h w \<Longrightarrow> wside_ok q h' w"
  by (cases w) (auto intro: rg_environment [OF env_writer_order(2)])

lemma rside_ok_env:
  "(\<And>data n b p. r = Running data n b p \<Longrightarrow> env_reader q data (buf_len q n) h h') \<Longrightarrow>
     rside_ok q h r \<Longrightarrow> rside_ok q h' r"
  by (cases r) (auto intro: rg_environment [OF env_reader_order(2)])

lemma fine_invD:
  assumes "fine_inv q s"
  shows "mq_inv q (fmem s)" and "flavor q = kSynchronizedReadWrite"
    and "wside_ok q (fmem s) (wside s)" and "rside_ok q (fmem s) (rside s)"
    and "sides_apart q (wside s) (rside s)"
  using assms by (simp_all add: fine_inv_def sync_inv_def)

text \<open>One access of the writer, and of the reader.\<close>

lemma writer_did:
  assumes inv: "fine_inv q s" and w: "wside s = Running data n b p"
    and a: "action p (fmem s) = Some (p', h')"
  shows "by_writer q data n (stores p) (fmem s) h'"
proof -
  note D = fine_invD [OF inv]
  have "rg (env_writer q data (buf_len q n)) (write_acts q data n) p (\<lambda>ok b' h'. ok = b') b (fmem s)"
    using D(3) w by simp
  from rg_action [OF this env_writer_order(1) a] show ?thesis by (metis write_acts_def)
qed

lemma reader_did:
  assumes inv: "fine_inv q s" and r: "rside s = Running data n b p"
    and a: "action p (fmem s) = Some (p', h')"
  shows "by_reader q data n (stores p) (fmem s) h'"
proof -
  note D = fine_invD [OF inv]
  have "rg (env_reader q data (buf_len q n)) (read_acts q data n) p (\<lambda>ok b' h'. ok = b') b (fmem s)"
    using D(4) r by simp
  from rg_action [OF this env_reader_order(1) a] show ?thesis by (metis read_acts_def)
qed

lemma fine_write_access:
  assumes inv: "fine_inv q s" and w: "wside s = Running data n b p"
    and a: "action p (fmem s) = Some (p', h')"
  shows "fine_inv q (s\<lparr>fmem := h', wside := Running data n (b \<or> stores p \<noteq> None) p'\<rparr>)"
    and "contents q h' = contents q (fmem s) @
      (if stores p = None then [] else mem_bytes (fmem s) data (msg_bytes q n))"
proof -
  note D = fine_invD [OF inv]
  have buf: "buffer_ok q data n" and p: "rg (env_writer q data (buf_len q n)) (write_acts q data n) p
      (\<lambda>ok b' h'. ok = b') b (fmem s)"
    using D(3) w by simp_all
  have act: "rg (env_writer q data (buf_len q n)) (write_acts q data n) p' (\<lambda>ok b' h'. ok = b')
      (b \<or> stores p \<noteq> None) h'"
    by (rule rg_action [OF p env_writer_order(1) a])
  note did = writer_did [OF inv w a]
  have r: "rside_ok q h' (rside s)"
    by (rule rside_ok_env [OF _ D(4)]) (use D(4) in \<open>auto intro: reader_meets_writer [OF did]\<close>)
  have "mq_inv q h'" using did by (simp add: by_writer_def)
  with act D(2,5) r buf w
  show "fine_inv q (s\<lparr>fmem := h', wside := Running data n (b \<or> stores p \<noteq> None) p'\<rparr>)"
    by (simp add: fine_inv_def sync_inv_def)
  show "contents q h' = contents q (fmem s) @
      (if stores p = None then [] else mem_bytes (fmem s) data (msg_bytes q n))"
    using did by (simp add: by_writer_def)
qed

lemma fine_read_access:
  assumes inv: "fine_inv q s" and r: "rside s = Running data n b p"
    and a: "action p (fmem s) = Some (p', h')"
  shows "fine_inv q (s\<lparr>fmem := h', rside := Running data n (b \<or> stores p \<noteq> None) p'\<rparr>)"
    and "contents q (fmem s) =
      (if stores p = None then [] else mem_bytes (fmem s) data (msg_bytes q n)) @ contents q h'"
proof -
  note D = fine_invD [OF inv]
  have buf: "buffer_ok q data n" and p: "rg (env_reader q data (buf_len q n)) (read_acts q data n) p
      (\<lambda>ok b' h'. ok = b') b (fmem s)"
    using D(4) r by simp_all
  have act: "rg (env_reader q data (buf_len q n)) (read_acts q data n) p' (\<lambda>ok b' h'. ok = b')
      (b \<or> stores p \<noteq> None) h'"
    by (rule rg_action [OF p env_reader_order(1) a])
  note did = reader_did [OF inv r a]
  have w: "wside_ok q h' (wside s)"
    by (rule wside_ok_env [OF _ D(3)])
      (use D(5) r in \<open>auto intro: writer_meets_reader [OF did buf]\<close>)
  have "mq_inv q h'" using did by (simp add: by_reader_def)
  with act D(2,5) w buf r
  show "fine_inv q (s\<lparr>fmem := h', rside := Running data n (b \<or> stores p \<noteq> None) p'\<rparr>)"
    by (simp add: fine_inv_def sync_inv_def sides_apart_running)
  show "contents q (fmem s) =
      (if stores p = None then [] else mem_bytes (fmem s) data (msg_bytes q n)) @ contents q h'"
    using did by (simp add: by_reader_def)
qed

lemma fine_client:
  assumes inv: "fine_inv q s" and ch: "client_change q (fmem s) h'"
    and "keeps_buffer q (fmem s) h' (wside s)" and "keeps_buffer q (fmem s) h' (rside s)"
  shows "fine_inv q (s\<lparr>fmem := h'\<rparr>)" and "contents q h' = contents q (fmem s)"
proof -
  note D = fine_invD [OF inv]
  note fr = client_change_frame [OF ch D(1)]
  have "wside_ok q h' (wside s)"
    by (rule wside_ok_env [OF _ D(3)])
      (use assms(2,3) fr in \<open>auto simp: env_writer_def client_change_def\<close>)
  moreover have "rside_ok q h' (rside s)"
    by (rule rside_ok_env [OF _ D(4)])
      (use assms(2,4) fr in \<open>auto simp: env_reader_def client_change_def\<close>)
  ultimately show "fine_inv q (s\<lparr>fmem := h'\<rparr>)"
    using D fr(1) by (simp add: fine_inv_def sync_inv_def)
  show "contents q h' = contents q (fmem s)" by (rule fr(2))
qed

lemma fine_step_preserves:
  assumes inv: "fine_inv q s" and step: "fine_step q s xs ys s'"
  shows "fine_inv q s' \<and> contents q (fmem s) @ xs = ys @ contents q (fmem s')"
  using step
proof cases
  case (start_write data n)
  with fine_invD [OF inv] rg_write_honest [of q "fmem s" data n] show ?thesis
    by (simp add: fine_inv_def sync_inv_def)
next
  case (write_access data n b p p' h')
  with fine_write_access [OF inv write_access(4,5)] show ?thesis by simp
next
  case (write_return data n b ok)
  with fine_invD [OF inv] show ?thesis by (simp add: fine_inv_def sync_inv_def)
next
  case (start_read data n)
  with fine_invD [OF inv] rg_read_honest [of q "fmem s" data n] show ?thesis
    by (simp add: fine_inv_def sync_inv_def sides_apart_running)
next
  case (read_access data n b p p' h')
  with fine_read_access [OF inv read_access(4,5)] show ?thesis by simp
next
  case (read_return data n b ok)
  with fine_invD [OF inv] show ?thesis by (simp add: fine_inv_def sync_inv_def)
next
  case (other_memory h')
  with fine_client [OF inv other_memory(4-6)] show ?thesis by simp
qed

interpretation fine_channel: fifo_channel "fine_step q" "fine_inv q" "\<lambda>s. contents q (fmem s)"
  "unat (ring_size q)" for q
proof
  show "fine_inv q s'" if "fine_inv q s" "fine_step q s xs ys s'" for s xs ys s'
    using fine_step_preserves that by blast
  show "contents q (fmem s) @ xs = ys @ contents q (fmem s')"
    if "fine_inv q s" "fine_step q s xs ys s'" for s xs ys s'
    using fine_step_preserves that by blast
  show "length (contents q (fmem s)) \<le> unat (ring_size q)" if "fine_inv q s" for s
    using mq_invD(4) [OF fine_invD(1) [OF that]] by simp
qed

lemma fine_inv_start:
  "flavor q = kSynchronizedReadWrite \<Longrightarrow> mq_inv q h \<Longrightarrow>
     fine_inv q \<lparr>fmem = h, wside = Idle, rside = Idle\<rparr>"
  by (simp add: fine_inv_def sync_inv_def)

section \<open>What passes through the queue\<close>

text \<open>
  The queue is a FIFO for one writer and one reader down to the single access. Whatever
  loads, stores and copied bytes of the two sides interleave, from an empty queue on, the bytes
  that reads have taken are, in order, a prefix of the bytes that writes have published; what
  is missing is in the ring, and is at most one ring. Each side publishes or takes the whole
  buffer of a call at one store.
\<close>

lemma accesses_keep_fifo:
  assumes "run (fine_step q) \<lparr>fmem = h, wside = Idle, rside = Idle\<rparr> sent recv s"
    and "flavor q = kSynchronizedReadWrite" and "mq_inv q h" and "contents q h = []"
  shows "sent = recv @ contents q (fmem s) \<and>
    length sent \<le> length recv + unat (ring_size q) \<and> mq_inv q (fmem s)"
proof -
  note inv = fine_inv_start [OF assms(2,3)]
  from fine_channel.received_is_prefix [OF assms(1) inv] assms(4)
    fine_invD(1) [OF fine_channel.inv_run [OF assms(1) inv]]
  show ?thesis by simp
qed

text \<open>
  A call is never stuck, fails no check and meets no undefined behaviour, and its result is
  honest. In every state that the two sides can reach, a call in progress either has another
  access to make or returns, and it returns true exactly if it has published, or taken, its
  messages.
\<close>

lemma accesses_never_stuck:
  assumes "run (fine_step q) \<lparr>fmem = h, wside = Idle, rside = Idle\<rparr> sent recv s"
    and "flavor q = kSynchronizedReadWrite" and "mq_inv q h"
    and "wside s = Running data n done p \<or> rside s = Running data n done p"
  shows "p = Ret done \<or> (\<exists>p' h'. action p (fmem s) = Some (p', h'))"
proof -
  have inv: "fine_inv q s"
    using assms(1) fine_inv_start [OF assms(2,3)] by (rule fine_channel.inv_run)
  from assms(4) show ?thesis
  proof
    assume "wside s = Running data n done p"
    with fine_invD(3) [OF inv] rg_proceeds [OF _ env_writer_order(1)] show ?thesis by fastforce
  next
    assume "rside s = Running data n done p"
    with fine_invD(4) [OF inv] rg_proceeds [OF _ env_reader_order(1)] show ?thesis by fastforce
  qed
qed

section \<open>How long a call takes\<close>

text \<open>
  A call whose accesses meet memory as others have left it: before the \<open>i\<close>-th access it is the
  \<open>i\<close>-th of the list, without any relation to what it was before.
\<close>

fun against :: "'a prog \<Rightarrow> heap list \<Rightarrow> 'a prog" where
  "against p [] = p"
| "against p (h # hs) = (case action p h of None \<Rightarrow> p | Some (p', h') \<Rightarrow> against p' hs)"

primrec within :: "'a prog \<Rightarrow> nat \<Rightarrow> ('a \<Rightarrow> bool) \<Rightarrow> bool" where
  "within (Ret x) k Q = Q x"
| "within (Fail e) k Q = False"
| "within (LoadC mo p f) k Q = (p \<noteq> nullptr \<and> (case k of 0 \<Rightarrow> False | Suc j \<Rightarrow> \<forall>v. within (f v) j Q))"
| "within (StoreC mo p v f) k Q = (p \<noteq> nullptr \<and> (case k of 0 \<Rightarrow> False | Suc j \<Rightarrow> within f j Q))"
| "within (LoadB p f) k Q = (case k of 0 \<Rightarrow> False | Suc j \<Rightarrow> \<forall>v. within (f v) j Q)"
| "within (StoreB p v f) k Q = (case k of 0 \<Rightarrow> False | Suc j \<Rightarrow> within f j Q)"

lemma against_ret [simp]: "against (Ret x) hs = Ret x"
  by (cases hs) simp_all

lemma within_returns:
  "within p k Q \<Longrightarrow> k \<le> length hs \<Longrightarrow> \<exists>x. against p hs = Ret x \<and> Q x"
proof (induction hs arbitrary: p k)
  case Nil
  then show ?case by (cases p) auto
next
  case (Cons h hs)
  then show ?case by (cases p) (auto split: nat.splits)
qed

lemma within_mono: "within p k Q \<Longrightarrow> k \<le> k' \<Longrightarrow> within p k' Q"
proof (induction p arbitrary: k k')
  case (LoadC mo a f)
  from LoadC.prems LoadC.IH [OF rangeI] show ?case by (cases k; cases k') auto
next
  case (LoadB a f)
  from LoadB.prems LoadB.IH [OF rangeI] show ?case by (cases k; cases k') auto
next
  case (StoreC mo a v f)
  from StoreC.prems StoreC.IH show ?case by (cases k; cases k') auto
next
  case (StoreB a v f)
  from StoreB.prems StoreB.IH show ?case by (cases k; cases k') auto
qed simp_all

lemma within_bind:
  "within m k Q \<Longrightarrow> (\<And>x. Q x \<Longrightarrow> within (f x) j Q') \<Longrightarrow> within (bind_prog m f) (k + j) Q'"
proof (induction m arbitrary: k)
  case (Ret x)
  then show ?case using within_mono [of "f x" j Q' "k + j"] by simp
next
  case (LoadC mo a g)
  from LoadC.prems LoadC.IH [OF rangeI] show ?case by (cases k) auto
next
  case (LoadB a g)
  from LoadB.prems LoadB.IH [OF rangeI] show ?case by (cases k) auto
next
  case (StoreC mo a v g)
  from StoreC.prems StoreC.IH show ?case by (cases k) auto
next
  case (StoreB a v g)
  from StoreB.prems StoreB.IH show ?case by (cases k) auto
qed simp

lemma within_copy_bytes: "within (copy_bytes k dst src i) (2 * k) (\<lambda>_. True)"
proof (induction k arbitrary: i)
  case (Suc k)
  have "within (copy_bytes k dst src (Suc i)) (2 * k) (\<lambda>_. True)" by (rule Suc)
  then show ?case by simp
qed simp

lemma within_two_pieces:
  "within (two_piece_copy d1 s1 k1 d2 s2 k2) (2 * (k1 + k2)) (\<lambda>x. x)"
proof -
  have "within (bind_prog (copy_bytes k2 d2 s2 0) (\<lambda>_. Ret True)) (2 * k2 + 0) (\<lambda>x. x)"
    by (rule within_bind [OF within_copy_bytes]) simp
  then have "within (two_piece_copy d1 s1 k1 d2 s2 k2) (2 * k1 + 2 * k2) (\<lambda>x. x)"
    unfolding two_piece_copy_def by (intro within_bind [OF within_copy_bytes]) simp
  then show ?thesis by (simp add: add_mult_distrib2)
qed

text \<open>A begun transaction is one of the ring, whatever the counters were.\<close>

definition begun_at :: "MessageQueue \<Rightarrow> size_t \<Rightarrow> bool \<times> MemTransaction \<Rightarrow> bool" where
  "begun_at q n r \<longleftrightarrow> (case r of (ok, tx) \<Rightarrow> ok \<longrightarrow>
     (\<exists>p. tx = ring_tx q (ring_size q) p n \<and> ring_stretch q (ring_size q) p n))"

lemma begun_at_simps [simp]: "begun_at q n (False, tx)"
  by (simp add: begun_at_def)

lemma ring_stretchI:
  assumes "queue_wf q" and "p mod sizeofT q = 0" and "msg_bytes q n \<le> unat (ring_size q)"
  shows "ring_stretch q (ring_size q) p n"
  using assms
  by (auto simp: ring_stretch_def msg_bytes_def mod_sizeofT_iff elim: queue_wfD)

lemma fits_iff:
  assumes "queue_wf q"
  shows "ring_size q div sizeofT q < n \<longleftrightarrow> unat (ring_size q) < msg_bytes q n"
proof -
  have "sizeofT q \<noteq> 0" using assms by (rule queue_wfD)
  then show ?thesis by (simp add: div_less_iff msg_bytes_def)
qed

lemma beginWrite_prog_unsync:
  assumes "queue_wf q" and "flavor q = kUnsynchronizedWrite"
  shows "beginWrite_prog q n MemTransaction_default =
    (if ring_size q div sizeofT q < n then Ret (False, MemTransaction_default)
     else LoadC Relaxed (mWritePtr q) (\<lambda>w. if w mod sizeofT q \<noteq> 0 then Ret (False, MemTransaction_default)
       else Ret (True, ring_tx q (ring_size q) w n)))"
proof -
  obtain d where "mDesc q = Some d" "getSize d = ring_size q" "getQuantum d = sizeofT q"
    "sizeofT q \<noteq> 0" "ring_size q \<noteq> 0"
    using assms(1) by (rule queue_wfD) blast
  with assms(2) show ?thesis
    by (simp add: beginWrite_prog_def load64_prog_def deref_desc_def getQuantumCount_def
        ring_tx_def Let_def fun_eq_iff)
qed

lemma within_beginWrite:
  assumes wf: "queue_wf q"
  shows "within (beginWrite_prog q n MemTransaction_default) 3 (begun_at q n)"
proof -
  have ptrs: "mReadPtr q \<noteq> nullptr" "mWritePtr q \<noteq> nullptr" using wf by (auto elim: queue_wfD)
  have last: "within (LoadC Relaxed (mWritePtr q) (\<lambda>w. if w mod sizeofT q \<noteq> 0
      then Ret (False, MemTransaction_default) else Ret (True, ring_tx q (ring_size q) w n)))
      (Suc k) (begun_at q n)" if "\<not> ring_size q div sizeofT q < n" for k
    using ptrs that ring_stretchI [OF wf, of _ n] unfolding begun_at_def
    by (simp add: fits_iff [OF wf] not_less) metis
  show ?thesis
  proof (cases "flavor q")
    case kSynchronizedReadWrite
    show ?thesis
      unfolding beginWrite_prog_shape [OF wf kSynchronizedReadWrite]
      using ptrs last [of 0] by (auto simp: numeral_3_eq_3)
  next
    case kUnsynchronizedWrite
    show ?thesis
      unfolding beginWrite_prog_unsync [OF wf kUnsynchronizedWrite]
      using last [of 2] by (simp del: within.simps(3) add: numeral_3_eq_3)
  qed
qed

lemma read_request_begun:
  assumes wf: "queue_wf q" and small: "msg_bytes q n < 18446744073709551616"
    and r: "r mod sizeofT q = 0" "\<not> ring_size q < w - r" "\<not> w - r < n * sizeofT q"
  shows "begun_at q n (True, ring_tx q (ring_size q) r n)"
proof -
  have "unat (n * sizeofT q) \<le> unat (w - r)" and "unat (w - r) \<le> unat (ring_size q)"
    using r(2,3) by (simp_all only: not_less word_le_nat_alt)
  then have "msg_bytes q n \<le> unat (ring_size q)" by (simp add: msg_bytes_word [OF small])
  then show ?thesis using ring_stretchI [OF wf r(1)] by (auto simp: begun_at_def)
qed

lemma within_beginRead:
  assumes wf: "queue_wf q" and small: "msg_bytes q n < 18446744073709551616"
  shows "within (beginRead_prog q n) 3 (begun_at q n)"
proof -
  have ptrs: "mReadPtr q \<noteq> nullptr" "mWritePtr q \<noteq> nullptr" using wf by (auto elim: queue_wfD)
  then show ?thesis
    unfolding beginRead_prog_shape [OF wf] using read_request_begun [OF wf small] by simp
qed

lemma begun_copies:
  assumes "begun_at q n (True, tx)" and "buffer_ok q data n"
  obtains p d1 k1 d2 k2 where "ring_pieces q p n d1 k1 d2 k2" and "k1 + k2 = buf_len q n"
    and "copyTo_prog (sizeofT q) tx data 0 n = two_piece_copy d1 data k1 d2 (data + of_nat k1) k2"
    and "copyFrom_prog (sizeofT q) tx data 0 n = two_piece_copy data d1 k1 (data + of_nat k1) d2 k2"
proof -
  obtain p where tx: "tx = ring_tx q (ring_size q) p n" and st: "ring_stretch q (ring_size q) p n"
    using assms(1) by (auto simp: begun_at_def)
  then have fits: "msg_bytes q n \<le> unat (ring_size q)" by (simp add: ring_stretch_def msg_bytes_def)
  then have data: "data \<noteq> 0" "disjoint_ranges data (msg_bytes q n) (mRing q) (unat (ring_size q))"
    using assms(2) by (simp_all add: buffer_ok_def)
  obtain d1 k1 d2 k2 where pieces: "ring_pieces q p n d1 k1 d2 k2"
    and progs: "copyTo_prog (sizeofT q) (ring_tx q (ring_size q) p n) data 0 n =
        two_piece_copy d1 data k1 d2 (data + of_nat k1) k2"
      "copyFrom_prog (sizeofT q) (ring_tx q (ring_size q) p n) data 0 n =
        two_piece_copy data d1 k1 (data + of_nat k1) d2 k2"
    by (rule ring_copy_progs [OF st data])
  have "k1 + k2 = buf_len q n" using pieces by (simp add: ring_pieces_def buf_len_fits [OF fits])
  from that [OF pieces this progs [folded tx]] show ?thesis .
qed

lemma within_copies:
  assumes "begun_at q n (True, tx)" and "buffer_ok q data n"
  shows "within (copyTo_prog (sizeofT q) tx data 0 n) (2 * buf_len q n) (\<lambda>x. x)"
    and "within (copyFrom_prog (sizeofT q) tx data 0 n) (2 * buf_len q n) (\<lambda>x. x)"
  using begun_copies [OF assms] within_two_pieces by metis+

lemma within_write:
  assumes wf: "queue_wf q" and buf: "buffer_ok q data n"
  shows "within (fmq_write_prog q data n) (3 + (2 * buf_len q n + 2)) (\<lambda>_. True)"
proof -
  have ptr: "mWritePtr q \<noteq> nullptr" using wf by (auto elim: queue_wfD)
  have "within (bind_prog (copyTo_prog (sizeofT q) tx data 0 n)
      (\<lambda>copied. if \<not> copied then Ret False else commitWrite_prog q n)) (2 * buf_len q n + 2) (\<lambda>_. True)"
    if "begun_at q n (True, tx)" for tx
    by (rule within_bind [OF within_copies(1) [OF that buf]]) (simp add: commitWrite_prog_shape ptr)
  then show ?thesis
    unfolding fmq_write_prog_def by (intro within_bind [OF within_beginWrite [OF wf]]) auto
qed

lemma within_read:
  assumes wf: "queue_wf q" and buf: "buffer_ok q data n"
    and small: "msg_bytes q n < 18446744073709551616"
  shows "within (fmq_read_prog q data n) (3 + (2 * buf_len q n + 3)) (\<lambda>_. True)"
proof -
  have ptrs: "mReadPtr q \<noteq> nullptr" "mWritePtr q \<noteq> nullptr" using wf by (auto elim: queue_wfD)
  have "within (bind_prog (copyFrom_prog (sizeofT q) tx data 0 n)
      (\<lambda>copied. if \<not> copied then Ret False else commitRead_prog q n)) (2 * buf_len q n + 3) (\<lambda>_. True)"
    if "begun_at q n (True, tx)" for tx
    by (rule within_bind [OF within_copies(2) [OF that buf]])
      (simp add: commitRead_prog_shape [OF wf] ptrs)
  then show ?thesis
    unfolding fmq_read_prog_def by (intro within_bind [OF within_beginRead [OF wf small]]) auto
qed

text \<open>
  C10: reads and writes are wait-free. Whatever values others store in the counters and the ring
  between any two accesses of a call, even with no regard to the protocol, the call fails no
  check and returns, after six accesses at most beside the two for each byte that it copies; a
  request larger than the ring copies none.
\<close>

theorem calls_are_wait_free:
  assumes "queue_wf q" and "buffer_ok q data n" and "msg_bytes q n < 2 ^ 64"
    and "6 + 2 * buf_len q n \<le> length hs"
  shows "(\<exists>ok. against (fmq_write_prog q data n) hs = Ret ok) \<and>
    (\<exists>ok. against (fmq_read_prog q data n) hs = Ret ok)"
proof -
  have small: "msg_bytes q n < 18446744073709551616" using assms(3) by simp
  show ?thesis
    using within_returns [OF within_write [OF assms(1,2)], of hs]
      within_returns [OF within_read [OF assms(1,2) small], of hs] assms(4) by auto
qed

section \<open>A call that is not interrupted\<close>

text \<open>
  When the other side rests, the accesses of a call do what the whole call does, and the steps
  of the system publish exactly what the call adds.
\<close>

lemma run_write_access:
  assumes "wside s = Running data n b p" and "action p (fmem s) = Some (p', h')"
    and "run (fine_step q) (s\<lparr>fmem := h', wside := Running data n (b \<or> stores p \<noteq> None) p'\<rparr>) xs [] s'"
  shows "\<exists>sent. run (fine_step q) s sent [] s'"
proof -
  note first = run_single [where step = "fine_step q", OF write_access [OF assms(1,2)]]
  from run_trans [OF first assms(3)] show ?thesis by auto
qed

lemma write_accesses_exec:
  "exec p (fmem s) = Inr (x, h') \<Longrightarrow> wside s = Running data n b p \<Longrightarrow>
     \<exists>b' sent. run (fine_step q) s sent [] (s\<lparr>fmem := h', wside := Running data n b' (Ret x)\<rparr>)"
proof (induction p arbitrary: s b)
  case (Ret y)
  then have "s\<lparr>fmem := h', wside := Running data n b (Ret x)\<rparr> = s" by simp
  then show ?case by (metis run_refl)
next
  case (LoadC mo a f)
  have a: "action (LoadC mo a f) (fmem s) = Some (f (words64 (fmem s) a), fmem s)"
    and go: "exec (f (words64 (fmem s) a)) (fmem s) = Inr (x, h')"
    using LoadC.prems(1) by (simp_all split: if_splits)
  from LoadC.IH [OF rangeI, of _ "s\<lparr>wside := Running data n b (f (words64 (fmem s) a))\<rparr>" b] go
    run_write_access [OF LoadC.prems(2) a] show ?case by (fastforce simp: stores_def)
next
  case (StoreC mo a v f)
  have a: "action (StoreC mo a v f) (fmem s) = Some (f, set_word64 a v (fmem s))"
    and go: "exec f (set_word64 a v (fmem s)) = Inr (x, h')"
    using StoreC.prems(1) by (simp_all split: if_splits)
  from StoreC.IH [of "s\<lparr>fmem := set_word64 a v (fmem s), wside := Running data n True f\<rparr>" True] go
    run_write_access [OF StoreC.prems(2) a] show ?case by (fastforce simp: stores_def)
next
  case (LoadB a f)
  have a: "action (LoadB a f) (fmem s) = Some (f (bytes (fmem s) a), fmem s)" by simp
  from LoadB.IH [OF rangeI, of _ "s\<lparr>wside := Running data n b (f (bytes (fmem s) a))\<rparr>" b]
    LoadB.prems(1) run_write_access [OF LoadB.prems(2) a] show ?case by (fastforce simp: stores_def)
next
  case (StoreB a v f)
  have a: "action (StoreB a v f) (fmem s) = Some (f, set_byte a v (fmem s))" by simp
  from StoreB.IH [of "s\<lparr>fmem := set_byte a v (fmem s), wside := Running data n b f\<rparr>" b]
    StoreB.prems(1) run_write_access [OF StoreB.prems(2) a] show ?case
    by (fastforce simp: stores_def)
qed simp

lemma uninterrupted_write:
  assumes inv: "fine_inv q s" and idle: "wside s = Idle"
    and ok: "buffer_ok q data n" "write_room q (fmem s) n" "clear_of q data n (rside s)"
    and call: "fmq_write q (fmem s) data n = Inr (x, h')"
  obtains sent where "run (fine_step q) s sent [] (s\<lparr>fmem := h', wside := Idle\<rparr>)"
    and "contents q h' = contents q (fmem s) @ sent"
proof -
  let ?s1 = "s\<lparr>wside := Running data n False (fmq_write_prog q data n)\<rparr>"
  have first: "run (fine_step q) s [] [] ?s1"
    by (rule run_single) (rule start_write [OF idle ok])
  have "exec (fmq_write_prog q data n) (fmem ?s1) = Inr (x, h')"
    using call by (simp add: exec_fmq_write)
  from write_accesses_exec [OF this, of data n False q] obtain b' sent where
    "run (fine_step q) ?s1 sent [] (?s1\<lparr>fmem := h', wside := Running data n b' (Ret x)\<rparr>)"
    by auto
  from run_trans [OF first this] have
    "run (fine_step q) s sent [] (s\<lparr>fmem := h', wside := Running data n b' (Ret x)\<rparr>)" by simp
  from run_step [OF this write_return] have
    all: "run (fine_step q) s sent [] (s\<lparr>fmem := h', wside := Idle\<rparr>)" by fastforce
  from fine_channel.conserves_run [OF all inv] show ?thesis by (intro that [OF all]) simp
qed

end
