(* ===== verification/Blocking_Concurrency.thy ===== *)
theory Blocking_Concurrency
  imports Event_Concurrency Queue_Blocking Queue_Fine
begin

unbundle bit_operations_syntax

text \<open>
  A writer in \<open>writeBlocking\<close> and a reader in \<open>readBlocking\<close> on one queue and one event flag:
  neither sleeps although it could go on, unless the other is about to wake it. The calls are
  programs of attempts on the queue and of the accesses of \<open>Event_Concurrency\<close>, and each attempt
  is a program of the single accesses of \<open>Queue_Fine\<close>.
\<close>

section \<open>The blocking calls as programs\<close>

definition notify_prog :: "u32 \<Rightarrow> bool option ef_prog" where
  "notify_prog wakeMask =
     (if wakeMask \<noteq> 0 then ef_bind (wake_prog wakeMask) (\<lambda>status. Done (Some True))
      else Done (Some True))"

text \<open>The loop; \<open>Done None\<close> means that the fuel ran out.\<close>

primrec blocking_loop_prog ::
  "nat \<Rightarrow> nat \<Rightarrow> u32 \<Rightarrow> bool \<Rightarrow> int \<Rightarrow> int \<Rightarrow> bool option ef_prog" where
  "blocking_loop_prog 0 wfuel waitMask shouldTimeOut timeOutNanos prevTimeNanos = Done None"
| "blocking_loop_prog (Suc fuel) wfuel waitMask shouldTimeOut timeOutNanos prevTimeNanos =
     clock_if shouldTimeOut prevTimeNanos (\<lambda>currentTimeNs.
     let left = (if shouldTimeOut then timeOutNanos - (currentTimeNs - prevTimeNanos)
                 else timeOutNanos)
     in if shouldTimeOut \<and> left \<le> 0 then Attempt (\<lambda>result. Done (Some result))
        else
          ef_bind (wait_prog wfuel waitMask (Some 0) left True) (\<lambda>r. case r of
              None \<Rightarrow> Done None
            | Some (status, efState) \<Rightarrow>
                if status \<noteq> TIMED_OUT \<and> status \<noteq> NO_ERROR then Done (Some False)
                else if status = TIMED_OUT then Done (Some False)
                else if efBits efState AND waitMask \<noteq> 0 then
                  Attempt (\<lambda>ok.
                    if ok then Done (Some True)
                    else blocking_loop_prog fuel wfuel waitMask shouldTimeOut left currentTimeNs)
                else blocking_loop_prog fuel wfuel waitMask shouldTimeOut left currentTimeNs))"

definition blocking_prog :: "nat \<Rightarrow> u32 \<Rightarrow> u32 \<Rightarrow> int \<Rightarrow> bool option ef_prog" where
  "blocking_prog fuel waitMask wakeMask timeOutNanos =
     Attempt (\<lambda>ok.
       if ok then notify_prog wakeMask
       else
         let shouldTimeOut = (timeOutNanos \<noteq> 0)
         in clock_if shouldTimeOut 0 (\<lambda>prevTimeNanos.
            ef_bind (blocking_loop_prog fuel fuel waitMask shouldTimeOut timeOutNanos prevTimeNanos)
              (\<lambda>r. case r of
                  None \<Rightarrow> Done None
                | Some result \<Rightarrow>
                    if result then notify_prog wakeMask else Done (Some False))))"

text \<open>Run by one thread, the program is the call.\<close>

definition blocking_outcome :: "(bool option \<times> 'w st) res \<Rightarrow> (bool \<times> 'w st) res option" where
  "blocking_outcome r = (case r of
       Inl e \<Rightarrow> Some (Inl e)
     | Inr (None, s) \<Rightarrow> None
     | Inr (Some b, s) \<Rightarrow> Some (Inr (b, s)))"

lemma blocking_outcome_simps [simp]:
  "blocking_outcome (Inl e) = Some (Inl e)"
  "blocking_outcome (Inr (None, s)) = None"
  "blocking_outcome (Inr (Some b, s)) = Some (Inr (b, s))"
  by (simp_all add: blocking_outcome_def)

lemma notify_is_its_accesses:
  "ef_exec sys ef op (notify_prog m) s =
     bind_res (notify sys POSIX ef m s) (\<lambda>(b, s'). Inr (Some b, s'))"
  by (simp add: notify_prog_def notify_def ef_exec_bind wake_is_its_accesses bind_res_def
      split: sum.splits prod.splits)

lemma ef_exec_attempt:
  "ef_exec sys ef op (Attempt k) s =
     bind_res (try_op sys op s) (\<lambda>(ok, s'). ef_exec sys ef op (k ok) s')"
  by (simp add: try_op_def bind_res_def split: prod.splits sum.splits)

lemma blocking_loop_is_its_accesses:
  "blocking_outcome (ef_exec sys ef op
       (blocking_loop_prog fuel wfuel waitMask shouldTimeOut timeout prev) s) =
     blocking_loop fuel wfuel sys POSIX ef op waitMask shouldTimeOut timeout prev s"
proof (induction fuel arbitrary: shouldTimeOut timeout prev s)
  case (Suc fuel)
  obtain cur s1 where tick: "(if shouldTimeOut then elapsedRealtimeNano sys s else (prev, s)) = (cur, s1)"
    by (rule prod.exhaust)
  define left where "left = (if shouldTimeOut then timeout - (cur - prev) else timeout)"
  let ?wait = "ef_exec sys ef op (wait_prog wfuel waitMask (Some 0) left True) s1"
  have w: "wait wfuel sys POSIX ef waitMask (Some 0) left True s1 = wait_outcome ?wait"
    by (simp add: wait_is_its_accesses)
  show ?case
    unfolding blocking_loop_prog.simps ef_exec_clock_if tick prod.case left_def [symmetric] Let_def
      blocking_loop_round [OF tick left_def] w
    by (cases ?wait)
      (auto simp: ef_exec_bind ef_exec_attempt bind_res_def Suc.IH
        simp del: ef_exec.simps(4) split: sum.splits prod.splits option.splits)
qed simp

lemma blocking_is_its_accesses:
  "blocking_outcome (ef_exec sys ef op (blocking_prog fuel waitMask wakeMask timeout) s) =
     blocking fuel sys POSIX ef op waitMask wakeMask timeout s"
proof (cases "try_op sys op s")
  case (Inr r)
  obtain ok s1 where r: "r = (ok, s1)" by (rule prod.exhaust)
  obtain prev s2 where tick: "(if timeout \<noteq> 0 then elapsedRealtimeNano sys s1 else (0, s1)) = (prev, s2)"
    by (rule prod.exhaust)
  let ?loop = "ef_exec sys ef op (blocking_loop_prog fuel fuel waitMask (timeout \<noteq> 0) timeout prev) s2"
  have loop: "blocking_loop fuel fuel sys POSIX ef op waitMask (timeout \<noteq> 0) timeout prev s2 =
      blocking_outcome ?loop"
    by (simp add: blocking_loop_is_its_accesses)
  have n: "blocking_outcome (bind_res (notify sys POSIX ef wakeMask s') (\<lambda>(b, s'). Inr (Some b, s'))) =
      Some (notify sys POSIX ef wakeMask s')" for s'
    by (cases "notify sys POSIX ef wakeMask s'") auto
  show ?thesis
    unfolding blocking_prog_def blocking_def ef_exec_attempt Inr r Let_def
    by (cases ?loop) (auto simp: ef_exec_clock_if tick loop n [unfolded blocking_outcome_def] notify_is_its_accesses ef_exec_bind
        blocking_outcome_def simp del: ef_exec.simps(4) split: option.splits)
qed (simp add: blocking_prog_def blocking_def ef_exec_attempt del: ef_exec.simps(4))

section \<open>One writer and one reader\<close>

fun side_of :: "role \<Rightarrow> fine \<Rightarrow> side" where
  "side_of Writer f = wside f"
| "side_of Reader f = rside f"

fun set_side :: "role \<Rightarrow> side \<Rightarrow> fine \<Rightarrow> fine" where
  "set_side Writer x f = f\<lparr>wside := x\<rparr>"
| "set_side Reader x f = f\<lparr>rside := x\<rparr>"

text \<open>What the two attempt, what they owe, and when an attempt can succeed.\<close>

fun attempt_prog :: "MessageQueue \<Rightarrow> role \<Rightarrow> ptr \<Rightarrow> size_t \<Rightarrow> bool prog" where
  "attempt_prog q Writer data n = fmq_write_prog q data n"
| "attempt_prog q Reader data n = fmq_read_prog q data n"

fun may_attempt :: "MessageQueue \<Rightarrow> role \<Rightarrow> ptr \<Rightarrow> size_t \<Rightarrow> heap \<Rightarrow> bool" where
  "may_attempt q Writer data n h = (buffer_ok q data n \<and> write_room q h n)"
| "may_attempt q Reader data n h = (buffer_ok q data n \<and> msg_bytes q n < 2 ^ 64)"

fun able :: "MessageQueue \<Rightarrow> role \<Rightarrow> size_t \<Rightarrow> heap \<Rightarrow> bool" where
  "able q Writer n h = has_room q n h"
| "able q Reader n h = has_data q n h"

text \<open>
  The system: the heap and the attempts in progress, the two threads on the flag, and the buffer
  and the count of the call each is in. \<open>masks\<close> gives the bits each of them waits for; the other
  one sets them after a success. A thread at an \<open>Attempt\<close> begins it, makes its accesses one by
  one, and goes on with its result.
\<close>

record duo =
  queue_state :: fine
  dflag :: "(role, bool option) threads"
  request :: "role \<Rightarrow> ptr \<times> size_t"

abbreviation dmem :: "duo \<Rightarrow> heap" where
  "dmem s \<equiv> fmem (queue_state s)"

abbreviation dside :: "duo \<Rightarrow> role \<Rightarrow> side" where
  "dside s r \<equiv> side_of r (queue_state s)"

inductive duo_step :: "MessageQueue \<Rightarrow> (role \<Rightarrow> u32) \<Rightarrow> duo \<Rightarrow> duo \<Rightarrow> bool"
  for q masks where
  enter: "thread_of (dflag s) r = Outside \<Longrightarrow> getQuantumCount q = Inr c \<Longrightarrow> n \<le> c \<Longrightarrow>
    duo_step q masks s (s\<lparr>dflag := set_thread r
        (Inside (blocking_prog fuel (masks r) (masks (other r)) timeout)) (dflag s),
      request := (request s)(r := (data, n))\<rparr>)"
| begin_attempt: "thread_of (dflag s) r = Inside (Attempt k) \<Longrightarrow> dside s r = Idle \<Longrightarrow>
    request s r = (data, n) \<Longrightarrow> may_attempt q r data n (dmem s) \<Longrightarrow>
    clear_of q data n (dside s (other r)) \<Longrightarrow>
    duo_step q masks s (s\<lparr>queue_state :=
      set_side r (Running data n False (attempt_prog q r data n)) (queue_state s)\<rparr>)"
| touch: "dside s r = Running data n b p \<Longrightarrow> action p (dmem s) = Some (p', h') \<Longrightarrow>
    duo_step q masks s (s\<lparr>queue_state :=
      set_side r (Running data n (b \<or> stores p \<noteq> None) p') (queue_state s\<lparr>fmem := h'\<rparr>)\<rparr>)"
| finish_attempt: "thread_of (dflag s) r = Inside (Attempt k) \<Longrightarrow>
    dside s r = Running data n b (Ret ok) \<Longrightarrow>
    duo_step q masks s (s\<lparr>queue_state := set_side r Idle (queue_state s),
      dflag := set_thread r (Inside (k ok)) (dflag s)\<rparr>)"
| flag_access: "ef_step (\<lambda>r. 0) (\<lambda>p. False) (dflag s) raised taken f' \<Longrightarrow>
    duo_step q masks s (s\<lparr>dflag := f'\<rparr>)"
| client_memory: "client_change q (dmem s) h' \<Longrightarrow>
    (\<And>r. keeps_buffer q (dmem s) h' (dside s r)) \<Longrightarrow>
    duo_step q masks s (s\<lparr>queue_state := queue_state s\<lparr>fmem := h'\<rparr>\<rparr>)"

inductive_cases duo_stepE: "duo_step q masks s s'"

definition duo_start :: "heap \<Rightarrow> duo" where
  "duo_start h = \<lparr>queue_state = \<lparr>fmem = h, wside = Idle, rside = Idle\<rparr>, dflag = ef_start 0,
     request = (\<lambda>r. (0, 0))\<rparr>"

text \<open>The two sides of a queue, the same for both.\<close>

lemma either_role: "r' = r \<or> r' = other r"
  by (cases r; cases r'; simp)

lemma set_side_simps [simp]:
  "side_of r (set_side r x f) = x"
  "side_of (other r) (set_side r x f) = side_of (other r) f"
  "fmem (set_side r x f) = fmem f"
  "side_of r (f\<lparr>fmem := h\<rparr>) = side_of r f"
  by (cases r; simp)+

text \<open>
  An attempt that began when it could succeed is sure to: nothing that the other side does takes
  away the room, or the data, that it found.
\<close>

fun sure :: "MessageQueue \<Rightarrow> role \<Rightarrow> ptr \<Rightarrow> size_t \<Rightarrow> bool prog \<Rightarrow> heap \<Rightarrow> bool" where
  "sure q Writer data n p h = rg (env_writer q data (buf_len q n)) (write_acts q data n) p
     (\<lambda>ok b' h'. ok = b' \<and> ok) False h"
| "sure q Reader data n p h = rg (env_reader q data (buf_len q n)) (read_acts q data n) p
     (\<lambda>ok b' h'. ok = b' \<and> ok) False h"

lemma begin_fine:
  assumes inv: "fine_inv q (queue_state s)" and idle: "dside s r = Idle"
    and may: "may_attempt q r data n (dmem s)" and clear: "clear_of q data n (dside s (other r))"
  shows "fine_inv q (set_side r (Running data n False (attempt_prog q r data n)) (queue_state s))"
    and "able q r n (dmem s) \<Longrightarrow> sure q r data n (attempt_prog q r data n) (dmem s)"
proof -
  note D = fine_invD [OF inv]
  show "fine_inv q (set_side r (Running data n False (attempt_prog q r data n)) (queue_state s))"
  proof (cases r)
    case Writer
    with fine_step_preserves [OF inv fine_step.start_write] assms show ?thesis by simp
  next
    case Reader
    with fine_step_preserves [OF inv fine_step.start_read] assms show ?thesis by simp
  qed
  show "sure q r data n (attempt_prog q r data n) (dmem s)" if able: "able q r n (dmem s)"
  proof (cases r)
    case Writer
    show ?thesis
      using rg_mono [OF rg_write [OF D(2,1), of data n]] may able by (simp add: Writer)
  next
    case Reader
    show ?thesis
      using rg_mono [OF rg_read [OF D(1), of data n]] may able by (simp add: Reader)
  qed
qed

lemma touch_fine:
  assumes inv: "fine_inv q (queue_state s)" and run: "dside s r = Running data n b p"
    and act: "action p (dmem s) = Some (p', h')"
  shows "fine_inv q (set_side r (Running data n (b \<or> stores p \<noteq> None) p') (queue_state s\<lparr>fmem := h'\<rparr>))"
    and "stores p = None \<Longrightarrow> able q u m h' = able q u m (dmem s)"
    and "sure q r data n p (dmem s) \<Longrightarrow> stores p = None \<Longrightarrow> sure q r data n p' h'"
    and "dside s (other r) = Running data' n' b' p0 \<Longrightarrow> sure q (other r) data' n' p0 (dmem s) \<Longrightarrow>
      sure q (other r) data' n' p0 h'"
proof -
  note D = fine_invD [OF inv]
  show "fine_inv q (set_side r (Running data n (b \<or> stores p \<noteq> None) p') (queue_state s\<lparr>fmem := h'\<rparr>))"
  proof (cases r)
    case Writer
    with fine_write_access [OF inv _ act] run show ?thesis by simp
  next
    case Reader
    with fine_read_access [OF inv _ act] run show ?thesis by simp
  qed
  show "able q u m h' = able q u m (dmem s)" if none: "stores p = None"
  proof -
    have "contents q h' = contents q (dmem s)"
    proof (cases r)
      case Writer
      with writer_did [OF inv _ act] run none show ?thesis by (simp add: by_writer_def)
    next
      case Reader
      with reader_did [OF inv _ act] run none show ?thesis by (simp add: by_reader_def)
    qed
    then have "used q h' = used q (dmem s)" by (metis length_contents)
    then show ?thesis by (cases u) (simp_all add: has_room_def has_data_def)
  qed
  show "sure q r data n p' h'" if "sure q r data n p (dmem s)" "stores p = None"
    using that by (cases r) (auto elim: rg_action [OF _ env_writer_order(1) act]
        rg_action [OF _ env_reader_order(1) act] simp del: rg.simps)
  show "sure q (other r) data' n' p0 h'"
    if run': "dside s (other r) = Running data' n' b' p0"
      and sure: "sure q (other r) data' n' p0 (dmem s)"
  proof (cases r)
    case Writer
    have "buffer_ok q data' n'" using D(4) run' Writer by simp
    then have "env_reader q data' (buf_len q n') (dmem s) h'"
      using writer_did [OF inv _ act] run Writer by (intro reader_meets_writer) simp
    with sure show ?thesis
      using rg_environment [OF env_reader_order(2)] by (simp add: Writer)
  next
    case Reader
    have "buffer_ok q data n" "disjoint_ranges data' (buf_len q n') data (buf_len q n)"
      using D(4,5) run run' Reader by simp_all
    then have "env_writer q data' (buf_len q n') (dmem s) h'"
      using reader_did [OF inv _ act] run Reader by (intro writer_meets_reader) simp_all
    with sure show ?thesis
      using rg_environment [OF env_writer_order(2)] by (simp add: Reader)
  qed
qed

section \<open>What a blocking call keeps to\<close>

text \<open>
  A caller \<open>Waits\<close> when its last attempt failed and no bit was reported to it since, it \<open>Owes\<close>
  the other side a notification after a success, and otherwise is \<open>Free\<close>. It sleeps only while
  it waits, clears only the bits \<open>m\<close> it waits for, tries again after one was reported, and pays
  with the bits \<open>n\<close> before anything else. \<open>Q\<close> is what holds at its end.
\<close>

datatype phase = Free | Waits | Owes

primrec follows ::
  "u32 \<Rightarrow> u32 \<Rightarrow> ('a \<Rightarrow> phase \<Rightarrow> bool) \<Rightarrow> 'a ef_prog \<Rightarrow> phase \<Rightarrow> bool" where
  "follows m n Q (Done a) ph = Q a ph"
| "follows m n Q (ef_prog.Fail e) ph = (ph \<noteq> Owes)"
| "follows m n Q (Clock k) ph = (ph \<noteq> Owes \<and> (\<forall>c. follows m n Q (k c) ph))"
| "follows m n Q (Attempt k) ph =
     (ph \<noteq> Owes \<and> follows m n Q (k False) Waits \<and> follows m n Q (k True) Owes)"
| "follows m n Q (FetchOr m' k) ph = (ph = Owes \<and> m' = n \<and> (\<forall>old. follows m n Q (k old) Free))"
| "follows m n Q (FetchAnd m' k) ph = (ph \<noteq> Owes \<and> m' = NOT m \<and>
     (\<forall>old. follows m n Q (k old) (if old AND m = 0 then ph else Free)))"
| "follows m n Q (FutexWake m' k) ph = (ph \<noteq> Owes \<and> (\<forall>r. follows m n Q (k r) ph))"
| "follows m n Q (FutexWait expected timeout m' k) ph =
     (ph = Waits \<and> m' = m \<and> (\<forall>r. follows m n Q (k r) Waits))"

lemma follows_bind:
  "follows m n Q p ph \<Longrightarrow> (\<And>a ph. Q a ph \<Longrightarrow> follows m n R (f a) ph) \<Longrightarrow>
    follows m n R (ef_bind p f) ph"
  by (induction p arbitrary: ph) auto

lemma follows_clock_if:
  "ph \<noteq> Owes \<Longrightarrow> (\<And>c. follows m n Q (k c) ph) \<Longrightarrow> follows m n Q (clock_if b prev k) ph"
  by (simp add: clock_if_def)

text \<open>A wait ends without a report, or with one of the bits it was asked for.\<close>

definition wait_post :: "u32 \<Rightarrow> ef_result \<Rightarrow> phase \<Rightarrow> bool" where
  "wait_post m r ph \<longleftrightarrow> snd r \<noteq> None \<and>
     (ph = Waits \<or> ph = Free \<and> fst r = NO_ERROR \<and> efBits (snd r) AND m \<noteq> 0)"

lemma waitHelper_prog_follows:
  "m \<noteq> 0 \<Longrightarrow> efState \<noteq> None \<Longrightarrow>
    follows m n (wait_post m) (waitHelper_prog m efState timeout) Waits"
  by (simp add: waitHelper_prog_def Let_def wait_post_def efBits_def split: prod.splits)

lemma wait_loop_prog_follows:
  assumes "m \<noteq> 0" and "efState \<noteq> None"
  shows "follows m n (\<lambda>r ph. case r of None \<Rightarrow> ph = Waits | Some r \<Rightarrow> wait_post m r ph)
    (wait_loop_prog fuel m shouldTimeOut efState timeout prev) Waits"
  using assms(2)
proof (induction fuel arbitrary: efState timeout prev)
  case (Suc fuel)
  have "follows m n (\<lambda>r ph. case r of None \<Rightarrow> ph = Waits | Some r \<Rightarrow> wait_post m r ph)
    (ef_bind (waitHelper_prog m efState left) (\<lambda>(status, efState').
      if status \<noteq> - EAGAIN \<and> status \<noteq> - EINTR then Done (Some (status, efState'))
      else wait_loop_prog fuel m shouldTimeOut efState' left cur)) Waits" for left cur
    by (rule follows_bind [OF waitHelper_prog_follows [OF assms(1) Suc.prems]])
      (auto simp: Suc.IH wait_post_def status_defs split: prod.splits)
  then show ?case
    using Suc.prems by (auto simp: Let_def wait_post_def intro!: follows_clock_if)
qed simp

lemma wait_prog_follows:
  assumes "m \<noteq> 0" and "efState \<noteq> None"
  shows "follows m n (\<lambda>r ph. case r of None \<Rightarrow> ph = Waits | Some r \<Rightarrow> wait_post m r ph)
    (wait_prog fuel m efState timeout True) Waits"
  using wait_loop_prog_follows [OF assms]
  by (simp add: wait_prog_def Let_def follows_clock_if)

lemma notify_prog_follows:
  "n \<noteq> 0 \<Longrightarrow> follows m n (\<lambda>r ph. ph \<noteq> Owes) (notify_prog n) Owes"
  by (simp add: notify_prog_def wake_prog_def split: prod.splits)

definition loop_post :: "bool option \<Rightarrow> phase \<Rightarrow> bool" where
  "loop_post r ph \<longleftrightarrow> (r = Some True \<longleftrightarrow> ph = Owes)"

lemma loop_post_simps [simp]:
  "loop_post None ph \<longleftrightarrow> ph \<noteq> Owes"
  "loop_post (Some b) ph \<longleftrightarrow> (b \<longleftrightarrow> ph = Owes)"
  by (simp_all add: loop_post_def)

lemma blocking_loop_prog_follows:
  assumes "m \<noteq> 0"
  shows "follows m n loop_post (blocking_loop_prog fuel wfuel m shouldTimeOut timeout prev) Waits"
proof (induction fuel arbitrary: timeout prev)
  case (Suc fuel)
  have "follows m n loop_post (ef_bind (wait_prog wfuel m (Some 0) left True) (\<lambda>r. case r of
      None \<Rightarrow> Done None
    | Some (status, efState) \<Rightarrow>
        if status \<noteq> TIMED_OUT \<and> status \<noteq> NO_ERROR then Done (Some False)
        else if status = TIMED_OUT then Done (Some False)
        else if efBits efState AND m \<noteq> 0 then
          Attempt (\<lambda>ok. if ok then Done (Some True)
            else blocking_loop_prog fuel wfuel m shouldTimeOut left cur)
        else blocking_loop_prog fuel wfuel m shouldTimeOut left cur)) Waits" for left cur
    by (rule follows_bind [OF wait_prog_follows [OF assms]])
      (auto simp: wait_post_def Suc.IH split: option.splits)
  then show ?case by (auto simp: Let_def intro!: follows_clock_if)
qed simp

lemma blocking_prog_follows:
  assumes "m \<noteq> 0" and "n \<noteq> 0"
  shows "follows m n (\<lambda>r ph. ph \<noteq> Owes) (blocking_prog fuel m n timeout) Free"
proof -
  have "follows m n (\<lambda>r ph. ph \<noteq> Owes) (ef_bind
      (blocking_loop_prog fuel fuel m shouldTimeOut timeout prev) (\<lambda>r. case r of
        None \<Rightarrow> Done None
      | Some result \<Rightarrow> if result then notify_prog n else Done (Some False))) Waits"
    for prev shouldTimeOut
    by (rule follows_bind [OF blocking_loop_prog_follows [OF assms(1)]])
      (auto simp: notify_prog_follows [OF assms(2)] split: option.splits)
  then show ?thesis
    by (simp add: blocking_prog_def Let_def notify_prog_follows [OF assms(2)] follows_clock_if)
qed

lemma blocking_prog_disciplined: "disciplined (blocking_prog fuel m n timeout)"
proof -
  have paid: "disciplined (notify_prog n)"
    by (simp add: notify_prog_def wake_prog_disciplined disciplined_bind)
  have "disciplined (blocking_loop_prog fuel wfuel m b timeout prev)" for fuel wfuel b timeout prev
    by (induction fuel arbitrary: timeout prev)
      (auto simp: Let_def wait_prog_disciplined split: option.splits prod.splits
        intro!: disciplined_clock_if disciplined_bind)
  then show ?thesis
    by (auto simp: blocking_prog_def Let_def paid split: option.splits
        intro!: disciplined_clock_if disciplined_bind)
qed

section \<open>The invariant\<close>

fun thread_follows :: "u32 \<Rightarrow> u32 \<Rightarrow> 'a thread \<Rightarrow> phase \<Rightarrow> bool" where
  "thread_follows m n Outside ph = (ph = Free)"
| "thread_follows m n (Inside p) ph = follows m n (\<lambda>r ph. ph \<noteq> Owes) p ph"
| "thread_follows m n (Asleep m' k) ph =
     (m' = m \<and> ph = Waits \<and> (\<forall>r. follows m n (\<lambda>r ph. ph \<noteq> Owes) (k r) Waits))"

text \<open>
  A side owes a notification from the store that publishes or takes the messages on. A side is
  \<open>heeded\<close> if, whenever it could go on, its bit is set already or the other one owes it the
  notification: so it is while it waits, and during an attempt that may fail. \<open>w\<close> says of which
  sides this is known.
\<close>

fun committed :: "side \<Rightarrow> bool" where
  "committed (Running data n b p) = b"
| "committed Idle = False"

definition owes :: "duo \<Rightarrow> (role \<Rightarrow> phase) \<Rightarrow> role \<Rightarrow> bool" where
  "owes s ph r \<longleftrightarrow> ph r = Owes \<or> committed (dside s r)"

definition heeded :: "MessageQueue \<Rightarrow> (role \<Rightarrow> u32) \<Rightarrow> duo \<Rightarrow> (role \<Rightarrow> phase) \<Rightarrow> role \<Rightarrow> bool" where
  "heeded q masks s ph r \<longleftrightarrow> (able q r (snd (request s r)) (dmem s) \<longrightarrow>
     efWordValue (dflag s) AND masks r \<noteq> 0 \<or> owes s ph (other r))"

definition attempt_ok :: "MessageQueue \<Rightarrow> duo \<Rightarrow> phase \<Rightarrow> bool \<Rightarrow> role \<Rightarrow> bool" where
  "attempt_ok q s p w r \<longleftrightarrow> (case dside s r of
       Idle \<Rightarrow> p = Waits \<longrightarrow> w
     | Running data n b prog \<Rightarrow> (\<exists>k. thread_of (dflag s) r = Inside (Attempt k)) \<and>
         request s r = (data, n) \<and> (b \<or> w \<or> sure q r data n prog (dmem s)))"

definition phases ::
  "MessageQueue \<Rightarrow> (role \<Rightarrow> u32) \<Rightarrow> duo \<Rightarrow> (role \<Rightarrow> phase) \<Rightarrow> (role \<Rightarrow> bool) \<Rightarrow> bool" where
  "phases q masks s ph w \<longleftrightarrow> (\<forall>r.
     thread_follows (masks r) (masks (other r)) (thread_of (dflag s) r) (ph r) \<and>
     attempt_ok q s (ph r) (w r) r \<and> (w r \<longrightarrow> heeded q masks s ph r))"

definition duo_inv :: "MessageQueue \<Rightarrow> (role \<Rightarrow> u32) \<Rightarrow> duo \<Rightarrow> bool" where
  "duo_inv q masks s \<longleftrightarrow> fine_inv q (queue_state s) \<and> ef_inv (dflag s) \<and>
     (\<exists>ph w. phases q masks s ph w)"

text \<open>The masks of a queue: some bit for each side, none for both.\<close>

definition masks_apart :: "(role \<Rightarrow> u32) \<Rightarrow> bool" where
  "masks_apart masks \<longleftrightarrow> (\<forall>r. masks r \<noteq> 0 \<and> masks r AND masks (other r) = 0)"

lemma phasesD:
  assumes "phases q masks s ph w"
  shows "thread_follows (masks r) (masks (other r)) (thread_of (dflag s) r) (ph r)"
    and "attempt_ok q s (ph r) (w r) r" and "w r \<Longrightarrow> heeded q masks s ph r"
  using assms by (simp_all add: phases_def)

lemma attempt_ok_idle: "dside s r = Idle \<Longrightarrow> attempt_ok q s p w r \<longleftrightarrow> (p = Waits \<longrightarrow> w)"
  by (simp add: attempt_ok_def)

lemma attempt_ok_running:
  "dside s r = Running data n b prog \<Longrightarrow> attempt_ok q s p w r \<longleftrightarrow>
     (\<exists>k. thread_of (dflag s) r = Inside (Attempt k)) \<and> request s r = (data, n) \<and>
     (b \<or> w \<or> sure q r data n prog (dmem s))"
  by (simp add: attempt_ok_def)

text \<open>A thread that is not at an attempt has none in progress.\<close>

lemma no_attempt:
  "attempt_ok q s p w r \<Longrightarrow> (\<And>k. thread_of (dflag s) r \<noteq> Inside (Attempt k)) \<Longrightarrow> dside s r = Idle"
  by (cases "dside s r") (auto simp: attempt_ok_def)

lemma phases_move:
  assumes old: "phases q masks s ph w"
    and threads: "thread_of (dflag s') = (thread_of (dflag s))(r := th)"
    and side: "dside s' (other r) = dside s (other r)"
    and req: "request s' (other r) = request s (other r)"
    and keeps: "\<And>data n p. dside s (other r) = Running data n False p \<Longrightarrow>
      sure q (other r) data n p (dmem s) \<Longrightarrow> sure q (other r) data n p (dmem s')"
    and new: "thread_follows (masks r) (masks (other r)) th p'"
    and att: "attempt_ok q s' p' w' r"
    and own: "w' \<Longrightarrow> heeded q masks s' (ph(r := p')) r"
    and others: "w (other r) \<Longrightarrow> heeded q masks s' (ph(r := p')) (other r)"
  shows "phases q masks s' (ph(r := p')) (w(r := w'))"
proof -
  have "attempt_ok q s' (ph (other r)) (w (other r)) (other r)"
    using phasesD(2) [OF old, of "other r"] side req keeps threads
    unfolding attempt_ok_def by (auto split: side.splits)
  moreover have "thread_follows (masks (other r)) (masks r) (thread_of (dflag s') (other r)) (ph (other r))"
    using phasesD(1) [OF old, of "other r"] threads by simp
  ultimately have "thread_follows (masks u) (masks (other u)) (thread_of (dflag s') u) ((ph(r := p')) u) \<and>
     attempt_ok q s' ((ph(r := p')) u) ((w(r := w')) u) u \<and>
     ((w(r := w')) u \<longrightarrow> heeded q masks s' (ph(r := p')) u)" for u
    using either_role [of u r] new att own others by (auto simp: threads)
  then show ?thesis by (simp add: phases_def)
qed

lemma ef_inv_call:
  assumes "ef_inv f" and "\<And>b. \<not> signalling b (thread_of f t)" and "thread_ok th"
    and "efWordValue f AND awaits th = 0"
  shows "ef_inv (set_thread t th f)"
  using assms by (auto simp: ef_inv_def intro: heard_call)

lemma thread_follows_roused:
  "thread_follows m n th ph \<Longrightarrow> thread_follows m n (roused b th) ph"
  by (cases th) auto

text \<open>Each kind of step keeps the phases.\<close>

lemma enter_keeps_phases:
  assumes ph: "phases q masks s ph w" and out: "thread_of (dflag s) r = Outside"
    and p: "follows (masks r) (masks (other r)) (\<lambda>r ph. ph \<noteq> Owes) p Free"
    and s': "s' = s\<lparr>dflag := set_thread r (Inside p) (dflag s), request := (request s)(r := rq)\<rparr>"
  shows "phases q masks s' (ph(r := Free)) (w(r := False))"
proof -
  have idle: "dside s r = Idle" using no_attempt [OF phasesD(2) [OF ph]] out by simp
  moreover have "ph r = Free" using phasesD(1) [OF ph, of r] out by simp
  ultimately show ?thesis
    using phasesD(3) [OF ph, of "other r"] p
    by (intro phases_move [OF ph]) (auto simp: s' heeded_def owes_def attempt_ok_idle)
qed

lemma begin_keeps_phases:
  assumes ph: "phases q masks s ph w" and at: "thread_of (dflag s) r = Inside (Attempt k)"
    and idle: "dside s r = Idle" and req: "request s r = (data, n)"
    and sure: "able q r n (dmem s) \<Longrightarrow> sure q r data n p (dmem s)"
    and s': "s' = s\<lparr>queue_state := set_side r (Running data n False p) (queue_state s)\<rparr>"
  shows "phases q masks s' (ph(r := ph r)) (w(r := (\<not> able q r n (dmem s))))"
proof (rule phases_move [OF ph])
  show "thread_of (dflag s') = (thread_of (dflag s))(r := Inside (Attempt k))" by (simp add: s' at fun_upd_idem)
  show "thread_follows (masks r) (masks (other r)) (Inside (Attempt k)) (ph r)"
    using phasesD(1) [OF ph, of r] at by simp
  show "attempt_ok q s' (ph r) (\<not> able q r n (dmem s)) r"
    using sure at req by (subst attempt_ok_running) (auto simp: s')
  show "heeded q masks s' (ph(r := ph r)) r" if "\<not> able q r n (dmem s)"
    using that req by (simp add: heeded_def s')
  show "heeded q masks s' (ph(r := ph r)) (other r)" if "w (other r)"
    using phasesD(3) [OF ph that] idle by (auto simp: heeded_def owes_def s')
qed (simp_all add: s')

lemma touch_keeps_phases:
  assumes ph: "phases q masks s ph w" and inv: "fine_inv q (queue_state s)"
    and run: "dside s r = Running data n b p" and act: "action p (dmem s) = Some (p', h')"
    and s': "s' = s\<lparr>queue_state :=
      set_side r (Running data n (b \<or> stores p \<noteq> None) p') (queue_state s\<lparr>fmem := h'\<rparr>)\<rparr>"
  shows "phases q masks s' (ph(r := ph r)) (w(r := (w r \<and> stores p = None)))"
proof -
  note T = touch_fine [OF inv run act]
  obtain k where at: "thread_of (dflag s) r = Inside (Attempt k)"
    and req: "request s r = (data, n)" and known: "b \<or> w r \<or> sure q r data n p (dmem s)"
    using phasesD(2) [OF ph, of r] run by (auto simp: attempt_ok_running)
  show ?thesis
  proof (rule phases_move [OF ph])
    show "thread_of (dflag s') = (thread_of (dflag s))(r := Inside (Attempt k))" by (simp add: s' at fun_upd_idem)
    show "sure q (other r) data n p (dmem s')"
      if "dside s (other r) = Running data n False p" "sure q (other r) data n p (dmem s)" for data n p
      using T(4) [OF that] by (simp add: s')
    show "thread_follows (masks r) (masks (other r)) (Inside (Attempt k)) (ph r)"
      using phasesD(1) [OF ph, of r] at by simp
    show "attempt_ok q s' (ph r) (w r \<and> stores p = None) r"
      using known at req T(3) by (subst attempt_ok_running) (auto simp: s')
    show "heeded q masks s' (ph(r := ph r)) r" if "w r \<and> stores p = None"
      using phasesD(3) [OF ph, of r] that T(2) by (auto simp: heeded_def owes_def s')
    show "heeded q masks s' (ph(r := ph r)) (other r)" if "w (other r)"
      using phasesD(3) [OF ph that] T(2) run by (auto simp: heeded_def owes_def s')
  qed (simp_all add: s')
qed

lemma rg_ret_post: "rg R G (Ret x) Q b h \<Longrightarrow> reflp R \<Longrightarrow> Q x b h"
  by (auto dest: reflpD)

lemma finish_keeps_phases:
  assumes ph: "phases q masks s ph w" and inv: "fine_inv q (queue_state s)"
    and at: "thread_of (dflag s) r = Inside (Attempt k)"
    and run: "dside s r = Running data n b (Ret ok)"
    and s': "s' = s\<lparr>queue_state := set_side r Idle (queue_state s),
      dflag := set_thread r (Inside (k ok)) (dflag s)\<rparr>"
  shows "phases q masks s' (ph(r := if ok then Owes else Waits)) (w(r := \<not> ok))"
proof -
  have F: "follows (masks r) (masks (other r)) (\<lambda>r ph. ph \<noteq> Owes) (k False) Waits"
    "follows (masks r) (masks (other r)) (\<lambda>r ph. ph \<noteq> Owes) (k True) Owes" and "ph r \<noteq> Owes"
    using phasesD(1) [OF ph, of r] at by simp_all
  have b: "ok = b"
    using fine_invD(3,4) [OF inv] run
    by (cases r) (auto simp del: rg.simps dest: rg_ret_post [OF _ env_writer_order(1)]
        rg_ret_post [OF _ env_reader_order(1)])
  have "\<not> sure q r data n (Ret False) h" for h
    by (cases r) (auto simp del: rg.simps dest: rg_ret_post [OF _ env_writer_order(1)]
        rg_ret_post [OF _ env_reader_order(1)])
  then have w: "w r" if "\<not> ok"
    using phasesD(2) [OF ph, of r] that b run by (auto simp: attempt_ok_running)
  show ?thesis
  proof (rule phases_move [OF ph])
    show "thread_of (dflag s') = (thread_of (dflag s))(r := Inside (k ok))" by (simp add: s')
    show "thread_follows (masks r) (masks (other r)) (Inside (k ok)) (if ok then Owes else Waits)"
      using F by (cases ok) simp_all
    show "attempt_ok q s' (if ok then Owes else Waits) (\<not> ok) r"
      by (subst attempt_ok_idle) (auto simp: s')
    show "heeded q masks s' (ph(r := if ok then Owes else Waits)) r" if "\<not> ok"
      using phasesD(3) [OF ph w [OF that]] by (auto simp: heeded_def owes_def s')
    show "heeded q masks s' (ph(r := if ok then Owes else Waits)) (other r)" if "w (other r)"
      using phasesD(3) [OF ph that] run \<open>ph r \<noteq> Owes\<close> b by (auto simp: heeded_def owes_def s')
  qed (simp_all add: s')
qed

lemma client_keeps_phases:
  assumes ph: "phases q masks s ph w" and inv: "fine_inv q (queue_state s)"
    and ch: "client_change q (dmem s) h'" and buf: "\<And>r. keeps_buffer q (dmem s) h' (dside s r)"
    and s': "s' = s\<lparr>queue_state := queue_state s\<lparr>fmem := h'\<rparr>\<rparr>"
  shows "phases q masks s' ph w"
proof -
  note fr = client_change_frame [OF ch fine_invD(1) [OF inv]]
  have able: "able q r n h' = able q r n (dmem s)" for r n
    by (cases r) (simp_all add: has_room_def has_data_def fr)
  have sure: "sure q r data n p h'"
    if "dside s r = Running data n b p" "sure q r data n p (dmem s)" for r data n b p
  proof (cases r)
    case Writer
    have "env_writer q data (buf_len q n) (dmem s) h'"
      using ch fr buf [of Writer] that(1) Writer by (auto simp: env_writer_def client_change_def)
    with that(2) show ?thesis using rg_environment [OF env_writer_order(2)] by (simp add: Writer)
  next
    case Reader
    have "env_reader q data (buf_len q n) (dmem s) h'"
      using ch fr buf [of Reader] that(1) Reader by (auto simp: env_reader_def client_change_def)
    with that(2) show ?thesis using rg_environment [OF env_reader_order(2)] by (simp add: Reader)
  qed
  have "attempt_ok q s' (ph r) (w r) r" for r
    using phasesD(2) [OF ph, of r] sure by (cases "dside s r") (auto simp: attempt_ok_def s')
  then show ?thesis
    using ph able by (simp add: phases_def heeded_def owes_def s')
qed

lemma access_keeps_phases:
  assumes acc: "ef_step (\<lambda>r. 0) (\<lambda>p. False) (dflag s) raised taken f'"
    and ph: "phases q masks s ph w" and apart: "masks_apart masks"
    and s': "s' = s\<lparr>dflag := f'\<rparr>"
  shows "\<exists>ph' w'. phases q masks s' ph' w'"
proof -
  note F = phasesD(1) [OF ph] and idle = no_attempt [OF phasesD(2) [OF ph]]
  have same: "dside s' u = dside s u" "dmem s' = dmem s" "request s' = request s" for u
    by (simp_all add: s')
  have keep: "\<exists>ph' w'. phases q masks s' ph' w'"
    if "f' = set_thread r th (dflag s)" "dside s r = Idle" "ph r \<noteq> Owes" "p' \<noteq> Owes"
      "p' = Waits \<Longrightarrow> ph r = Waits" "thread_follows (masks r) (masks (other r)) th p'" for r th p'
  proof -
    have "phases q masks s' (ph(r := p')) (w(r := w r))"
      using phasesD(2,3) [OF ph, of r] phasesD(3) [OF ph, of "other r"] that
      by (intro phases_move [OF ph])
        (auto simp: s' heeded_def owes_def attempt_ok_idle)
    then show ?thesis by blast
  qed
  from acc show ?thesis
  proof (cases rule: ef_step.cases)
    case (read_clock r k now)
    with F [of r] idle [of r] show ?thesis by (intro keep [of r _ "ph r"]) auto
  next
    case (fetch_or r m k)
    with F [of r] have r: "m = masks (other r)" "ph r = Owes"
      "follows (masks r) (masks (other r)) (\<lambda>r ph. ph \<noteq> Owes) (k (efWordValue (dflag s))) Free"
      by auto
    have none: "dside s r = Idle" using idle [of r] fetch_or by simp
    have "masks (other r) \<noteq> 0" using apart by (simp add: masks_apart_def)
    then have "(x OR m) AND masks (other r) \<noteq> 0" for x
      using and_or_absorb [of x m "masks (other r)"] r(1) by simp
    with r none have "phases q masks s' (ph(r := Free)) (w(r := False))"
      by (intro phases_move [OF ph]) (auto simp: s' fetch_or heeded_def attempt_ok_idle)
    then show ?thesis by blast
  next
    case (fetch_and r m k)
    let ?w = "efWordValue (dflag s)" and ?p = "if efWordValue (dflag s) AND masks r = 0 then ph r else Free"
    from fetch_and F [of r] have r: "ph r \<noteq> Owes" "m = NOT (masks r)"
      "follows (masks r) (masks (other r)) (\<lambda>r ph. ph \<noteq> Owes) (k ?w) ?p" by auto
    have none: "dside s r = Idle" using idle [of r] fetch_and by simp
    have "masks r AND masks (other r) = 0" using apart by (simp add: masks_apart_def)
    then have "(?w AND m) AND masks (other r) = ?w AND masks (other r)"
      unfolding r(2) by (auto simp: bit_eq_iff bit_simps)
    then have "phases q masks s' (ph(r := ?p)) (w(r := (w r \<and> ?w AND masks r = 0)))"
      using r none phasesD(2,3) [OF ph, of r] phasesD(3) [OF ph, of "other r"]
      by (intro phases_move [OF ph])
        (auto simp: s' fetch_and heeded_def owes_def attempt_ok_idle split: if_splits)
    then show ?thesis by blast
  next
    case (futex_wakes r m k n)
    have "thread_follows (masks u) (masks (other u)) (thread_of f' u) (ph u)" for u
      using F [of u] F [of r] futex_wakes by (auto simp: thread_follows_roused)
    moreover have "attempt_ok q s' (ph u) (w u) u" for u
      using phasesD(2) [OF ph, of u] futex_wakes same
      by (auto simp: attempt_ok_def s' split: side.splits)
    moreover have "heeded q masks s' ph u" if "w u" for u
      using phasesD(3) [OF ph that] futex_wakes same by (simp add: heeded_def owes_def s')
    ultimately have "phases q masks s' ph w" by (simp add: phases_def s')
    then show ?thesis by blast
  next
    case (futex_sleeps r expected timeout m k)
    with F [of r] idle [of r] show ?thesis by (intro keep [of r _ Waits]) auto
  next
    case (futex_refuses r expected timeout m k)
    with F [of r] idle [of r] show ?thesis by (intro keep [of r _ Waits]) auto
  next
    case (sleep_ends r m k ret errno)
    with F [of r] idle [of r] show ?thesis by (intro keep [of r _ Waits]) auto
  next
    case (return_call r b)
    with F [of r] idle [of r] show ?thesis by (intro keep [of r _ Free]) auto
  qed simp
qed

lemma duo_step_preserves:
  assumes "duo_step q masks s s'" and "duo_inv q masks s" and apart: "masks_apart masks"
  shows "duo_inv q masks s'"
proof -
  obtain ph w where fine: "fine_inv q (queue_state s)" and ef: "ef_inv (dflag s)"
    and ph: "phases q masks s ph w"
    using assms(2) by (auto simp: duo_inv_def)
  have ok: "thread_ok (thread_of (dflag s) r)" for r using ef by (simp add: ef_inv_def)
  from assms(1) show ?thesis
  proof (cases rule: duo_step.cases)
    case (enter r c n fuel timeout data)
    have "masks r \<noteq> 0" "masks (other r) \<noteq> 0" using apart by (simp_all add: masks_apart_def)
    note P = enter_keeps_phases [OF ph enter(2) blocking_prog_follows [OF this] enter(1)]
    have "ef_inv (dflag s')"
      using ef_inv_call [OF ef, of r] enter by (simp add: blocking_prog_disciplined)
    with P fine enter(1) show ?thesis unfolding duo_inv_def by auto
  next
    case (begin_attempt r k data n)
    note B = begin_fine [OF fine begin_attempt(3,5,6)]
    from begin_keeps_phases [OF ph begin_attempt(2,3,4) B(2) begin_attempt(1)] B(1) ef begin_attempt(1)
    show ?thesis unfolding duo_inv_def by auto
  next
    case (touch r data n b p p' h')
    from touch_keeps_phases [OF ph fine touch(2,3,1)] touch_fine(1) [OF fine touch(2,3)] ef touch(1)
    show ?thesis unfolding duo_inv_def by auto
  next
    case (finish_attempt r k data n b ok)
    have "fine_inv q (set_side r Idle (queue_state s))"
      using fine_step_preserves [OF fine fine_step.write_return]
        fine_step_preserves [OF fine fine_step.read_return] finish_attempt(3) by (cases r) auto
    moreover have "ef_inv (dflag s')"
      using ef_inv_call [OF ef, of r] ok [of r] finish_attempt by simp
    ultimately show ?thesis
      using finish_keeps_phases [OF ph fine finish_attempt(2,3,1)] finish_attempt(1)
      unfolding duo_inv_def by auto
  next
    case (flag_access raised taken f')
    have "ef_inv f'" by (rule ef_step_preserves [OF flag_access(2) ef]) simp
    with access_keeps_phases [OF flag_access(2) ph apart flag_access(1)] fine flag_access(1)
    show ?thesis by (simp add: duo_inv_def)
  next
    case (client_memory h')
    from client_keeps_phases [OF ph fine client_memory(2,3,1)]
      fine_client(1) [OF fine client_memory(2)] client_memory(3) [of Writer] client_memory(3) [of Reader]
      ef client_memory(1)
    show ?thesis unfolding duo_inv_def by auto
  qed
qed

lemma duo_inv_start:
  assumes "sync_inv q h"
  shows "duo_inv q masks (duo_start h)"
proof -
  have "dside (duo_start h) r = Idle" for r by (cases r) (simp_all add: duo_start_def)
  then have "phases q masks (duo_start h) (\<lambda>r. Free) (\<lambda>r. False)"
    by (simp add: phases_def attempt_ok_idle duo_start_def ef_start_def)
  then show ?thesis
    using fine_inv_start [of q h] assms ef_inv_start [of 0]
    by (auto simp: duo_inv_def sync_inv_def duo_start_def)
qed

lemma duo_reachable:
  assumes "(duo_step q masks)\<^sup>*\<^sup>* (duo_start h) s" and "sync_inv q h" and "masks_apart masks"
  shows "duo_inv q masks s"
  using assms(1)
proof (induction rule: rtranclp_induct)
  case base
  show ?case by (rule duo_inv_start [OF assms(2)])
next
  case (step s s')
  from duo_step_preserves [OF step.hyps(2) step.IH assms(3)] show ?case .
qed

lemma owing_is_signalling:
  assumes "thread_follows m n th Owes"
  obtains k where "th = Inside (FetchOr n k)"
proof (cases th)
  case (Inside p)
  with assms that show ?thesis by (cases p) auto
qed (use assms in auto)

section \<open>An attempt that nothing interrupts\<close>

lemma set_side_again [simp]:
  "set_side r y ((set_side r x f)\<lparr>fmem := h\<rparr>) = set_side r y (f\<lparr>fmem := h\<rparr>)"
  "set_side r y (set_side r x f) = set_side r y f"
  "side_of r f = x \<Longrightarrow> set_side r x f = f"
  by (cases r; auto)+

text \<open>The state when the attempt of \<open>r\<close> has come to \<open>x\<close>.\<close>

definition attempt_at ::
  "role \<Rightarrow> ptr \<Rightarrow> size_t \<Rightarrow> bool \<Rightarrow> bool prog \<Rightarrow> heap \<Rightarrow> duo \<Rightarrow> duo" where
  "attempt_at r data n b p h s =
     s\<lparr>queue_state := set_side r (Running data n b p) (queue_state s\<lparr>fmem := h\<rparr>)\<rparr>"

lemma attempt_at_simps [simp]:
  "dside (attempt_at r data n b p h s) r = Running data n b p"
  "dmem (attempt_at r data n b p h s) = h"
  "attempt_at r data n b' p' h' (attempt_at r data n b p h s) = attempt_at r data n b' p' h' s"
  by (simp_all add: attempt_at_def)

lemma attempt_here: "dside s r = Running data n b p \<Longrightarrow> attempt_at r data n b p (dmem s) s = s"
  by (simp add: attempt_at_def)

lemma touch_then:
  assumes run: "dside s r = Running data n b p" and act: "action p (dmem s) = Some (p', h)"
    and rest: "\<And>s b. exec p' (dmem s) = Inr (x, h') \<Longrightarrow> dside s r = Running data n b p' \<Longrightarrow>
      \<exists>b'. (duo_step q masks)\<^sup>*\<^sup>* s (attempt_at r data n b' (Ret x) h' s)"
    and go: "exec p' h = Inr (x, h')"
  shows "\<exists>b'. (duo_step q masks)\<^sup>*\<^sup>* s (attempt_at r data n b' (Ret x) h' s)"
proof -
  let ?s1 = "attempt_at r data n (b \<or> stores p \<noteq> None) p' h s"
  have "duo_step q masks s ?s1" unfolding attempt_at_def by (rule duo_step.touch [OF run act])
  moreover obtain b' where "(duo_step q masks)\<^sup>*\<^sup>* ?s1 (attempt_at r data n b' (Ret x) h' ?s1)"
    using rest [of ?s1] go by auto
  ultimately show ?thesis by (auto intro: converse_rtranclp_into_rtranclp)
qed

lemma touches_exec:
  assumes "exec p (dmem s) = Inr (x, h')" and "dside s r = Running data n b p"
  shows "\<exists>b'. (duo_step q masks)\<^sup>*\<^sup>* s (attempt_at r data n b' (Ret x) h' s)"
  using assms
proof (induction p arbitrary: s b)
  case (Ret y)
  then have "attempt_at r data n b (Ret x) h' s = s" using attempt_here [of r s data n b "Ret x"] by simp
  then show ?case by (metis rtranclp.rtrancl_refl)
next
  case (LoadC mo a f)
  then show ?case
    by (intro touch_then [OF LoadC.prems(2)]) (auto split: if_splits intro: LoadC.IH [OF rangeI])
next
  case (StoreC mo a v f)
  then show ?case
    by (intro touch_then [OF StoreC.prems(2)]) (auto split: if_splits intro: StoreC.IH)
next
  case (LoadB a f)
  then show ?case by (intro touch_then [OF LoadB.prems(2)]) (auto intro: LoadB.IH [OF rangeI])
next
  case (StoreB a v f)
  then show ?case by (intro touch_then [OF StoreB.prems(2)]) (auto intro: StoreB.IH)
qed simp

text \<open>The call, and what the thread goes on with.\<close>

fun call :: "MessageQueue \<Rightarrow> role \<Rightarrow> ptr \<Rightarrow> size_t \<Rightarrow> heap \<Rightarrow> (bool \<times> heap) res" where
  "call q Writer data n h = fmq_write q h data n"
| "call q Reader data n h = fmq_read q h data n"

lemma uninterrupted_attempt:
  assumes at: "thread_of (dflag s) r = Inside (Attempt k)" and idle: "dside s r = Idle"
    and req: "request s r = (data, n)" and may: "may_attempt q r data n (dmem s)"
    and clear: "clear_of q data n (dside s (other r))"
    and call: "call q r data n (dmem s) = Inr (ok, h')"
  shows "(duo_step q masks)\<^sup>*\<^sup>* s (s\<lparr>queue_state := queue_state s\<lparr>fmem := h'\<rparr>,
    dflag := set_thread r (Inside (k ok)) (dflag s)\<rparr>)"
proof -
  let ?s1 = "attempt_at r data n False (attempt_prog q r data n) (dmem s) s"
  have "duo_step q masks s ?s1"
    using duo_step.begin_attempt [OF at idle req may clear, of masks] by (simp add: attempt_at_def)
  moreover have "exec (attempt_prog q r data n) (dmem ?s1) = Inr (ok, h')"
    using call by (cases r) (simp_all add: exec_fmq_write exec_fmq_read)
  then obtain b where "(duo_step q masks)\<^sup>*\<^sup>* ?s1 (attempt_at r data n b (Ret ok) h' ?s1)"
    using touches_exec [where s = ?s1 and r = r and q = q and masks = masks] by fastforce
  moreover have "duo_step q masks (attempt_at r data n b (Ret ok) h' s)
    (s\<lparr>queue_state := queue_state s\<lparr>fmem := h'\<rparr>, dflag := set_thread r (Inside (k ok)) (dflag s)\<rparr>)"
    using duo_step.finish_attempt [of "attempt_at r data n b (Ret ok) h' s" r k data n b ok q masks] at idle
    by (simp add: attempt_at_def)
  ultimately show ?thesis
    by (auto intro: converse_rtranclp_into_rtranclp rtranclp.rtrancl_into_rtrancl)
qed

section \<open>Blocked callers are woken\<close>

text \<open>
  C3: a blocked caller is woken. One thread is in \<open>writeBlocking\<close> and one in \<open>readBlocking\<close>,
  again and again, with any timeouts, and their loads, stores, copied bytes, atomic operations
  and system calls interleave in any way: if one of them sleeps although the ring has the room,
  or the data, it waits for, then the other one is between the store of its success and the
  system call that wakes the sleeper: in the rest of its attempt, before it sets the sleeper's
  bit, or before that system call. So both sleep at once only if the ring has neither room
  for the one nor data for the other.
\<close>

theorem blocked_callers_are_woken:
  assumes reach: "(duo_step q masks)\<^sup>*\<^sup>* (duo_start h) s" and inv: "sync_inv q h"
    and apart: "masks_apart masks"
    and asleep: "thread_of (dflag s) r = Asleep m k" and req: "request s r = (data, n)"
    and able: "able q r n (dmem s)"
  shows "m = masks r \<and>
    ((\<exists>data' n' p. dside s (other r) = Running data' n' True p) \<or>
     (\<exists>k'. thread_of (dflag s) (other r) = Inside (FetchOr m k')) \<or>
     (\<exists>b k'. thread_of (dflag s) (other r) = Inside (FutexWake b k') \<and> b AND m \<noteq> 0))"
proof -
  obtain ph w where ef: "ef_inv (dflag s)" and ph: "phases q masks s ph w"
    using duo_reachable [OF reach inv apart] by (auto simp: duo_inv_def)
  have m: "m = masks r" "ph r = Waits" using phasesD(1) [OF ph, of r] asleep by auto
  have "dside s r = Idle" using no_attempt [OF phasesD(2) [OF ph]] asleep by simp
  then have "heeded q masks s ph r"
    using phasesD(2,3) [OF ph, of r] m(2) by (simp add: attempt_ok_idle)
  then consider "efWordValue (dflag s) AND m \<noteq> 0" | "ph (other r) = Owes" | "committed (dside s (other r))"
    using able req m by (auto simp: heeded_def owes_def)
  then show ?thesis
  proof cases
    case 1
    obtain t b k' where t: "thread_of (dflag s) t = Inside (FutexWake b k')" "b AND m \<noteq> 0"
      by (rule sleeper_is_heard [OF ef asleep 1])
    then have "t = other r" using asleep either_role [of t r] by auto
    with t m(1) show ?thesis by blast
  next
    case 2
    have "thread_follows (masks (other r)) m (thread_of (dflag s) (other r)) Owes"
      using phasesD(1) [OF ph, of "other r"] 2 m(1) by simp
    then obtain k' where "thread_of (dflag s) (other r) = Inside (FetchOr m k')"
      by (rule owing_is_signalling)
    with m(1) show ?thesis by blast
  next
    case 3
    then show ?thesis using m(1) by (cases "dside s (other r)") auto
  qed
qed

end
