(* ===== verification/System_Porting.thy ===== *)
theory System_Porting
  imports Event_Flag
begin

text \<open>
  \<open>system_porting.cpp\<close>: \<open>mmap\<close> and \<open>munmap\<close> over the Windows file mappings, as far as the
  queue uses them. The kernel calls are a parameter, the record \<open>win\<close>; the constants are those
  of the Windows headers. A handle and an address are 64-bit words, a \<open>DWORD\<close> and an \<open>int\<close> of
  flags 32-bit words, and the \<open>long\<close> offset of the call arrives as a 32-bit word.
\<close>

section \<open>Constants\<close>

definition MAP_SHARED :: u32 where "MAP_SHARED = 0x01"
definition MAP_PRIVATE :: u32 where "MAP_PRIVATE = 0x02"
definition MAP_FIXED :: u32 where "MAP_FIXED = 0x04"
definition MAP_ANONYMOUS :: u32 where "MAP_ANONYMOUS = 0x10"
definition PROT_NONE :: u32 where "PROT_NONE = 0x0"
definition PROT_READ :: u32 where "PROT_READ = 0x1"
definition PROT_WRITE :: u32 where "PROT_WRITE = 0x2"
definition PROT_EXEC :: u32 where "PROT_EXEC = 0x4"

definition PAGE_NOACCESS :: u32 where "PAGE_NOACCESS = 0x01"
definition PAGE_READWRITE :: u32 where "PAGE_READWRITE = 0x04"
definition PAGE_WRITECOPY :: u32 where "PAGE_WRITECOPY = 0x08"
definition PAGE_EXECUTE :: u32 where "PAGE_EXECUTE = 0x10"
definition PAGE_EXECUTE_READ :: u32 where "PAGE_EXECUTE_READ = 0x20"
definition PAGE_EXECUTE_READWRITE :: u32 where "PAGE_EXECUTE_READWRITE = 0x40"

definition FILE_MAP_COPY :: u32 where "FILE_MAP_COPY = 0x01"
definition FILE_MAP_WRITE :: u32 where "FILE_MAP_WRITE = 0x02"
definition FILE_MAP_READ :: u32 where "FILE_MAP_READ = 0x04"
definition FILE_MAP_EXECUTE :: u32 where "FILE_MAP_EXECUTE = 0x20"
definition SECTION_QUERY :: u32 where "SECTION_QUERY = 0x01"

definition INVALID_HANDLE_VALUE :: ptr where "INVALID_HANDLE_VALUE = - 1"
definition MAP_FAILED :: ptr where "MAP_FAILED = - 1"

lemmas mmap_flag_defs =
  MAP_SHARED_def MAP_PRIVATE_def MAP_FIXED_def MAP_ANONYMOUS_def
  PROT_NONE_def PROT_READ_def PROT_WRITE_def PROT_EXEC_def

lemmas nt_flag_defs =
  PAGE_NOACCESS_def PAGE_READWRITE_def PAGE_WRITECOPY_def PAGE_EXECUTE_def
  PAGE_EXECUTE_READ_def PAGE_EXECUTE_READWRITE_def
  FILE_MAP_COPY_def FILE_MAP_WRITE_def FILE_MAP_READ_def FILE_MAP_EXECUTE_def

section \<open>The kernel\<close>

text \<open>
  \<open>DuplicateHandle\<close> returns the value that it leaves in its out parameter; the process
  arguments and access flags are always those of the one call in the code.
\<close>

record 'w win =
  CreateFileMappingA :: "ptr \<Rightarrow> u32 \<Rightarrow> u32 \<Rightarrow> u32 \<Rightarrow> 'w st \<Rightarrow> ptr \<times> 'w st"
  DuplicateHandle :: "ptr \<Rightarrow> 'w st \<Rightarrow> ptr \<times> 'w st"
  MapViewOfFileEx :: "ptr \<Rightarrow> u32 \<Rightarrow> u32 \<Rightarrow> u32 \<Rightarrow> size_t \<Rightarrow> ptr \<Rightarrow> 'w st \<Rightarrow> ptr \<times> 'w st"
  UnmapViewOfFile :: "ptr \<Rightarrow> 'w st \<Rightarrow> bool \<times> 'w st"

definition system_porting_munmap :: "'w win \<Rightarrow> ptr \<Rightarrow> size_t \<Rightarrow> 'w st \<Rightarrow> int \<times> 'w st" where
  "system_porting_munmap os addr len s =
     (case UnmapViewOfFile os addr s of (ret_bool, s') \<Rightarrow> (if \<not> ret_bool then - 1 else 0, s'))"

text \<open>
  Opening a mapping by name, over the kernel's \<open>OpenFileMapping\<close>, whose last argument is \<open>None\<close> for
  a null name. The conversion of the name to wide characters is part of the kernel call.
\<close>

definition system_porting_open_shmem ::
  "(u32 \<Rightarrow> string option \<Rightarrow> 'w st \<Rightarrow> int \<times> 'w st) \<Rightarrow> string \<Rightarrow> bool \<Rightarrow> 'w st \<Rightarrow> int \<times> 'w st" where
  "system_porting_open_shmem OpenFileMapping a_name read_only s =
     (let access = FILE_MAP_READ OR SECTION_QUERY;
          access' = (if \<not> read_only then access OR FILE_MAP_WRITE else access)
      in OpenFileMapping access' (if a_name = [] then None else Some a_name) s)"

text \<open>
  Making a directory, over the call of the C library of the platform; Windows has no \<open>mode\<close>.
\<close>

definition system_porting_shm_mkdir ::
  "platform \<Rightarrow> (string \<Rightarrow> 'w st \<Rightarrow> int \<times> 'w st) \<Rightarrow> (string \<Rightarrow> u32 \<Rightarrow> 'w st \<Rightarrow> int \<times> 'w st) \<Rightarrow>
     string \<Rightarrow> u32 \<Rightarrow> 'w st \<Rightarrow> int \<times> 'w st" where
  "system_porting_shm_mkdir pf win_mkdir posix_mkdir pathname mode s =
     (case pf of MSVC \<Rightarrow> win_mkdir pathname s | POSIX \<Rightarrow> posix_mkdir pathname mode s)"

text \<open>
  The translation of the protection: page protection and access flags, or nothing for a
  combination that is not supported.
\<close>

definition nt_protection :: "u32 \<Rightarrow> (u32 \<times> u32) option" where
  "nt_protection prot =
     (if prot = PROT_NONE then Some (PAGE_NOACCESS, 0)
      else if prot = PROT_READ then Some (PAGE_READWRITE, FILE_MAP_READ)
      else if prot AND PROT_READ \<noteq> 0 \<and> prot AND PROT_WRITE \<noteq> 0
        then Some (PAGE_READWRITE, FILE_MAP_WRITE)
      else if prot = PROT_EXEC then Some (PAGE_EXECUTE, FILE_MAP_EXECUTE)
      else if prot AND PROT_EXEC \<noteq> 0 \<and> prot AND PROT_READ \<noteq> 0
        then Some (PAGE_EXECUTE_READ, FILE_MAP_EXECUTE OR FILE_MAP_READ)
      else if prot AND PROT_EXEC \<noteq> 0 \<and> prot AND PROT_READ \<noteq> 0 \<and> prot AND PROT_WRITE \<noteq> 0
        then Some (PAGE_EXECUTE_READWRITE, FILE_MAP_EXECUTE OR FILE_MAP_WRITE)
      else None)"

text \<open>\<open>HighPart\<close> and \<open>LowPart\<close> of a \<open>LARGE_INTEGER\<close>.\<close>

definition HighPart :: "u64 \<Rightarrow> u32" where "HighPart v = ucast (drop_bit 32 v)"
definition LowPart :: "u64 \<Rightarrow> u32" where "LowPart v = ucast v"

definition system_porting_mmap ::
  "'w win \<Rightarrow> ptr \<Rightarrow> size_t \<Rightarrow> u32 \<Rightarrow> u32 \<Rightarrow> ptr \<Rightarrow> u32 \<Rightarrow> 'w st \<Rightarrow> ptr \<times> 'w st" where
  "system_porting_mmap os addr len prot flags file_handle off s =
     (let addr' = (if flags AND MAP_FIXED \<noteq> 0 then 0 else addr) in
      if flags AND MAP_FIXED \<noteq> 0 \<and> addr' = 0 then (MAP_FAILED, s)
      else if flags AND MAP_ANONYMOUS \<noteq> 0 \<and> INVALID_HANDLE_VALUE \<noteq> file_handle \<or>
              file_handle = nullptr
        then (MAP_FAILED, s)
      else (case nt_protection prot of
        None \<Rightarrow> (MAP_FAILED, s)
      | Some (nt_protect0, nt_flags0) \<Rightarrow>
          let nt_flag_protect = (if flags AND MAP_PRIVATE \<noteq> 0 then nt_protect0 OR PAGE_WRITECOPY
                                 else nt_protect0);
              nt_flags = (if flags AND MAP_PRIVATE \<noteq> 0 then FILE_MAP_COPY else nt_flags0);
              (file_mapping, s1) =
                (if file_handle = INVALID_HANDLE_VALUE
                 then CreateFileMappingA os file_handle nt_flag_protect (HighPart len) (LowPart len) s
                 else DuplicateHandle os file_handle s)
          in if file_mapping = 0 then (MAP_FAILED, s1)
             else
               (case MapViewOfFileEx os file_mapping nt_flags (HighPart (scast off))
                       (LowPart (scast off)) len addr' s1 of
                  (addr_mapping, s2) \<Rightarrow>
                    if addr_mapping = 0 then (MAP_FAILED, s2) else (addr_mapping, s2))))"

section \<open>What the queue asks for\<close>

text \<open>The one combination of arguments that \<open>mapGrantorDescr\<close> uses.\<close>

lemma mmap_shared_rw:
  "system_porting_mmap os 0 len (PROT_READ OR PROT_WRITE) MAP_SHARED handle off s =
     (if handle = 0 then (MAP_FAILED, s)
      else
        (case (if handle = INVALID_HANDLE_VALUE
               then CreateFileMappingA os handle PAGE_READWRITE (HighPart len) (LowPart len) s
               else DuplicateHandle os handle s) of
           (file_mapping, s1) \<Rightarrow>
             if file_mapping = 0 then (MAP_FAILED, s1)
             else
               (case MapViewOfFileEx os file_mapping FILE_MAP_WRITE (HighPart (scast off))
                       (LowPart (scast off)) len 0 s1 of
                  (addr_mapping, s2) \<Rightarrow>
                    if addr_mapping = 0 then (MAP_FAILED, s2) else (addr_mapping, s2))))"
  by (simp add: system_porting_mmap_def nt_protection_def mmap_flag_defs Let_def
      split: prod.splits)

text \<open>
  A mapping is never executable and writable at once. A request for all three accesses is
  taken for a request to read and write, because that test comes first, so the branch written
  for it is never reached.
\<close>

lemma nt_protection_never_execute_write:
  "nt_protection prot \<noteq> Some (PAGE_EXECUTE_READWRITE, access)"
  by (simp add: nt_protection_def nt_flag_defs)

end
