(* ===== verification/Descriptor_Exchange.thy ===== *)
theory Descriptor_Exchange
  imports Shim_Descriptor Event_Flag
begin

text \<open>
  How a descriptor travels: the copy of a \<open>AidlMQDescriptorShim\<close>, its construction from the
  AIDL \<open>MQDescriptor\<close> that another process sent, \<open>dupeDesc\<close> of \<open>AidlMessageQueue.h\<close>, which
  makes the one to send, and the conversion of HIDL descriptors in \<open>ConvertMQDescriptors.h\<close>.
  AIDL has signed integers only: a field is kept as the word with the same bits, and the
  code's test for a negative value is the test of its sign. The construction and \<open>dupeDesc\<close> are
  those of POSIX; on Windows both go through a text form of the descriptor, which is in
  \<open>Descriptor_Text\<close>.
\<close>

section \<open>Native handles\<close>

text \<open>\<open>native_handle_create\<close>, the pair of closing and deleting, and \<open>dup\<close> come from libraries.\<close>

record 'w handle_os =
  native_handle_create :: "int \<Rightarrow> int \<Rightarrow> 'w st \<Rightarrow> native_handle option \<times> 'w st"
  native_handle_close_delete :: "native_handle \<Rightarrow> 'w st \<Rightarrow> 'w st"
  dup :: "int \<Rightarrow> 'w st \<Rightarrow> int \<times> 'w st"

text \<open>
  A loop that stores one entry after the other into \<open>data\<close>, from index \<open>i\<close> on; \<open>f\<close> makes the
  entry. Storing past the end of the handle is undefined.
\<close>

fun write_entries ::
  "(int \<Rightarrow> 'w st \<Rightarrow> int \<times> 'w st) \<Rightarrow> int list \<Rightarrow> nat \<Rightarrow> int list \<Rightarrow> 'w st \<Rightarrow>
     (int list \<times> 'w st) res" where
  "write_entries f [] i data s = Inr (data, s)"
| "write_entries f (x # xs) i data s =
     (case f x s of (v, s') \<Rightarrow>
        if i < length data then write_entries f xs (Suc i) (data[i := v]) s' else Inl Undefined)"

text \<open>The entries \<open>data[from]\<close>, ... before \<open>data[to]\<close>, as a loop reads them.\<close>

definition read_entries :: "native_handle \<Rightarrow> nat \<Rightarrow> nat \<Rightarrow> int list res" where
  "read_entries nh from to =
     (if from < to \<and> length (handle_data nh) < to then Inl Undefined
      else Inr (take (to - from) (drop from (handle_data nh))))"

text \<open>The results of a function called once for each entry.\<close>

fun map_calls :: "(int \<Rightarrow> 'w st \<Rightarrow> int \<times> 'w st) \<Rightarrow> int list \<Rightarrow> 'w st \<Rightarrow> int list \<times> 'w st" where
  "map_calls f [] s = ([], s)"
| "map_calls f (x # xs) s =
     (case f x s of (v, s1) \<Rightarrow> (case map_calls f xs s1 of (vs, s2) \<Rightarrow> (v # vs, s2)))"

definition no_call :: "int \<Rightarrow> 'w st \<Rightarrow> int \<times> 'w st" where
  "no_call x s = (x, s)"

section \<open>Copying a shim\<close>

text \<open>
  \<open>memcpy\<close> of \<open>numInts * sizeof(int)\<close> bytes over the entries after the descriptors. An entry is
  an \<open>int\<close> on POSIX, but a pointer of twice this size on Windows, where the call copies the
  first half of them, and of the entry in the middle, if there is one, the lower half.
\<close>

definition copied_entries :: "platform \<Rightarrow> nat \<Rightarrow> nat" where
  "copied_entries pf ni = (case pf of POSIX \<Rightarrow> ni | MSVC \<Rightarrow> (ni + 1) div 2)"

definition copied_ints :: "platform \<Rightarrow> nat \<Rightarrow> int list \<Rightarrow> int list \<Rightarrow> int list" where
  "copied_ints pf ni src dst =
     (case pf of
        POSIX \<Rightarrow> src
      | MSVC \<Rightarrow> if even ni then src
                else butlast src @ [last dst div 2 ^ 32 * 2 ^ 32 + last src mod 2 ^ 32])"

definition Shim_assign ::
  "platform \<Rightarrow> 'w handle_os \<Rightarrow> Shim \<Rightarrow> Shim \<Rightarrow> 'w st \<Rightarrow> (Shim \<times> 'w st) res" where
  "Shim_assign pf ho this other s =
     (let s1 = (case mHandle this of None \<Rightarrow> s | Some nh \<Rightarrow> native_handle_close_delete ho nh s);
          this' = this\<lparr>mGrantors := mGrantors other, mHandle := None, mQuantum := mQuantum other,
                       mFlags := mFlags other,
                       mName := (case pf of MSVC \<Rightarrow> mName other | POSIX \<Rightarrow> mName this)\<rparr>
      in case mHandle other of
           None \<Rightarrow> Inr (this', s1)
         | Some oh \<Rightarrow>
             (case native_handle_create ho (numFds oh) (numInts oh) s1 of
                (None, s2) \<Rightarrow> Inl Undefined
              | (Some nh, s2) \<Rightarrow>
                  let nf = nat (numFds oh); ni = nat (numInts oh); n = copied_entries pf ni in
                  bind_res (read_entries oh 0 nf) (\<lambda>fds.
                  bind_res (write_entries (case pf of MSVC \<Rightarrow> no_call | POSIX \<Rightarrow> dup ho) fds 0
                              (handle_data nh) s2) (\<lambda>(data1, s3).
                  bind_res (read_entries oh nf (nf + n)) (\<lambda>ints.
                  bind_res (write_entries no_call
                              (copied_ints pf ni ints (take n (drop nf data1))) nf data1 s3)
                    (\<lambda>(data2, s4).
                  Inr (this'\<lparr>mHandle := Some (nh\<lparr>handle_data := data2\<rparr>)\<rparr>, s4)))))))"

text \<open>The copy constructor builds an empty descriptor first and then assigns.\<close>

definition Shim_copy ::
  "platform \<Rightarrow> 'w handle_os \<Rightarrow> MQFlavor \<Rightarrow> Shim \<Rightarrow> 'w st \<Rightarrow> (Shim \<times> 'w st) res" where
  "Shim_copy pf ho flavor other s =
     bind_res (shim_of_size flavor 0 None 0 False) (\<lambda>this. Shim_assign pf ho this other s)"

definition Shim_destroy :: "'w handle_os \<Rightarrow> Shim \<Rightarrow> 'w st \<Rightarrow> 'w st" where
  "Shim_destroy ho d s =
     (case mHandle d of None \<Rightarrow> s | Some nh \<Rightarrow> native_handle_close_delete ho nh s)"

section \<open>AIDL descriptors\<close>

record AidlGrantor =
  aidl_fdIndex :: u32
  aidl_offset :: u32
  aidl_extent :: u64

record AidlMQDescriptor =
  aidl_grantors :: "AidlGrantor list"
  aidl_fds :: "int list"
  aidl_ints :: "int list"
  aidl_quantum :: u32
  aidl_flags :: u32

definition AidlMQDescriptor_default :: AidlMQDescriptor where
  "AidlMQDescriptor_default = \<lparr>aidl_grantors = [], aidl_fds = [], aidl_ints = [],
     aidl_quantum = 0, aidl_flags = 0\<rparr>"

definition negative32 :: "u32 \<Rightarrow> bool" where "negative32 x \<longleftrightarrow> sint x < 0"
definition negative64 :: "u64 \<Rightarrow> bool" where "negative64 x \<longleftrightarrow> sint x < 0"

text \<open>
  The conversion loop: the converted grantors and whether all were accepted; from the first
  refused one on, the elements are as \<open>resize\<close> left them.
\<close>

fun convert_grantors :: "AidlGrantor list \<Rightarrow> GrantorDescriptor list \<times> bool" where
  "convert_grantors [] = ([], True)"
| "convert_grantors (g # gs) =
     (if negative32 (aidl_offset g) \<or> negative64 (aidl_extent g) \<or> negative32 (aidl_fdIndex g)
      then (replicate (Suc (length gs)) GrantorDescriptor_zero, False)
      else (case convert_grantors gs of (rest, ok) \<Rightarrow>
        (\<lparr>flags = 0, fdIndex = aidl_fdIndex g, offset = aidl_offset g, extent = aidl_extent g\<rparr>
           # rest, ok)))"

definition shim_of_desc ::
  "'w handle_os \<Rightarrow> AidlMQDescriptor \<Rightarrow> 'w st \<Rightarrow> (Shim \<times> 'w st) res" where
  "shim_of_desc ho desc s =
     (let d0 = \<lparr>mGrantors = [], mHandle = None, mQuantum = aidl_quantum desc,
                mFlags = aidl_flags desc, mName = ''''\<rparr>
      in if negative32 (aidl_quantum desc) \<or> negative32 (aidl_flags desc) then Inr (d0, s)
         else
           (case convert_grantors (aidl_grantors desc) of (gs, ok) \<Rightarrow>
              if \<not> ok then Inr (d0\<lparr>mGrantors := gs\<rparr>, s)
              else
                (case native_handle_create ho (int (length (aidl_fds desc)))
                        (int (length (aidl_ints desc))) s of
                   (None, s1) \<Rightarrow> Inr (d0\<lparr>mGrantors := gs\<rparr>, s1)
                 | (Some nh, s1) \<Rightarrow>
                     bind_res (write_entries (dup ho) (aidl_fds desc) 0 (handle_data nh) s1)
                       (\<lambda>(data1, s2).
                     bind_res (write_entries no_call (aidl_ints desc) (length (aidl_fds desc))
                                 data1 s2) (\<lambda>(data2, s3).
                     Inr (d0\<lparr>mGrantors := gs, mHandle := Some (nh\<lparr>handle_data := data2\<rparr>)\<rparr>, s3))))))"

definition aidl_of_grantor :: "GrantorDescriptor \<Rightarrow> AidlGrantor" where
  "aidl_of_grantor g = \<lparr>aidl_fdIndex = fdIndex g, aidl_offset = offset g, aidl_extent = extent g\<rparr>"

text \<open>\<open>shim\<close> is the descriptor of the queue, if it has one.\<close>

definition dupeDesc ::
  "'w handle_os \<Rightarrow> Shim option \<Rightarrow> 'w st \<Rightarrow> (AidlMQDescriptor \<times> 'w st) res" where
  "dupeDesc ho shim s =
     (case shim of
        None \<Rightarrow> Inr (AidlMQDescriptor_default, s)
      | Some d \<Rightarrow>
          (case mHandle d of
             None \<Rightarrow> Inl Undefined
           | Some nh \<Rightarrow>
               let nf = nat (numFds nh); n = nat (numFds nh + numInts nh) in
               bind_res (read_entries nh 0 nf) (\<lambda>raw.
               case map_calls (dup ho) raw s of (fds, s1) \<Rightarrow>
               bind_res (read_entries nh nf n) (\<lambda>ints.
               Inr (\<lparr>aidl_grantors = map aidl_of_grantor (mGrantors d), aidl_fds = fds,
                     aidl_ints = ints, aidl_quantum = ucast (getQuantum d),
                     aidl_flags = getFlags d\<rparr>, s1)))))"

section \<open>From HIDL to AIDL\<close>

text \<open>What the accessors of the HIDL descriptor return; its class is not part of this code.\<close>

record HidlMQDescriptor =
  hidl_grantors :: "GrantorDescriptor list"
  hidl_handle :: native_handle
  hidl_getQuantum :: size_t
  hidl_getFlags :: u32

text \<open>
  The loop over the grantors appends what it has converted before it refuses one; \<open>fdIndex\<close> is
  widened from 32 to 64 bits before its sign is tested.
\<close>

fun append_grantors :: "AidlGrantor list \<Rightarrow> GrantorDescriptor list \<Rightarrow> AidlGrantor list \<times> bool" where
  "append_grantors acc [] = (acc, True)"
| "append_grantors acc (g # gs) =
     (if negative32 (offset g) \<or> negative64 (extent g) \<or> negative64 (ucast (fdIndex g))
      then (acc, False)
      else append_grantors (acc @ [aidl_of_grantor g]) gs)"

definition unsafeHidlToAidlMQDescriptor ::
  "'w handle_os \<Rightarrow> MQFlavor \<Rightarrow> HidlMQDescriptor \<Rightarrow> AidlMQDescriptor \<Rightarrow> 'w st \<Rightarrow>
     (bool \<times> AidlMQDescriptor \<times> 'w st) res" where
  "unsafeHidlToAidlMQDescriptor ho flavor hidlDesc aidlDesc s =
     (if aidl_grantors aidlDesc \<noteq> [] then Inr (False, aidlDesc, s)
      else
        (case append_grantors (aidl_grantors aidlDesc) (hidl_grantors hidlDesc) of (gs, ok) \<Rightarrow>
           let desc1 = aidlDesc\<lparr>aidl_grantors := gs\<rparr> in
           if \<not> ok then Inr (False, desc1, s)
           else
             let nh = hidl_handle hidlDesc;
                 nf = nat (numFds nh); n = nat (numFds nh + numInts nh)
             in bind_res (read_entries nh 0 nf) (\<lambda>raw.
                case map_calls (dup ho) raw s of (fds, s1) \<Rightarrow>
                bind_res (read_entries nh nf n) (\<lambda>ints.
                let desc2 = desc1\<lparr>aidl_fds := fds, aidl_ints := ints\<rparr> in
                if negative32 (ucast (hidl_getQuantum hidlDesc)) \<or>
                   negative32 (hidl_getFlags hidlDesc) then Inr (False, desc2, s1)
                else if hidl_getFlags hidlDesc \<noteq> MQFlavor_value flavor then Inr (False, desc2, s1)
                else Inr (True, desc2\<lparr>aidl_quantum := ucast (hidl_getQuantum hidlDesc),
                                      aidl_flags := hidl_getFlags hidlDesc\<rparr>, s1)))))"

section \<open>Handles copy entry by entry\<close>

lemma length_map_calls: "length (fst (map_calls f xs s)) = length xs"
  by (induction xs arbitrary: s) (auto split: prod.splits, metis fst_conv length_Cons)

lemma write_entries_run:
  assumes "i + length xs \<le> length data"
  shows "write_entries f xs i data s =
    (case map_calls f xs s of (vs, s') \<Rightarrow> Inr (take i data @ vs @ drop (i + length xs) data, s'))"
  using assms
proof (induction xs arbitrary: i data s)
  case Nil
  then show ?case by simp
next
  case (Cons x xs)
  obtain v s1 where f: "f x s = (v, s1)" by (rule prod.exhaust)
  obtain vs s2 where m: "map_calls f xs s1 = (vs, s2)" by (rule prod.exhaust)
  have "write_entries f xs (Suc i) (data[i := v]) s1 =
      Inr (take (Suc i) (data[i := v]) @ vs @ drop (Suc i + length xs) (data[i := v]), s2)"
    using Cons.IH [of "Suc i" "data[i := v]" s1] Cons.prems by (simp add: m)
  with Cons.prems f m show ?case
    by (simp add: take_Suc_conv_app_nth)
qed

lemma write_entries_pure:
  "i + length xs \<le> length data \<Longrightarrow>
     write_entries no_call xs i data s = Inr (take i data @ xs @ drop (i + length xs) data, s)"
proof -
  have "map_calls no_call xs s = (xs, s)"
    by (induction xs) (simp_all add: no_call_def)
  then show "i + length xs \<le> length data \<Longrightarrow> ?thesis" by (simp add: write_entries_run)
qed

text \<open>
  The contract of \<open>native_handle_create\<close> as far as it succeeds, and a handle whose counts
  agree with its entries.
\<close>

definition handle_ok :: "native_handle \<Rightarrow> bool" where
  "handle_ok nh \<longleftrightarrow> 0 \<le> numFds nh \<and> 0 \<le> numInts nh \<and>
     length (handle_data nh) = nat (numFds nh) + nat (numInts nh)"

definition creates_handles :: "'w handle_os \<Rightarrow> bool" where
  "creates_handles ho \<longleftrightarrow> (\<forall>f i s. 0 \<le> f \<longrightarrow> 0 \<le> i \<longrightarrow>
     (\<exists>nh s'. native_handle_create ho f i s = (Some nh, s') \<and> numFds nh = f \<and> numInts nh = i \<and>
        length (handle_data nh) = nat f + nat i))"

lemma creates_handlesD:
  assumes "creates_handles ho" and "0 \<le> f" "0 \<le> i"
  obtains nh s' where "native_handle_create ho f i s = (Some nh, s')" and "numFds nh = f"
    and "numInts nh = i" and "length (handle_data nh) = nat f + nat i"
  using assms unfolding creates_handles_def by blast

text \<open>Filling a new handle with descriptors made by \<open>f\<close> and integers taken over.\<close>

lemma fill_handle:
  assumes "length data = length fds + length ints" and "map_calls f fds s = (vs, s')"
  shows "bind_res (write_entries f fds 0 data s) (\<lambda>(data1, s1).
      bind_res (write_entries no_call ints (length fds) data1 s1) g) = g (vs @ ints, s')"
proof -
  have len: "length vs = length fds" using length_map_calls [of f fds s] assms(2) by simp
  have "write_entries f fds 0 data s = Inr (vs @ drop (length fds) data, s')"
    using assms by (simp add: write_entries_run)
  moreover have "write_entries no_call ints (length fds) (vs @ drop (length fds) data) s' =
      Inr (vs @ ints, s')"
    using assms(1) len by (simp add: write_entries_pure)
  ultimately show ?thesis by simp
qed

section \<open>Descriptors survive the exchange\<close>

text \<open>The fields fit the signed types of AIDL, and the handle is there.\<close>

definition sendable :: "Shim \<Rightarrow> bool" where
  "sendable d \<longleftrightarrow> \<not> negative32 (mQuantum d) \<and> \<not> negative32 (mFlags d) \<and>
     (\<forall>g\<in>set (mGrantors d). flags g = 0 \<and> \<not> negative32 (offset g) \<and> \<not> negative64 (extent g) \<and>
        \<not> negative32 (fdIndex g)) \<and>
     (case mHandle d of None \<Rightarrow> False | Some nh \<Rightarrow> handle_ok nh)"

lemma convert_sendable:
  "\<forall>g\<in>set gs. flags g = 0 \<and> \<not> negative32 (offset g) \<and> \<not> negative64 (extent g) \<and>
     \<not> negative32 (fdIndex g) \<Longrightarrow>
   convert_grantors (map aidl_of_grantor gs) = (gs, True)"
  by (induction gs) (auto simp: aidl_of_grantor_def)

lemma ucast_getQuantum [simp]: "(ucast (getQuantum d) :: u32) = mQuantum d"
proof -
  have "unat (mQuantum d) < 4294967296" using unsigned_less [of "mQuantum d"] by simp
  then have "unat (ucast (getQuantum d) :: u32) = unat (mQuantum d)"
    by (simp add: getQuantum_def unat_ucast_64_32)
  then show ?thesis by (rule unsigned_word_eqI)
qed

lemma dupeDesc_sendable:
  assumes "mHandle d = Some nh" and "handle_ok nh"
    and "map_calls (dup ho) (take (nat (numFds nh)) (handle_data nh)) s = (fds, s1)"
  shows "dupeDesc ho (Some d) s = Inr (\<lparr>aidl_grantors = map aidl_of_grantor (mGrantors d),
    aidl_fds = fds, aidl_ints = drop (nat (numFds nh)) (handle_data nh),
    aidl_quantum = mQuantum d, aidl_flags = mFlags d\<rparr>, s1)"
proof -
  have n: "nat (numFds nh + numInts nh) = nat (numFds nh) + nat (numInts nh)"
    and len: "length (handle_data nh) = nat (numFds nh) + nat (numInts nh)"
    using assms(2) by (simp_all add: handle_ok_def nat_add_distrib)
  then have "read_entries nh 0 (nat (numFds nh)) = Inr (take (nat (numFds nh)) (handle_data nh))"
    "read_entries nh (nat (numFds nh)) (nat (numFds nh + numInts nh)) =
      Inr (drop (nat (numFds nh)) (handle_data nh))"
    by (simp_all add: read_entries_def)
  with assms(1,3) show ?thesis by (simp add: dupeDesc_def getFlags_def Let_def)
qed

lemma exchange_round_trip:
  assumes "sendable d" and "creates_handles ho" and "mHandle d = Some nh" and "mName d = ''''"
    and "map_calls (dup ho) (take (nat (numFds nh)) (handle_data nh)) s = (sent, s1)"
  shows "\<exists>desc nh' received s3 t nh0. dupeDesc ho (Some d) s = Inr (desc, s1) \<and>
    shim_of_desc ho desc s1 = Inr (d\<lparr>mHandle := Some nh'\<rparr>, s3) \<and>
    native_handle_create ho (numFds nh) (numInts nh) s1 = (Some nh0, t) \<and>
    numFds nh' = numFds nh \<and> numInts nh' = numInts nh \<and>
    map_calls (dup ho) sent t = (received, s3) \<and>
    handle_data nh' = received @ drop (nat (numFds nh)) (handle_data nh)"
proof -
  have ok: "handle_ok nh" using assms(1,3) by (simp add: sendable_def)
  let ?ints = "drop (nat (numFds nh)) (handle_data nh)"
  let ?desc = "\<lparr>aidl_grantors = map aidl_of_grantor (mGrantors d), aidl_fds = sent,
    aidl_ints = ?ints, aidl_quantum = mQuantum d, aidl_flags = mFlags d\<rparr>"
  note sent = dupeDesc_sendable [OF assms(3) ok assms(5)]
  have len: "length sent = nat (numFds nh)" "length ?ints = nat (numInts nh)"
    using length_map_calls [of "dup ho" "take (nat (numFds nh)) (handle_data nh)" s] assms(5) ok
    by (simp_all add: handle_ok_def)
  have pos: "0 \<le> numFds nh" "0 \<le> numInts nh" using ok by (simp_all add: handle_ok_def)
  obtain nh0 t where c: "native_handle_create ho (numFds nh) (numInts nh) s1 = (Some nh0, t)"
    and nh0: "numFds nh0 = numFds nh" "numInts nh0 = numInts nh"
      "length (handle_data nh0) = nat (numFds nh) + nat (numInts nh)"
    using creates_handlesD [OF assms(2) pos] by blast
  obtain received s3 where r: "map_calls (dup ho) sent t = (received, s3)" by (rule prod.exhaust)
  have conv: "convert_grantors (map aidl_of_grantor (mGrantors d)) = (mGrantors d, True)"
    using assms(1) by (intro convert_sendable) (simp add: sendable_def)
  have signs: "\<not> negative32 (mQuantum d)" "\<not> negative32 (mFlags d)"
    using assms(1) by (simp_all add: sendable_def)
  have "length (handle_data nh0) = length sent + length ?ints" using nh0(3) len by simp
  note fill = fill_handle [OF this r, unfolded len(1)]
  have "shim_of_desc ho ?desc s1 =
      Inr (\<lparr>mGrantors = mGrantors d, mHandle = Some (nh0\<lparr>handle_data := received @ ?ints\<rparr>),
        mQuantum = mQuantum d, mFlags = mFlags d, mName = ''''\<rparr>, s3)"
    using c pos len by (simp add: shim_of_desc_def conv signs fill)
  also have "\<dots> = Inr (d\<lparr>mHandle := Some (nh0\<lparr>handle_data := received @ ?ints\<rparr>)\<rparr>, s3)"
    using assms(4) by simp
  finally have received: "shim_of_desc ho ?desc s1 =
      Inr (d\<lparr>mHandle := Some (nh0\<lparr>handle_data := received @ ?ints\<rparr>)\<rparr>, s3)" .
  show ?thesis
    by (rule exI [of _ ?desc], rule exI [of _ "nh0\<lparr>handle_data := received @ ?ints\<rparr>"],
        rule exI [of _ received], rule exI [of _ s3], rule exI [of _ t], rule exI [of _ nh0])
      (simp only: sent received r c, simp add: nh0)
qed

text \<open>
  C31: a descriptor survives the journey to another process. What \<open>dupeDesc\<close> sends, the
  receiver's constructor turns back into a descriptor with the same grantors, quantum and
  flags, and with a handle of the same shape: the integers are equal, and each file descriptor
  is a duplicate of the duplicate that was sent.
\<close>

theorem descriptor_round_trip:
  assumes "sendable d" and "creates_handles ho" and "mHandle d = Some nh" and "mName d = ''''"
    and "map_calls (dup ho) (take (nat (numFds nh)) (handle_data nh)) s = (sent, s1)"
  shows "\<exists>desc nh' received s3 t. dupeDesc ho (Some d) s = Inr (desc, s1) \<and>
    shim_of_desc ho desc s1 = Inr (d\<lparr>mHandle := Some nh'\<rparr>, s3) \<and>
    numFds nh' = numFds nh \<and> numInts nh' = numInts nh \<and>
    map_calls (dup ho) sent t = (received, s3) \<and>
    handle_data nh' = received @ drop (nat (numFds nh)) (handle_data nh)"
  using exchange_round_trip [OF assms] by blast

lemma convert_accepted:
  "convert_grantors gs = (out, True) \<Longrightarrow>
     (\<forall>g\<in>set gs. \<not> negative32 (aidl_offset g) \<and> \<not> negative64 (aidl_extent g) \<and>
        \<not> negative32 (aidl_fdIndex g)) \<and> map aidl_of_grantor out = gs"
  by (induction gs arbitrary: out)
    (auto simp: aidl_of_grantor_def split: if_splits prod.splits)

text \<open>
  C33: a receiver never works with a descriptor whose signed fields are negative. If the
  constructor from an AIDL descriptor produces a handle, then quantum, flags and all offsets,
  extents and file indices are non-negative, and the grantors are the ones that were sent.
\<close>

theorem received_fields_not_negative:
  assumes "shim_of_desc ho desc s = Inr (d, s')" and "isHandleValid d"
  shows "\<not> negative32 (aidl_quantum desc) \<and> \<not> negative32 (aidl_flags desc) \<and>
    (\<forall>g\<in>set (aidl_grantors desc). \<not> negative32 (aidl_offset g) \<and> \<not> negative64 (aidl_extent g) \<and>
      \<not> negative32 (aidl_fdIndex g)) \<and>
    map aidl_of_grantor (mGrantors d) = aidl_grantors desc \<and> mQuantum d = aidl_quantum desc"
proof -
  obtain gs ok where conv: "convert_grantors (aidl_grantors desc) = (gs, ok)" by (rule prod.exhaust)
  have signs: "\<not> (negative32 (aidl_quantum desc) \<or> negative32 (aidl_flags desc))" and "ok"
    using assms
    by (cases ok, auto simp: shim_of_desc_def isHandleValid_def conv Let_def split: if_splits)
  obtain h s1 where h: "native_handle_create ho (int (length (aidl_fds desc)))
      (int (length (aidl_ints desc))) s = (h, s1)"
    by (rule prod.exhaust)
  have "mGrantors d = gs" "mQuantum d = aidl_quantum desc"
    using assms signs \<open>ok\<close>
    by (auto simp: shim_of_desc_def conv h bind_res_eq_Inr Let_def split: option.splits)
  with convert_accepted conv \<open>ok\<close> signs show ?thesis by auto
qed

lemma append_accepted:
  "append_grantors acc gs = (out, True) \<Longrightarrow> out = acc @ map aidl_of_grantor gs \<and>
     (\<forall>g\<in>set gs. \<not> negative32 (offset g) \<and> \<not> negative64 (extent g))"
proof (induction gs arbitrary: acc)
  case (Cons g gs)
  then have "append_grantors (acc @ [aidl_of_grantor g]) gs = (out, True)"
    and "\<not> negative32 (offset g)" "\<not> negative64 (extent g)"
    by (simp_all split: if_splits)
  with Cons.IH [of "acc @ [aidl_of_grantor g]"] show ?case by simp
qed simp

text \<open>
  The conversion from HIDL is faithful when it succeeds: it hands over all grantors, the
  quantum and the flags, which are those of the queue's flavor, and the quantum and every offset
  and extent fit the signed fields.
\<close>

lemma hidl_conversion_faithful:
  assumes "unsafeHidlToAidlMQDescriptor ho flavor hidlDesc aidlDesc s = Inr (True, desc, s')"
  shows "aidl_grantors desc = map aidl_of_grantor (hidl_grantors hidlDesc) \<and>
    aidl_quantum desc = ucast (hidl_getQuantum hidlDesc) \<and>
    aidl_flags desc = MQFlavor_value flavor \<and> \<not> negative32 (aidl_quantum desc) \<and>
    (\<forall>g\<in>set (hidl_grantors hidlDesc). \<not> negative32 (offset g) \<and> \<not> negative64 (extent g))"
proof -
  obtain gs ok where a: "append_grantors [] (hidl_grantors hidlDesc) = (gs, ok)"
    by (rule prod.exhaust)
  have empty: "aidl_grantors aidlDesc = []" and "ok"
    using assms a by (cases ok, auto simp: unsafeHidlToAidlMQDescriptor_def Let_def split: if_splits)
  let ?nh = "hidl_handle hidlDesc"
  obtain raw where raw: "read_entries ?nh 0 (nat (numFds ?nh)) = Inr raw"
    using assms a empty \<open>ok\<close>
    by (auto simp: unsafeHidlToAidlMQDescriptor_def Let_def bind_res_eq_Inr)
  obtain fds s1 where m: "map_calls (dup ho) raw s = (fds, s1)" by (rule prod.exhaust)
  have "aidl_grantors desc = gs" "aidl_quantum desc = ucast (hidl_getQuantum hidlDesc)"
    "aidl_flags desc = MQFlavor_value flavor" "\<not> negative32 (aidl_quantum desc)"
    using assms a empty \<open>ok\<close> raw m
    by (auto simp: unsafeHidlToAidlMQDescriptor_def Let_def bind_res_eq_Inr split: if_splits)
  with append_accepted a \<open>ok\<close> show ?thesis by fastforce
qed

lemma widened_index_not_negative: "\<not> negative64 (ucast (x :: u32))"
proof -
  have "unat x < 4294967296" using unsigned_less [of x] by simp
  then have "sint (ucast x :: u64) = int (unat x)" by (subst sint64_small) simp_all
  then show ?thesis by (simp add: negative64_def)
qed

text \<open>
  The conversion's test of \<open>fdIndex\<close> tests nothing: the unsigned 32-bit index is widened to
  64 bits first, so it is never negative there, while the receiver narrows it to a signed 32-bit
  field. A grantor with an index of \<open>2 ^ 31\<close> is handed over and then refused by the receiver.
\<close>

lemma hidl_fdIndex_test_is_void:
  "append_grantors [] [\<lparr>flags = 0, fdIndex = 0x80000000, offset = 0, extent = 8\<rparr>] =
     ([\<lparr>aidl_fdIndex = 0x80000000, aidl_offset = 0, aidl_extent = 8\<rparr>], True) \<and>
   snd (convert_grantors [\<lparr>aidl_fdIndex = 0x80000000, aidl_offset = 0, aidl_extent = 8\<rparr>]) = False"
  using widened_index_not_negative [of "0x80000000"]
  by (simp add: aidl_of_grantor_def negative32_def negative64_def)

section \<open>Copies\<close>

lemma read_entries_ok:
  "handle_ok nh \<Longrightarrow>
     read_entries nh 0 (nat (numFds nh)) = Inr (take (nat (numFds nh)) (handle_data nh))"
  "handle_ok nh \<Longrightarrow>
     read_entries nh (nat (numFds nh)) (nat (numFds nh) + nat (numInts nh)) =
     Inr (drop (nat (numFds nh)) (handle_data nh))"
  by (auto simp: handle_ok_def read_entries_def)

lemma shim_copy_made:
  assumes "mHandle d = Some nh" and "handle_ok nh" and "creates_handles ho"
    and "pf = MSVC \<longrightarrow> numInts nh = 0"
  shows "\<exists>d' nh' t fds s' nh0. Shim_copy pf ho flavor d s = Inr (d', s') \<and>
    mGrantors d' = mGrantors d \<and> getSize d' = getSize d \<and> getQuantum d' = getQuantum d \<and>
    getFlags d' = getFlags d \<and> mHandle d' = Some nh' \<and> handle_ok nh' \<and>
    native_handle_create ho (numFds nh) (numInts nh) s = (Some nh0, t) \<and>
    map_calls (case pf of MSVC \<Rightarrow> no_call | POSIX \<Rightarrow> dup ho) (take (nat (numFds nh)) (handle_data nh)) t =
      (fds, s') \<and>
    handle_data nh' = fds @ drop (nat (numFds nh)) (handle_data nh)"
proof -
  let ?f = "case pf of MSVC \<Rightarrow> no_call | POSIX \<Rightarrow> dup ho"
  let ?raw = "take (nat (numFds nh)) (handle_data nh)"
  let ?ints = "drop (nat (numFds nh)) (handle_data nh)"
  have pos: "0 \<le> numFds nh" "0 \<le> numInts nh" using assms(2) by (simp_all add: handle_ok_def)
  obtain nh0 t where c: "native_handle_create ho (numFds nh) (numInts nh) s = (Some nh0, t)"
    and nh0: "numFds nh0 = numFds nh" "numInts nh0 = numInts nh"
      "length (handle_data nh0) = nat (numFds nh) + nat (numInts nh)"
    using creates_handlesD [OF assms(3) pos] by blast
  obtain fds s' where m: "map_calls ?f ?raw t = (fds, s')" by (rule prod.exhaust)
  have len: "length ?raw = nat (numFds nh)" "length ?ints = nat (numInts nh)"
    using assms(2) by (simp_all add: handle_ok_def)
  then have "length (handle_data nh0) = length ?raw + length ?ints" using nh0(3) by simp
  note fill = fill_handle [OF this m, unfolded len(1)]
  have ints: "copied_entries pf (nat (numInts nh)) = nat (numInts nh)"
    "copied_ints pf (nat (numInts nh)) ?ints dst = ?ints" for dst
    using assms(4) by (auto simp: copied_entries_def copied_ints_def split: platform.splits)
  obtain base where base: "shim_of_size flavor 0 None 0 False = Inr base" "mHandle base = None"
    by (simp add: shim_of_size_ok)
  define d' where "d' = base\<lparr>mGrantors := mGrantors d, mHandle := None, mQuantum := mQuantum d,
    mFlags := mFlags d, mName := (case pf of MSVC \<Rightarrow> mName d | POSIX \<Rightarrow> mName base),
    mHandle := Some (nh0\<lparr>handle_data := fds @ ?ints\<rparr>)\<rparr>"
  have "Shim_copy pf ho flavor d s = Inr (d', s')"
    unfolding Shim_copy_def base(1) bind_res_simps Shim_assign_def
    using ints
    by (simp add: base(2) assms(1) c Let_def read_entries_ok [OF assms(2)] fill d'_def)
  moreover have "length fds = nat (numFds nh)"
    using length_map_calls [of ?f ?raw t] m len(1) by simp
  then have "handle_ok (nh0\<lparr>handle_data := fds @ ?ints\<rparr>)"
    using pos nh0 len(2) by (simp add: handle_ok_def)
  ultimately show ?thesis
    using m c
    by (intro exI [of _ d'] exI [of _ "nh0\<lparr>handle_data := fds @ ?ints\<rparr>"] exI [of _ t]
        exI [of _ fds] exI [of _ s'] exI [of _ nh0])
      (simp add: d'_def getSize_def getQuantum_def getFlags_def)
qed

text \<open>
  A copy of a descriptor describes the same queue: grantors, quantum and flags are equal, so
  its sizes are, and its handle has the same integers and, one by one, duplicates of the file
  descriptors (on Windows, the same handles, and there only if the handle has no integers, as
  all those have that the queue makes).
\<close>

lemma shim_copy_faithful:
  assumes "mHandle d = Some nh" and "handle_ok nh" and "creates_handles ho"
    and "pf = MSVC \<longrightarrow> numInts nh = 0"
  shows "\<exists>d' nh' t fds s'. Shim_copy pf ho flavor d s = Inr (d', s') \<and>
    mGrantors d' = mGrantors d \<and> getSize d' = getSize d \<and> getQuantum d' = getQuantum d \<and>
    getFlags d' = getFlags d \<and> mHandle d' = Some nh' \<and> handle_ok nh' \<and>
    map_calls (case pf of MSVC \<Rightarrow> no_call | POSIX \<Rightarrow> dup ho) (take (nat (numFds nh)) (handle_data nh)) t =
      (fds, s') \<and>
    handle_data nh' = fds @ drop (nat (numFds nh)) (handle_data nh)"
  using shim_copy_made [OF assms, of flavor s] by blast

end
