(* ===== verification/Queue_Setup.thy ===== *)
theory Queue_Setup
  imports Queue_Channel System_Porting Descriptor_Exchange
begin

text \<open>
  How a queue comes into being and goes: the mapping of the grantors, \<open>initMemory\<close>, the two
  constructors and the destructor of \<open>include/fmq/MessageQueueBase.h\<close>. The libraries that the
  code calls here (native handles, ashmem, the allocator, shared memory by name) are a
  parameter, the record \<open>libs\<close>, beside the kernels of the event flag and of the mappings.
\<close>

section \<open>Mapping grantors\<close>

definition PAGE_SIZE :: u32 where "PAGE_SIZE = 0x00010000"

text \<open>
  \<open>int mapOffset\<close> and \<open>int mapLength\<close>: the offset is computed in 32 bits; the length in 64 bits
  from the \<open>extent\<close> and then cut to an \<open>int\<close>, which the call widens again with its sign.
\<close>

definition mapOffset :: "GrantorDescriptor \<Rightarrow> u32" where
  "mapOffset g = offset g div PAGE_SIZE * PAGE_SIZE"

definition mapLength :: "GrantorDescriptor \<Rightarrow> u32" where
  "mapLength g = ucast (ucast (offset g - mapOffset g) + extent g)"

definition mapGrantorDescr ::
  "'w win \<Rightarrow> Shim \<Rightarrow> u32 \<Rightarrow> 'w st \<Rightarrow> (ptr \<times> 'w st) res" where
  "mapGrantorDescr os d grantorIdx s =
     (case mHandle d of
        None \<Rightarrow> Inr (nullptr, s)
      | Some handle \<Rightarrow>
          if length (mGrantors d) \<le> unat grantorIdx then Inr (nullptr, s)
          else
            let g = mGrantors d ! unat grantorIdx in
            if length (handle_data handle) \<le> unat (fdIndex g) then Inl Undefined
            else
              (case system_porting_mmap os 0 (scast (mapLength g)) (PROT_READ OR PROT_WRITE)
                      MAP_SHARED (of_int (handle_data handle ! unat (fdIndex g))) (mapOffset g) s of
                 (addr, s') \<Rightarrow>
                   if addr = MAP_FAILED then Inr (nullptr, s')
                   else Inr (addr + ucast (offset g - mapOffset g), s')))"

definition unmapGrantorDescr ::
  "'w win \<Rightarrow> Shim \<Rightarrow> ptr \<Rightarrow> u32 \<Rightarrow> 'w st \<Rightarrow> 'w st" where
  "unmapGrantorDescr os d addr grantorIdx s =
     (if addr = nullptr \<or> length (mGrantors d) \<le> unat grantorIdx then s
      else
        let g = mGrantors d ! unat grantorIdx;
            baseAddress = addr - ucast (offset g - mapOffset g)
        in if baseAddress \<noteq> nullptr
           then snd (system_porting_munmap os baseAddress (scast (mapLength g)) s) else s)"

section \<open>The libraries\<close>

text \<open>
  \<open>new_counter\<close> is \<open>new (std::nothrow) std::atomic<uint64_t>\<close>; \<open>new_object\<close> says whether
  another \<open>new (std::nothrow)\<close> returned an object. The calls on native handles are those of
  the descriptors.
\<close>

record 'w libs = "'w handle_os" +
  new_counter :: "'w st \<Rightarrow> ptr \<times> 'w st"
  delete_counter :: "ptr \<Rightarrow> 'w st \<Rightarrow> 'w st"
  new_object :: "'w st \<Rightarrow> bool \<times> 'w st"
  ashmem_create_region :: "string \<Rightarrow> size_t \<Rightarrow> 'w st \<Rightarrow> int \<times> 'w st"
  ashmem_set_prot_region :: "int \<Rightarrow> u32 \<Rightarrow> 'w st \<Rightarrow> 'w st"
  OpenFileMapping :: "u32 \<Rightarrow> string option \<Rightarrow> 'w st \<Rightarrow> int \<times> 'w st"

section \<open>initMemory\<close>

definition checked :: "bool \<Rightarrow> 'a res \<Rightarrow> 'a res" where
  "checked b m = (if b then m else Inl CheckFailed)"

lemma checked_eq_Inr [simp]: "checked b m = Inr x \<longleftrightarrow> b \<and> m = Inr x"
  by (simp add: checked_def)

text \<open>The read counter: mapped for the synchronized flavor, private memory for the other.\<close>

definition init_readPtr ::
  "'w win \<Rightarrow> 'w libs \<Rightarrow> MQFlavor \<Rightarrow> Shim \<Rightarrow> 'w st \<Rightarrow> (ptr \<times> 'w st) res" where
  "init_readPtr os lib fl d s =
     bind_res (if fl = kSynchronizedReadWrite then mapGrantorDescr os d (of_nat READPTRPOS) s
               else Inr (new_counter lib s)) (\<lambda>(p, s').
     checked (p \<noteq> nullptr) (Inr (p, s')))"

definition init_counters :: "MQFlavor \<Rightarrow> bool \<Rightarrow> ptr \<Rightarrow> ptr \<Rightarrow> heap \<Rightarrow> heap res" where
  "init_counters fl resetPointers rd wr h =
     (if resetPointers then bind_res (store64 h rd 0) (\<lambda>h1. store64 h1 wr 0)
      else if fl \<noteq> kSynchronizedReadWrite then store64 h rd 0
      else Inr h)"

definition init_eventFlag ::
  "'w win \<Rightarrow> 'w libs \<Rightarrow> Shim \<Rightarrow> MessageQueue \<Rightarrow> 'w st \<Rightarrow> (MessageQueue \<times> 'w st) res" where
  "init_eventFlag os lib d q s =
     (if countGrantors d > EVFLAGWORDPOS then
        bind_res (mapGrantorDescr os d (of_nat EVFLAGWORDPOS) s) (\<lambda>(p, s1).
        checked (p \<noteq> nullptr)
          (case new_object lib s1 of (allocated, s2) \<Rightarrow>
             (case createEventFlag allocated p (Some (mEventFlag q)) of (status, flag) \<Rightarrow>
                Inr (q\<lparr>mEvFlagWord := p,
                       mEventFlag := (case flag of Some f \<Rightarrow> f | None \<Rightarrow> None)\<rparr>, s2))))
      else Inr (q, s))"

definition initMemory ::
  "'w win \<Rightarrow> 'w libs \<Rightarrow> bool \<Rightarrow> MessageQueue \<Rightarrow> 'w st \<Rightarrow> (MessageQueue \<times> 'w st) res" where
  "initMemory os lib resetPointers q s =
     (case mDesc q of
        None \<Rightarrow> Inr (q, s)
      | Some d \<Rightarrow>
          if \<not> isHandleValid d \<or> countGrantors d < kMinGrantorCount then Inr (q, s)
          else if getQuantum d \<noteq> sizeofT q then Inr (q, s)
          else
            checked (\<forall>g\<in>set (mGrantors d). isAlignedToWordBoundary (ucast (offset g)))
            (bind_res (init_readPtr os lib (flavor q) d s) (\<lambda>(rd, s1).
             bind_res (mapGrantorDescr os d (of_nat WRITEPTRPOS) s1) (\<lambda>(wr, s2).
             checked (wr \<noteq> nullptr)
             (bind_res (init_counters (flavor q) resetPointers rd wr (fst s2)) (\<lambda>h.
              bind_res (mapGrantorDescr os d (of_nat DATAPTRPOS) (h, snd s2)) (\<lambda>(ring, s3).
              checked (ring \<noteq> nullptr)
              (init_eventFlag os lib d
                 (q\<lparr>mReadPtr := rd, mWritePtr := wr, mRing := ring\<rparr>) s3))))))))"

section \<open>Constructors and destructor\<close>

text \<open>The members before a constructor body runs.\<close>

definition empty_queue :: "MQFlavor \<Rightarrow> size_t \<Rightarrow> MessageQueue" where
  "empty_queue fl tsize = \<lparr>flavor = fl, sizeofT = tsize, mDesc = None, mRing = nullptr,
     mReadPtr = nullptr, mWritePtr = nullptr, mEvFlagWord = nullptr, mEventFlag = None\<rparr>"

definition set_handle_data :: "nat \<Rightarrow> int \<Rightarrow> native_handle \<Rightarrow> native_handle res" where
  "set_handle_data i v nh =
     (if i < length (handle_data nh) then Inr (nh\<lparr>handle_data := (handle_data nh)[i := v]\<rparr>)
      else Inl Undefined)"

text \<open>
  The constructor from a descriptor. On Windows the first entry of the copied handle is
  replaced by a mapping opened by name; a null handle is dereferenced there.
\<close>

definition MessageQueue_of_desc ::
  "platform \<Rightarrow> 'w win \<Rightarrow> 'w libs \<Rightarrow> MQFlavor \<Rightarrow> size_t \<Rightarrow> Shim \<Rightarrow> bool \<Rightarrow> 'w st \<Rightarrow>
     (MessageQueue \<times> 'w st) res" where
  "MessageQueue_of_desc pf os lib fl tsize desc resetPointers s =
     (case new_object lib s of (allocated, s1) \<Rightarrow>
        if \<not> allocated then Inr (empty_queue fl tsize, s1)
        else
          bind_res (Shim_copy pf (handle_os.truncate lib) fl desc s1) (\<lambda>(d, s2).
             bind_res (case pf of POSIX \<Rightarrow> Inr (d, s2)
               | MSVC \<Rightarrow> (case system_porting_open_shmem (OpenFileMapping lib) (mName d) False s2 of
                    (win_handle, s3) \<Rightarrow>
                   (case mHandle d of None \<Rightarrow> Inl Undefined
                    | Some nh \<Rightarrow> bind_res (set_handle_data 0 win_handle nh) (\<lambda>nh'.
                        Inr (d\<lparr>mHandle := Some nh'\<rparr>, s3))))) (\<lambda>(d', s4).
             initMemory os lib resetPointers ((empty_queue fl tsize)\<lparr>mDesc := Some d'\<rparr>) s4)))"

text \<open>
  The loop over the grantors of a queue whose ring is the caller's buffer: \<open>pos\<close> is the
  position in the table, \<open>off\<close> the running offset in the first region.
\<close>

fun split_grantors :: "nat \<Rightarrow> size_t \<Rightarrow> size_t list \<Rightarrow> GrantorDescriptor list res" where
  "split_grantors pos off [] = Inr []"
| "split_grantors pos off (memSize # rest) =
     (let grantorFdIndex = (if pos = DATAPTRPOS then 1 else 0);
          grantorOffset = (if pos = DATAPTRPOS then 0 else off);
          off' = (if pos = DATAPTRPOS then off else off + memSize)
      in bind_res (alignToWordBoundary grantorOffset) (\<lambda>aligned.
         bind_res (split_grantors (Suc pos) off' rest) (\<lambda>gs.
         Inr (\<lparr>flags = 0, fdIndex = grantorFdIndex, offset = ucast aligned,
               extent = memSize\<rparr> # gs))))"

definition page_align :: "size_t \<Rightarrow> size_t" where
  "page_align n = (n + ucast PAGE_SIZE - 1) AND NOT (ucast PAGE_SIZE - 1)"

text \<open>The size of the ashmem region.\<close>

definition ashmem_size :: "bool \<Rightarrow> bool \<Rightarrow> size_t \<Rightarrow> size_t res" where
  "ashmem_size configureEventFlagWord ownBuffer kQueueSizeBytes =
     (let kMetaDataSize = 2 * sizeof_RingBufferPosition +
                          (if configureEventFlagWord then sizeof_EventFlagWord else 0)
      in if ownBuffer then Inr (page_align kMetaDataSize)
         else bind_res (alignToWordBoundary kQueueSizeBytes) (\<lambda>aligned.
                Inr (page_align (aligned + kMetaDataSize))))"


text \<open>
  The name of the shared memory: the code draws a random number for it, but the line that
  would append it is commented out.
\<close>

definition generate_random_name :: string where
  "generate_random_name = ''random_message_queue_name_''"

text \<open>
  The descriptor of a new queue, \<open>None\<close> if it could not be allocated; on Windows the name is
  set without looking whether it was.
\<close>

definition new_desc ::
  "platform \<Rightarrow> 'w libs \<Rightarrow> MQFlavor \<Rightarrow> size_t \<Rightarrow> bool \<Rightarrow> bool \<Rightarrow> size_t \<Rightarrow> string \<Rightarrow> native_handle \<Rightarrow>
     'w st \<Rightarrow> (Shim option \<times> 'w st) res" where
  "new_desc pf lib fl tsize configureEventFlagWord ownBuffer kQueueSizeBytes name mqHandle s =
     (if ownBuffer then
        let grantorCount = (if configureEventFlagWord then kMinGrantorCountForEvFlagSupport
                            else kMinGrantorCount);
            memSize = [sizeof_RingBufferPosition, sizeof_RingBufferPosition, kQueueSizeBytes,
                       sizeof_EventFlagWord]
        in bind_res (split_grantors 0 0 (take grantorCount memSize)) (\<lambda>grantors.
           case new_object lib s of (allocated, s1) \<Rightarrow>
             Inr (if allocated then Some (shim_of_grantors fl grantors (Some mqHandle) tsize)
                  else None, s1))
      else
        (case new_object lib s of (allocated, s1) \<Rightarrow>
           if allocated then
             bind_res (shim_of_size fl kQueueSizeBytes (Some mqHandle) tsize configureEventFlagWord)
               (\<lambda>d. Inr (Some (case pf of MSVC \<Rightarrow> setName name d | POSIX \<Rightarrow> d), s1))
           else (case pf of MSVC \<Rightarrow> Inl Undefined | POSIX \<Rightarrow> Inr (None, s1))))"

text \<open>\<open>bufferFd\<close> is \<open>- 1\<close> when the caller supplies no buffer.\<close>

definition MessageQueue_create ::
  "platform \<Rightarrow> 'w win \<Rightarrow> 'w libs \<Rightarrow> MQFlavor \<Rightarrow> size_t \<Rightarrow> size_t \<Rightarrow> bool \<Rightarrow> int \<Rightarrow> size_t \<Rightarrow> string \<Rightarrow>
     'w st \<Rightarrow> (MessageQueue \<times> 'w st) res" where
  "MessageQueue_create pf os lib fl tsize numElementsInQueue configureEventFlagWord bufferFd
       bufferSize name s =
     (let q0 = empty_queue fl tsize;
          kQueueSizeBytes = numElementsInQueue * tsize;
          ownBuffer = (bufferFd \<noteq> - 1)
      in if numElementsInQueue > - 1 div tsize then Inr (q0, s)
         else if ownBuffer \<and> kQueueSizeBytes > bufferSize then Inr (q0, s)
         else
           bind_res (ashmem_size configureEventFlagWord ownBuffer kQueueSizeBytes)
             (\<lambda>kAshmemSizePageAligned.
           case native_handle_create lib (if ownBuffer then 2 else 1) 0 s of
             (None, s1) \<Rightarrow> Inr (q0, s1)
           | (Some mqHandle, s1) \<Rightarrow>
               let name' = (if name = [] then generate_random_name else name);
                   (ashmemFd, s2) = ashmem_create_region lib
                     (case pf of MSVC \<Rightarrow> name' | POSIX \<Rightarrow> ''MessageQueue'')
                     kAshmemSizePageAligned s1;
                   s3 = ashmem_set_prot_region lib ashmemFd (PROT_READ OR PROT_WRITE) s2
               in bind_res (set_handle_data 0 ashmemFd mqHandle) (\<lambda>nh.
                  bind_res (if ownBuffer then
                              (case pf of MSVC \<Rightarrow> Inr nh | POSIX \<Rightarrow> set_handle_data 1 bufferFd nh)
                            else Inr nh) (\<lambda>nh'.
                  bind_res (new_desc pf lib fl tsize configureEventFlagWord ownBuffer
                              kQueueSizeBytes name' nh' s3) (\<lambda>(d, s4).
                  case d of
                    None \<Rightarrow> Inr (q0, native_handle_close_delete lib nh' s4)
                  | Some d \<Rightarrow> initMemory os lib True (q0\<lparr>mDesc := Some d\<rparr>) s4)))))"

text \<open>The constructor without a buffer of the caller; its name argument is empty.\<close>

definition MessageQueue_new ::
  "platform \<Rightarrow> 'w win \<Rightarrow> 'w libs \<Rightarrow> MQFlavor \<Rightarrow> size_t \<Rightarrow> size_t \<Rightarrow> bool \<Rightarrow> 'w st \<Rightarrow>
     (MessageQueue \<times> 'w st) res" where
  "MessageQueue_new pf os lib fl tsize numElementsInQueue configureEventFlagWord s =
     MessageQueue_create pf os lib fl tsize numElementsInQueue configureEventFlagWord (- 1) 0 '''' s"

text \<open>The destructor: its body, then that of the member that owns the descriptor.\<close>

definition unmap_member ::
  "'w win \<Rightarrow> MessageQueue \<Rightarrow> ptr \<Rightarrow> nat \<Rightarrow> 'w st \<Rightarrow> 'w st res" where
  "unmap_member os q p pos s =
     (if p = nullptr then Inr s
      else bind_res (deref_desc q) (\<lambda>d. Inr (unmapGrantorDescr os d p (of_nat pos) s)))"

definition MessageQueue_destroy ::
  "'w os \<Rightarrow> 'w win \<Rightarrow> 'w libs \<Rightarrow> MessageQueue \<Rightarrow> 'w st \<Rightarrow> 'w st res" where
  "MessageQueue_destroy sys os lib q s =
     bind_res (if flavor q = kUnsynchronizedWrite \<and> mReadPtr q \<noteq> nullptr
               then Inr (delete_counter lib (mReadPtr q) s)
               else unmap_member os q (mReadPtr q) READPTRPOS s) (\<lambda>s1.
     bind_res (unmap_member os q (mWritePtr q) WRITEPTRPOS s1) (\<lambda>s2.
     bind_res (unmap_member os q (mRing q) DATAPTRPOS s2) (\<lambda>s3.
     bind_res
       (if mEvFlagWord q = nullptr then Inr s3
        else bind_res (unmap_member os q (mEvFlagWord q) EVFLAGWORDPOS s3) (\<lambda>s4.
          case deleteEventFlag sys (Some (mEventFlag q)) s4 of (status, flag, s5) \<Rightarrow> Inr s5))
       (\<lambda>s6.
     Inr (case mDesc q of None \<Rightarrow> s6
          | Some d \<Rightarrow> Shim_destroy (handle_os.truncate lib) d s6)))))"

section \<open>Mapping and unmapping\<close>

text \<open>A successful \<open>mmap\<close> comes from a view at a non-null address.\<close>

lemma mmap_result:
  assumes "system_porting_mmap os 0 len (PROT_READ OR PROT_WRITE) MAP_SHARED hdl off s = (p, s')"
    and "p \<noteq> MAP_FAILED"
  obtains m s1 where
    "(if hdl = INVALID_HANDLE_VALUE
      then CreateFileMappingA os hdl PAGE_READWRITE (HighPart len) (LowPart len) s
      else DuplicateHandle os hdl s) = (m, s1)"
    and "MapViewOfFileEx os m FILE_MAP_WRITE (HighPart (scast off)) (LowPart (scast off)) len 0 s1 =
      (p, s')"
    and "p \<noteq> 0"
  using assms unfolding mmap_shared_rw by (auto split: if_splits prod.splits)

definition grantor_delta :: "GrantorDescriptor \<Rightarrow> nat" where
  "grantor_delta g = unat (offset g) mod 65536"

lemma mapOffset_split:
  "unat (mapOffset g) = unat (offset g) - grantor_delta g"
  "unat (offset g - mapOffset g) = grantor_delta g"
proof -
  have o: "unat (offset g) div 65536 * 65536 = unat (offset g) - unat (offset g) mod 65536"
    by (rule minus_mod_eq_div_mult [symmetric])
  have lt: "unat (offset g) < 4294967296" using unsigned_less [of "offset g"] by simp
  have "unat (mapOffset g) = unat (offset g) div 65536 * 65536"
    using lt o by (simp add: mapOffset_def PAGE_SIZE_def unat_word_ariths unat_div)
  with o show 1: "unat (mapOffset g) = unat (offset g) - grantor_delta g"
    by (simp add: grantor_delta_def)
  then have "mapOffset g \<le> offset g" by (simp add: word_le_nat_alt)
  then show "unat (offset g - mapOffset g) = grantor_delta g"
    using 1 by (simp add: unat_sub grantor_delta_def)
qed

lemma mapLength_exact:
  assumes "grantor_delta g + unat (extent g) < 2 ^ 31"
  shows "unat (scast (mapLength g) :: size_t) = grantor_delta g + unat (extent g)"
proof -
  have "unat (ucast (offset g - mapOffset g) + extent g) = grantor_delta g + unat (extent g)"
    using assms by (simp add: unat_add_u64 mapOffset_split)
  then have m: "unat (mapLength g) = grantor_delta g + unat (extent g)"
    using assms by (simp add: mapLength_def unat_ucast_64_32)
  then have "sint (mapLength g) = int (grantor_delta g + unat (extent g))"
    using assms by (subst sint_small) simp_all
  then have "(scast (mapLength g) :: size_t) = of_nat (grantor_delta g + unat (extent g))"
    by (simp add: scast_eq)
  moreover have "grantor_delta g + unat (extent g) < 18446744073709551616" using assms by simp
  ultimately show ?thesis by (metis unat_of_nat_u64)
qed

lemma mapGrantorDescr_result:
  assumes run: "mapGrantorDescr os d i s = Inr (p, s')" and p: "p \<noteq> nullptr"
  obtains g base hdl where "unat i < length (mGrantors d)" and "g = mGrantors d ! unat i"
    and "system_porting_mmap os 0 (scast (mapLength g)) (PROT_READ OR PROT_WRITE) MAP_SHARED hdl
      (mapOffset g) s = (base, s')"
    and "base \<noteq> MAP_FAILED" and "p = base + of_nat (grantor_delta g)"
proof -
  obtain handle where h: "mHandle d = Some handle"
    using run p by (auto simp: mapGrantorDescr_def split: option.splits)
  have i: "unat i < length (mGrantors d)"
    using run p by (auto simp: mapGrantorDescr_def h split: if_splits)
  define g where "g = mGrantors d ! unat i"
  have idx: "unat (fdIndex g) < length (handle_data handle)"
    using run p i by (auto simp: mapGrantorDescr_def h g_def Let_def split: if_splits)
  define hdl :: ptr where "hdl = of_int (handle_data handle ! unat (fdIndex g))"
  obtain base t where m: "system_porting_mmap os 0 (scast (mapLength g)) (PROT_READ OR PROT_WRITE)
      MAP_SHARED hdl (mapOffset g) s = (base, t)"
    by (rule prod.exhaust)
  have "ucast (offset g - mapOffset g) = (of_nat (grantor_delta g) :: ptr)"
    by (metis mapOffset_split(2) unat_ucast_32_64 word_of_nat_unat)
  then have "base \<noteq> MAP_FAILED" "t = s'" "p = base + of_nat (grantor_delta g)"
    using run p i idx m
    by (auto simp: mapGrantorDescr_def h g_def [symmetric] hdl_def [symmetric] Let_def
        split: if_splits)
  with that i m g_def show ?thesis by blast
qed

lemma map_then_unmap:
  assumes "mapGrantorDescr os d i s = Inr (p, s')" and "p \<noteq> nullptr"
  obtains hdl base where "system_porting_mmap os 0 (scast (mapLength (mGrantors d ! unat i)))
      (PROT_READ OR PROT_WRITE) MAP_SHARED hdl (mapOffset (mGrantors d ! unat i)) s = (base, s')"
    and "base \<noteq> MAP_FAILED"
    and "\<And>t. unmapGrantorDescr os d p i t =
      snd (system_porting_munmap os base (scast (mapLength (mGrantors d ! unat i))) t)"
proof -
  obtain g base hdl where i: "unat i < length (mGrantors d)" and g: "g = mGrantors d ! unat i"
    and m: "system_porting_mmap os 0 (scast (mapLength g)) (PROT_READ OR PROT_WRITE) MAP_SHARED hdl
      (mapOffset g) s = (base, s')"
    and ok: "base \<noteq> MAP_FAILED" and p: "p = base + of_nat (grantor_delta g)"
    by (rule mapGrantorDescr_result [OF assms])
  have "base \<noteq> 0" using mmap_result [OF m ok] by blast
  moreover have "ucast (offset g - mapOffset g) = (of_nat (grantor_delta g) :: ptr)"
    by (metis mapOffset_split(2) unat_ucast_32_64 word_of_nat_unat)
  ultimately have "unmapGrantorDescr os d p i t =
      snd (system_porting_munmap os base (scast (mapLength g)) t)" for t
    using i assms(2) p by (simp add: unmapGrantorDescr_def g [symmetric] Let_def)
  with m ok g that show ?thesis by blast
qed

text \<open>
  Unmapping undoes exactly what mapping did. The address that \<open>mapGrantorDescr\<close> returns
  for a grantor lies inside a page-aligned view; given that address, \<open>unmapGrantorDescr\<close>
  finds the start of the view again and releases it with the length it was mapped with.
\<close>

lemma unmap_mirrors_map:
  assumes "mapGrantorDescr os d i s = Inr (p, s')" and "p \<noteq> nullptr"
  shows "\<exists>hdl base. system_porting_mmap os 0 (scast (mapLength (mGrantors d ! unat i)))
      (PROT_READ OR PROT_WRITE) MAP_SHARED hdl (mapOffset (mGrantors d ! unat i)) s = (base, s') \<and>
    base \<noteq> MAP_FAILED \<and>
    (\<forall>t. unmapGrantorDescr os d p i t =
      snd (system_porting_munmap os base (scast (mapLength (mGrantors d ! unat i))) t))"
  by (rule map_then_unmap [OF assms]) blast

section \<open>The region is large enough\<close>

lemma page_align_bounds:
  assumes "unat n + 65535 < 2 ^ 64"
  shows "unat n \<le> unat (page_align n)" and "65536 dvd unat (page_align n)"
proof -
  have mask: "x AND NOT 65535 = x - x mod 65536" for x :: u64
  proof -
    have "x AND 65535 = x mod 65536"
      using take_bit_eq_mask [of 16 x] by (simp add: mask_eq_exp_minus_1 take_bit_eq_mod)
    then show ?thesis by (simp only: and_not_eq_diff)
  qed
  have plus: "unat (n + 65535) = unat n + 65535" using assms by (simp add: unat_add_u64)
  have "page_align n = (n + 65535) AND NOT 65535"
    by (simp add: page_align_def PAGE_SIZE_def add.commute [of 65535])
  then have align: "page_align n = (n + 65535) - (n + 65535) mod 65536" by (simp only: mask)
  have "(n + 65535) mod 65536 \<le> n + 65535" by (simp add: word_le_nat_alt unat_mod)
  then have eq: "unat (page_align n) = (unat n + 65535) - (unat n + 65535) mod 65536"
    unfolding align by (simp add: unat_sub unat_mod plus)
  then show "65536 dvd unat (page_align n)" by (simp add: dvd_minus_mod)
  have "(unat n + 65535) mod 65536 < 65536" by simp
  then show "unat n \<le> unat (page_align n)" unfolding eq by linarith
qed

lemma ashmem_size_covers:
  assumes small: "16 + unat bufferSize \<le> 2147483640" and run: "ashmem_size ev False bufferSize = Inr region"
  shows "round_up8 (unat bufferSize) + 16 + (if ev then 4 else 0) \<le> unat region"
    and "65536 dvd unat region"
proof -
  have r: "round_up8 (unat bufferSize) \<le> unat bufferSize + 7" by (rule round_up8_bounds)
  define m :: size_t where "m = of_nat (round_up8 (unat bufferSize)) + 16 + (if ev then 4 else 0)"
  have "m = of_nat (round_up8 (unat bufferSize) + 16 + (if ev then 4 else 0))" by (simp add: m_def)
  moreover have "round_up8 (unat bufferSize) + 16 + (if ev then 4 else 0) < 18446744073709551616"
    using r small by simp
  ultimately have m: "unat m = round_up8 (unat bufferSize) + 16 + (if ev then 4 else 0)"
    by (metis unat_of_nat_u64)
  have "region = page_align m"
    using run small
    by (cases ev) (simp_all add: ashmem_size_def alignToWordBoundary_Inr m_def
        sizeof_RingBufferPosition_def sizeof_EventFlagWord_def Let_def add.commute add.left_commute)
  moreover have "unat m + 65535 < 2 ^ 64" using m r small by simp
  ultimately show "round_up8 (unat bufferSize) + 16 + (if ev then 4 else 0) \<le> unat region"
    and "65536 dvd unat region"
    using page_align_bounds [of m] m by simp_all
qed

text \<open>
  C32: every view that a new queue maps lies inside the shared memory that was allocated for it.
  For each grantor of a descriptor of this size, the page-aligned offset and the length of the
  mapping, which is not cut by its \<open>int\<close> type, end within the ashmem region, and the region
  is a whole number of pages.
\<close>

theorem mappings_inside_region:
  assumes "shim_of_size fl bufferSize nh tsize ev = Inr d" and "ashmem_size ev False bufferSize = Inr region"
    and "g \<in> set (mGrantors d)"
  shows "unat (mapOffset g) + unat (scast (mapLength g) :: size_t) \<le> unat region \<and>
    unat (scast (mapLength g) :: size_t) = unat (offset g) - unat (mapOffset g) + unat (extent g) \<and>
    65536 dvd unat (mapOffset g) \<and> 65536 dvd unat region"
proof -
  have ne: "mGrantors d \<noteq> []" using assms(3) by auto
  have small: "16 + unat bufferSize \<le> 2147483640"
    using shim_of_size_made(1) [OF assms(1) ne] .
  have d: "mGrantors d = default_grantors bufferSize ev" using shim_of_size_made(3) [OF assms(1) ne] .
  note region = ashmem_size_covers [OF small assms(2)]
  have "finite (set (mGrantors d))" by simp
  then have "unat (offset g) + unat (extent g) \<le> grantors_end (mGrantors d)"
    unfolding grantors_end_def using assms(3)
    by (intro Max_ge) (auto simp: grantor_range_def image_iff)
  also have "\<dots> \<le> round_up8 (unat bufferSize) + 16 + (if ev then 4 else 0)"
    unfolding d by (rule default_grantors_layout [OF small])
  finally have e: "unat (offset g) + unat (extent g) \<le>
      round_up8 (unat bufferSize) + 16 + (if ev then 4 else 0)" .
  have delta: "grantor_delta g \<le> unat (offset g)" by (simp add: grantor_delta_def)
  have len: "unat (scast (mapLength g) :: size_t) = grantor_delta g + unat (extent g)"
  proof (rule mapLength_exact)
    show "grantor_delta g + unat (extent g) < 2 ^ 31"
      using assms(3) small unat_offset_default [OF small]
      by (auto simp: d default_grantors_def grantor_delta_def split: if_splits
          intro: le_less_trans)
  qed
  have "65536 dvd unat (mapOffset g)"
    unfolding mapOffset_split(1) grantor_delta_def by (rule dvd_minus_mod)
  with region e len delta show ?thesis by (simp add: mapOffset_split(1))
qed

section \<open>A new queue\<close>

text \<open>
  The contract of the kernel and the allocator: \<open>Occ\<close> is the set of addresses in use. A new
  view and a new counter take addresses that are not in use, nothing that is in use is taken
  away, and the counters already in memory keep their values.
\<close>

definition occupies_more :: "('w \<Rightarrow> ptr set) \<Rightarrow> 'w st \<Rightarrow> 'w st \<Rightarrow> bool" where
  "occupies_more Occ s s' \<longleftrightarrow> Occ (snd s) \<subseteq> Occ (snd s') \<and> words64 (fst s') = words64 (fst s)"

definition address_space :: "'w win \<Rightarrow> 'w libs \<Rightarrow> ('w \<Rightarrow> ptr set) \<Rightarrow> bool" where
  "address_space os lib Occ \<longleftrightarrow>
     (\<forall>m fl hi lo len addr s. let (p, s') = MapViewOfFileEx os m fl hi lo len addr s in
        occupies_more Occ s s' \<and>
        (p \<noteq> 0 \<longrightarrow> (\<forall>i<unat len. p + of_nat i \<notin> Occ (snd s) \<and> p + of_nat i \<in> Occ (snd s')))) \<and>
     (\<forall>h pr hi lo s. occupies_more Occ s (snd (CreateFileMappingA os h pr hi lo s))) \<and>
     (\<forall>h s. occupies_more Occ s (snd (DuplicateHandle os h s))) \<and>
     (\<forall>s. let (p, s') = new_counter lib s in occupies_more Occ s s' \<and>
        (p \<noteq> 0 \<longrightarrow> p \<notin> Occ (snd s) \<and> p \<in> Occ (snd s'))) \<and>
     (\<forall>s. occupies_more Occ s (snd (new_object lib s)))"

lemma occupies_more_trans:
  "occupies_more Occ s s1 \<Longrightarrow> occupies_more Occ s1 s2 \<Longrightarrow> occupies_more Occ s s2"
  by (auto simp: occupies_more_def)

lemma occupies_more_refl [simp]: "occupies_more Occ s s"
  by (simp add: occupies_more_def)

lemma address_spaceD:
  assumes "address_space os lib Occ"
  shows "MapViewOfFileEx os m fl hi lo len addr s = (p, s') \<Longrightarrow> occupies_more Occ s s'"
    and "MapViewOfFileEx os m fl hi lo len addr s = (p, s') \<Longrightarrow> p \<noteq> 0 \<Longrightarrow> i < unat len \<Longrightarrow>
      p + of_nat i \<notin> Occ (snd s) \<and> p + of_nat i \<in> Occ (snd s')"
    and "occupies_more Occ s (snd (CreateFileMappingA os h pr hi lo s))"
    and "occupies_more Occ s (snd (DuplicateHandle os h s))"
    and "new_counter lib s = (p, s') \<Longrightarrow> occupies_more Occ s s'"
    and "new_counter lib s = (p, s') \<Longrightarrow> p \<noteq> 0 \<Longrightarrow> p \<notin> Occ (snd s) \<and> p \<in> Occ (snd s')"
    and "occupies_more Occ s (snd (new_object lib s))"
proof -
  have view: "occupies_more Occ s s' \<and>
      (p \<noteq> 0 \<longrightarrow> (\<forall>i<unat len. p + of_nat i \<notin> Occ (snd s) \<and> p + of_nat i \<in> Occ (snd s')))"
    if "MapViewOfFileEx os m fl hi lo len addr s = (p, s')"
    using assms [unfolded address_space_def, THEN conjunct1, rule_format, of m fl hi lo len addr s] that
    by simp
  then show "MapViewOfFileEx os m fl hi lo len addr s = (p, s') \<Longrightarrow> occupies_more Occ s s'"
    and "MapViewOfFileEx os m fl hi lo len addr s = (p, s') \<Longrightarrow> p \<noteq> 0 \<Longrightarrow> i < unat len \<Longrightarrow>
      p + of_nat i \<notin> Occ (snd s) \<and> p + of_nat i \<in> Occ (snd s')"
    by blast+
  have counter: "occupies_more Occ s s' \<and> (p \<noteq> 0 \<longrightarrow> p \<notin> Occ (snd s) \<and> p \<in> Occ (snd s'))"
    if "new_counter lib s = (p, s')"
    using assms [unfolded address_space_def, THEN conjunct2, THEN conjunct2, THEN conjunct2,
        THEN conjunct1, rule_format, of s] that by simp
  then show "new_counter lib s = (p, s') \<Longrightarrow> occupies_more Occ s s'"
    and "new_counter lib s = (p, s') \<Longrightarrow> p \<noteq> 0 \<Longrightarrow> p \<notin> Occ (snd s) \<and> p \<in> Occ (snd s')"
    by blast+
  note laws = assms [unfolded address_space_def, THEN conjunct2]
  show "occupies_more Occ s (snd (CreateFileMappingA os h pr hi lo s))"
    by (rule laws [THEN conjunct1, rule_format])
  show "occupies_more Occ s (snd (DuplicateHandle os h s))"
    by (rule laws [THEN conjunct2, THEN conjunct1, rule_format])
  show "occupies_more Occ s (snd (new_object lib s))"
    by (rule laws [THEN conjunct2, THEN conjunct2, THEN conjunct2, rule_format])
qed

lemma mmap_occupies:
  assumes sp: "address_space os lib Occ"
    and run: "system_porting_mmap os 0 len (PROT_READ OR PROT_WRITE) MAP_SHARED hdl off s = (p, s')"
  shows "occupies_more Occ s s'"
    and "p \<noteq> MAP_FAILED \<Longrightarrow> i < unat len \<Longrightarrow> p + of_nat i \<notin> Occ (snd s) \<and> p + of_nat i \<in> Occ (snd s')"
proof -
  let ?c = "if hdl = INVALID_HANDLE_VALUE
    then CreateFileMappingA os hdl PAGE_READWRITE (HighPart len) (LowPart len) s
    else DuplicateHandle os hdl s"
  obtain m s1 where c: "?c = (m, s1)" by (rule prod.exhaust)
  have 1: "occupies_more Occ s s1"
    using c address_spaceD(3,4) [OF sp, of s] by (metis snd_conv)
  obtain a s2 where v: "MapViewOfFileEx os m FILE_MAP_WRITE (HighPart (scast off))
      (LowPart (scast off)) len 0 s1 = (a, s2)"
    by (rule prod.exhaust)
  note view = address_spaceD(1,2) [OF sp v]
  have "s' = s \<or> s' = s1 \<or> s' = s2"
    using run unfolding mmap_shared_rw c prod.case v by (auto split: if_splits)
  with 1 view(1) show "occupies_more Occ s s'" using occupies_more_trans occupies_more_refl by metis
  assume ok: "p \<noteq> MAP_FAILED" and i: "i < unat len"
  have "p = a" "s' = s2" "a \<noteq> 0"
    using run ok unfolding mmap_shared_rw c prod.case v by (auto split: if_splits)
  with view(2) [OF _ i] 1 show "p + of_nat i \<notin> Occ (snd s) \<and> p + of_nat i \<in> Occ (snd s')"
    by (auto simp: occupies_more_def)
qed

lemma mapGrantorDescr_occupies:
  assumes sp: "address_space os lib Occ" and run: "mapGrantorDescr os d i s = Inr (p, s')"
  shows "occupies_more Occ s s'"
proof (cases "p = nullptr")
  case False
  with run show ?thesis using mapGrantorDescr_result mmap_occupies(1) [OF sp] by metis
next
  case True
  show ?thesis
    using run mmap_occupies(1) [OF sp]
    by (auto simp: mapGrantorDescr_def Let_def split: option.splits if_splits prod.splits)
qed

lemma mapGrantorDescr_fresh:
  assumes sp: "address_space os lib Occ" and run: "mapGrantorDescr os d i s = Inr (p, s')"
    and p: "p \<noteq> nullptr"
    and fits: "grantor_delta (mGrantors d ! unat i) + unat (extent (mGrantors d ! unat i)) < 2 ^ 31"
    and ne: "extent (mGrantors d ! unat i) \<noteq> 0"
  shows "p \<notin> Occ (snd s)" and "p \<in> Occ (snd s')"
proof -
  obtain g base hdl where g: "g = mGrantors d ! unat i"
    and m: "system_porting_mmap os 0 (scast (mapLength g)) (PROT_READ OR PROT_WRITE) MAP_SHARED hdl
      (mapOffset g) s = (base, s')"
    and ok: "base \<noteq> MAP_FAILED" and pe: "p = base + of_nat (grantor_delta g)"
    by (rule mapGrantorDescr_result [OF run p])
  have "grantor_delta g < unat (scast (mapLength g) :: size_t)"
    using mapLength_exact [OF fits [folded g]] ne g by (simp add: unat_gt_0)
  from mmap_occupies(2) [OF sp m ok this] pe show "p \<notin> Occ (snd s)" and "p \<in> Occ (snd s')"
    by simp_all
qed

lemma init_eventFlag_result:
  assumes run: "init_eventFlag os lib d q s = Inr (q', s')"
  shows "q' = q \<and> s' = s \<or>
    (\<exists>p s1 f. mapGrantorDescr os d (of_nat EVFLAGWORDPOS) s = Inr (p, s1) \<and>
      q' = q\<lparr>mEvFlagWord := p, mEventFlag := f\<rparr> \<and> s' = snd (new_object lib s1))"
proof (cases "countGrantors d > EVFLAGWORDPOS")
  case False
  with run show ?thesis by (simp add: init_eventFlag_def)
next
  case True
  then obtain p s1 where m: "mapGrantorDescr os d (of_nat EVFLAGWORDPOS) s = Inr (p, s1)"
    using run by (auto simp: init_eventFlag_def bind_res_eq_Inr)
  obtain allocated s2 where n: "new_object lib s1 = (allocated, s2)" by (rule prod.exhaust)
  obtain status flag where c: "createEventFlag allocated p (Some (mEventFlag q)) = (status, flag)"
    by (rule prod.exhaust)
  have m': "mapGrantorDescr os d 3 s = Inr (p, s1)" using m by simp
  have "q' = q\<lparr>mEvFlagWord := p, mEventFlag := (case flag of Some f \<Rightarrow> f | None \<Rightarrow> None)\<rparr>" "s' = s2"
    using run True by (simp_all add: init_eventFlag_def m' n c)
  with m n show ?thesis by auto
qed

lemma initMemory_parts:
  assumes run: "initMemory os lib reset q s = Inr (q', s')" and d: "mDesc q = Some d"
    and fresh: "\<not> isValid q" and valid: "isValid q'"
  obtains rd s1 wr s2 h ring s3 where "init_readPtr os lib (flavor q) d s = Inr (rd, s1)"
    and "mapGrantorDescr os d (of_nat WRITEPTRPOS) s1 = Inr (wr, s2)"
    and "rd \<noteq> 0" and "wr \<noteq> 0" and "ring \<noteq> 0"
    and "init_counters (flavor q) reset rd wr (fst s2) = Inr h"
    and "mapGrantorDescr os d (of_nat DATAPTRPOS) (h, snd s2) = Inr (ring, s3)"
    and "init_eventFlag os lib d (q\<lparr>mReadPtr := rd, mWritePtr := wr, mRing := ring\<rparr>) s3 =
      Inr (q', s')"
    and "getQuantum d = sizeofT q"
proof -
  have "q' \<noteq> q" using fresh valid by auto
  then have guards: "isHandleValid d" "\<not> countGrantors d < kMinGrantorCount"
    "getQuantum d = sizeofT q"
    using run by (auto simp: initMemory_def d split: if_splits)
  obtain rd s1 where rd: "init_readPtr os lib (flavor q) d s = Inr (rd, s1)"
    and "\<exists>x. mapGrantorDescr os d (of_nat WRITEPTRPOS) s1 = Inr x"
    using run guards by (auto simp: initMemory_def d bind_res_eq_Inr split: prod.splits)
  then obtain wr s2 where wr: "mapGrantorDescr os d (of_nat WRITEPTRPOS) s1 = Inr (wr, s2)" by auto
  have rd0: "rd \<noteq> 0" using rd by (auto simp: init_readPtr_def bind_res_eq_Inr)
  have wr0: "wr \<noteq> 0"
    using run guards rd wr by (auto simp: initMemory_def d)
  have "\<exists>h. init_counters (flavor q) reset rd wr (fst s2) = Inr h"
    using rd0 wr0 by (simp add: init_counters_def)
  then obtain h where h: "init_counters (flavor q) reset rd wr (fst s2) = Inr h" by blast
  obtain ring s3 where ring: "mapGrantorDescr os d (of_nat DATAPTRPOS) (h, snd s2) = Inr (ring, s3)"
    and "init_eventFlag os lib d (q\<lparr>mReadPtr := rd, mWritePtr := wr, mRing := ring\<rparr>) s3 =
      Inr (q', s')" and "ring \<noteq> 0"
    using run guards rd wr h
    by (auto simp: initMemory_def d bind_res_eq_Inr split: prod.splits)
  with that rd wr rd0 wr0 h guards(3) show ?thesis by blast
qed

lemma initMemory_counters:
  assumes run: "initMemory os lib True q s = Inr (q', s')" and d: "mDesc q = Some d"
    and fresh: "\<not> isValid q" and valid: "isValid q'"
  obtains rd s1 wr s2 h s3 where "init_readPtr os lib (flavor q) d s = Inr (rd, s1)"
    and "mapGrantorDescr os d (of_nat WRITEPTRPOS) s1 = Inr (wr, s2)"
    and "rd \<noteq> 0" and "wr \<noteq> 0" and "h = (fst s2)\<lparr>words64 := (words64 (fst s2))(rd := 0, wr := 0)\<rparr>"
    and "mapGrantorDescr os d (of_nat DATAPTRPOS) (h, snd s2) = Inr (mRing q', s3)"
    and "mReadPtr q' = rd" "mWritePtr q' = wr" "mDesc q' = Some d" "flavor q' = flavor q"
    and "sizeofT q' = sizeofT q" "getQuantum d = sizeofT q"
    and "s' = s3 \<or> (\<exists>p s4. mapGrantorDescr os d (of_nat EVFLAGWORDPOS) s3 = Inr (p, s4) \<and>
      s' = snd (new_object lib s4))"
proof -
  obtain rd s1 wr s2 h ring s3 where rd: "init_readPtr os lib (flavor q) d s = Inr (rd, s1)"
    and wr: "mapGrantorDescr os d (of_nat WRITEPTRPOS) s1 = Inr (wr, s2)"
    and nz: "rd \<noteq> 0" "wr \<noteq> 0"
    and h: "init_counters (flavor q) True rd wr (fst s2) = Inr h"
    and ring: "mapGrantorDescr os d (of_nat DATAPTRPOS) (h, snd s2) = Inr (ring, s3)"
    and ev: "init_eventFlag os lib d (q\<lparr>mReadPtr := rd, mWritePtr := wr, mRing := ring\<rparr>) s3 =
      Inr (q', s')" and quantum: "getQuantum d = sizeofT q"
    by (rule initMemory_parts [OF run d fresh valid])
  have h': "h = (fst s2)\<lparr>words64 := (words64 (fst s2))(rd := 0, wr := 0)\<rparr>"
    using h nz by (simp add: init_counters_def)
  have "mRing q' = ring \<and> mReadPtr q' = rd \<and> mWritePtr q' = wr \<and> mDesc q' = Some d \<and>
      flavor q' = flavor q \<and> sizeofT q' = sizeofT q"
    using init_eventFlag_result [OF ev] d by (elim disjE exE conjE) simp_all
  moreover have "s' = s3 \<or> (\<exists>p s4. mapGrantorDescr os d (of_nat EVFLAGWORDPOS) s3 = Inr (p, s4) \<and>
      s' = snd (new_object lib s4))"
    using init_eventFlag_result [OF ev] by (elim disjE exE conjE) metis+
  ultimately show ?thesis using that rd wr nz h' ring quantum by metis
qed

lemma initMemory_ready:
  assumes run: "initMemory os lib True q s = Inr (q', s')" and d: "mDesc q = Some d"
    and fresh: "\<not> isValid q" and valid: "isValid q'" and sp: "address_space os lib Occ"
    and fits: "\<And>i. i < 2 \<Longrightarrow> grantor_delta (mGrantors d ! i) + unat (extent (mGrantors d ! i)) < 2 ^ 31 \<and>
      extent (mGrantors d ! i) \<noteq> 0"
    and whole: "getSize d \<noteq> 0" "sizeofT q \<noteq> 0" "unat (sizeofT q) dvd unat (getSize d)"
  shows "mq_inv q' (fst s')" and "contents q' (fst s') = []" and "ring_size q' = getSize d"
    and "flavor q' = flavor q" and "sizeofT q' = sizeofT q" and "mDesc q' = Some d"
proof -
  obtain rd s1 wr s2 h s3 where rd: "init_readPtr os lib (flavor q) d s = Inr (rd, s1)"
    and wr: "mapGrantorDescr os d (of_nat WRITEPTRPOS) s1 = Inr (wr, s2)"
    and nz: "rd \<noteq> 0" "wr \<noteq> 0"
    and h: "h = (fst s2)\<lparr>words64 := (words64 (fst s2))(rd := 0, wr := 0)\<rparr>"
    and ring: "mapGrantorDescr os d (of_nat DATAPTRPOS) (h, snd s2) = Inr (mRing q', s3)"
    and q': "mReadPtr q' = rd" "mWritePtr q' = wr" "mDesc q' = Some d" "flavor q' = flavor q"
      "sizeofT q' = sizeofT q" "getQuantum d = sizeofT q"
    and s': "s' = s3 \<or> (\<exists>p s4. mapGrantorDescr os d (of_nat EVFLAGWORDPOS) s3 = Inr (p, s4) \<and>
      s' = snd (new_object lib s4))"
    using initMemory_counters [OF run d fresh valid] by metis
  show "flavor q' = flavor q" "sizeofT q' = sizeofT q" "mDesc q' = Some d" by (fact q')+
  have "rd \<in> Occ (snd s1)"
  proof (cases "flavor q = kSynchronizedReadWrite")
    case True
    then have "mapGrantorDescr os d 0 s = Inr (rd, s1)"
      using rd by (auto simp: init_readPtr_def bind_res_eq_Inr)
    then show ?thesis using mapGrantorDescr_fresh(2) [OF sp _ nz(1)] fits [of 0] by fastforce
  next
    case False
    then have "new_counter lib s = (rd, s1)"
      using rd by (cases "new_counter lib s") (auto simp: init_readPtr_def)
    then show ?thesis using address_spaceD(6) [OF sp] nz(1) by blast
  qed
  moreover have "wr \<notin> Occ (snd s1)"
    using mapGrantorDescr_fresh(1) [OF sp wr nz(2)] fits [of 1] by simp
  ultimately have ne: "rd \<noteq> wr" by blast
  have "occupies_more Occ (h, snd s2) s3" using mapGrantorDescr_occupies [OF sp ring] .
  moreover have "s' = s3 \<or> occupies_more Occ s3 s'"
    using s' mapGrantorDescr_occupies [OF sp] address_spaceD(7) [OF sp] occupies_more_trans by metis
  ultimately have "words64 (fst s') = words64 h" by (auto simp: occupies_more_def)
  then have ctr: "readCtr q' (fst s') = 0" "writeCtr q' (fst s') = 0"
    using ne by (simp_all add: q'(1,2) h)
  then have u: "used q' (fst s') = 0" by (simp add: used_def)
  show size: "ring_size q' = getSize d" by (simp add: ring_size_def q'(3))
  have "queue_wf q'"
    using valid ne whole q' size by (simp add: queue_wf_def)
  then show "mq_inv q' (fst s')" by (simp add: mq_inv_def ctr u no_seam_def)
  show "contents q' (fst s') = []" by (simp add: contents_def u ring_bytes_def)
qed

lemma new_desc_result:
  assumes "new_desc pf lib fl tsize ev False B name nh s = Inr (Some d, s')"
  obtains d0 where "shim_of_size fl B (Some nh) tsize ev = Inr d0"
    and "d = (case pf of MSVC \<Rightarrow> d0\<lparr>mName := name\<rparr> | POSIX \<Rightarrow> d0)"
  using assms
  by (cases pf) (auto simp: new_desc_def bind_res_eq_Inr split: prod.splits if_splits)

text \<open>The test of the constructor excludes an overflow of the size of the ring.\<close>

lemma ring_size_exact:
  fixes n tsize :: size_t
  assumes le: "n \<le> - 1 div tsize"
  shows "unat (n * tsize) = unat n * unat tsize"
proof (rule unat_mult_no_wrap)
  have max: "unat (- 1 :: u64) = 18446744073709551615" by (simp add: unsigned_minus_1_eq_mask mask_eq_exp_minus_1)
  have "unat n \<le> unat (- 1 div tsize)" using le by (simp only: word_le_nat_alt)
  then have "unat n * unat tsize \<le> 18446744073709551615 div unat tsize * unat tsize"
    unfolding unat_div max by (rule mult_le_mono1)
  also have "\<dots> \<le> 18446744073709551615" by simp
  finally show "unat n * unat tsize < 18446744073709551616" by linarith
qed

lemma create_details:
  assumes run: "MessageQueue_create pf os lib fl tsize n ev (- 1) bufferSize name s = Inr (q, s')"
    and valid: "isValid q"
  obtains d0 nh0 s1 nh fd d name' t where "native_handle_create lib 1 0 s = (Some nh0, s1)"
    and "set_handle_data 0 fd nh0 = Inr nh"
    and "shim_of_size fl (n * tsize) (Some nh) tsize ev = Inr d0"
    and "d = (case pf of MSVC \<Rightarrow> d0\<lparr>mName := name'\<rparr> | POSIX \<Rightarrow> d0)" and "n \<le> - 1 div tsize"
    and "initMemory os lib True ((empty_queue fl tsize)\<lparr>mDesc := Some d\<rparr>) t = Inr (q, s')"
proof -
  let ?q0 = "empty_queue fl tsize"
  have ne: "q \<noteq> ?q0" using valid by (auto simp: isValid_def empty_queue_def)
  then have le: "\<not> n > - 1 div tsize" using run by (auto simp: MessageQueue_create_def)
  obtain region where sz: "ashmem_size ev False (n * tsize) = Inr region"
    using run le by (auto simp: MessageQueue_create_def bind_res_eq_Inr Let_def)
  obtain h s1 where h: "native_handle_create lib 1 0 s = (h, s1)" by (rule prod.exhaust)
  obtain nh0 where nh0: "h = Some nh0"
    using run le ne by (cases h) (auto simp: MessageQueue_create_def sz h)
  define name' where "name' = (if name = [] then generate_random_name else name)"
  obtain fd s2 where fd: "ashmem_create_region lib
      (case pf of MSVC \<Rightarrow> name' | POSIX \<Rightarrow> ''MessageQueue'') region s1 = (fd, s2)"
    by (rule prod.exhaust)
  define s3 where "s3 = ashmem_set_prot_region lib fd (PROT_READ OR PROT_WRITE) s2"
  have "bind_res (set_handle_data 0 fd nh0) (\<lambda>nh.
      bind_res (new_desc pf lib fl tsize ev False (n * tsize) name' nh s3) (\<lambda>(d, s4).
        case d of None \<Rightarrow> Inr (?q0, native_handle_close_delete lib nh s4)
        | Some d \<Rightarrow> initMemory os lib True (?q0\<lparr>mDesc := Some d\<rparr>) s4)) = Inr (q, s')"
    using run le
    by (simp add: MessageQueue_create_def sz h nh0 Let_def fd name'_def [symmetric]
        s3_def [symmetric])
  then obtain nh od s4 where sh: "set_handle_data 0 fd nh0 = Inr nh"
    and "new_desc pf lib fl tsize ev False (n * tsize) name' nh s3 = Inr (od, s4)"
    and "(case od of None \<Rightarrow> Inr (?q0, native_handle_close_delete lib nh s4)
        | Some d \<Rightarrow> initMemory os lib True (?q0\<lparr>mDesc := Some d\<rparr>) s4) = Inr (q, s')"
    by (auto simp: bind_res_eq_Inr)
  moreover from this ne obtain d where "od = Some d" by (cases od) auto
  ultimately have nd: "new_desc pf lib fl tsize ev False (n * tsize) name' nh s3 = Inr (Some d, s4)"
    and im: "initMemory os lib True (?q0\<lparr>mDesc := Some d\<rparr>) s4 = Inr (q, s')"
    by simp_all
  obtain d0 where "shim_of_size fl (n * tsize) (Some nh) tsize ev = Inr d0"
    and "d = (case pf of MSVC \<Rightarrow> d0\<lparr>mName := name'\<rparr> | POSIX \<Rightarrow> d0)"
    by (rule new_desc_result [OF nd])
  moreover have "native_handle_create lib 1 0 s = (Some nh0, s1)" using h nh0 by simp
  moreover have "n \<le> - 1 div tsize" using le by simp
  ultimately show ?thesis using that sh im by blast
qed

lemma create_reaches_initMemory:
  assumes run: "MessageQueue_create pf os lib fl tsize n ev (- 1) bufferSize name s = Inr (q, s')"
    and valid: "isValid q"
  obtains d0 d nh t where "shim_of_size fl (n * tsize) (Some nh) tsize ev = Inr d0"
    and "mGrantors d = mGrantors d0" and "mQuantum d = mQuantum d0" and "n \<le> - 1 div tsize"
    and "initMemory os lib True ((empty_queue fl tsize)\<lparr>mDesc := Some d\<rparr>) t = Inr (q, s')"
proof (rule create_details [OF assms])
  fix d0 d :: Shim and nh name' t
  assume "d = (case pf of MSVC \<Rightarrow> d0\<lparr>mName := name'\<rparr> | POSIX \<Rightarrow> d0)"
  then have "mGrantors d = mGrantors d0" "mQuantum d = mQuantum d0" by (cases pf; simp)+
  moreover assume "shim_of_size fl (n * tsize) (Some nh) tsize ev = Inr d0"
    and "initMemory os lib True ((empty_queue fl tsize)\<lparr>mDesc := Some d\<rparr>) t = Inr (q, s')"
    and "n \<le> - 1 div tsize"
  ultimately show thesis using that by blast
qed


end
