(* ===== verification/Descriptor_Text.thy ===== *)
theory Descriptor_Text
  imports Descriptor_Exchange
begin

text \<open>
  The text form of a descriptor, which replaces the exchange of file descriptors on Windows:
  \<open>generate_string\<close> and \<open>from_string\<close> of \<open>system_porting.cpp\<close>, and the Windows branches of
  \<open>AidlMQDescriptorShim\<close> and of \<open>dupeDesc\<close>. The JSON library is a parameter, the record
  \<open>json\<close>, whose operations are those of \<open>Json::Value\<close> that the code calls; \<open>None\<close> stands for
  an exception.
\<close>

section \<open>The JSON library\<close>

record 'j json =
  null_value :: 'j
  uint_value :: "u64 \<Rightarrow> 'j"
  string_value :: "string \<Rightarrow> 'j"
  clear :: "'j \<Rightarrow> 'j"
  set_member :: "'j \<Rightarrow> string \<Rightarrow> 'j \<Rightarrow> 'j"
  set_element :: "'j \<Rightarrow> nat \<Rightarrow> 'j \<Rightarrow> 'j"
  member :: "'j \<Rightarrow> string \<Rightarrow> 'j option"
  element :: "'j \<Rightarrow> nat \<Rightarrow> 'j option"
  isArray :: "'j \<Rightarrow> bool"
  isNull :: "'j \<Rightarrow> bool"
  json_size :: "'j \<Rightarrow> u32"
  asUInt :: "'j \<Rightarrow> u32 option"
  asUInt64 :: "'j \<Rightarrow> u64 option"
  asString :: "'j \<Rightarrow> string option"
  writeString :: "'j \<Rightarrow> string option"
  parse :: "string \<Rightarrow> 'j option"

definition flags_element_key :: string where "flags_element_key = ''GrantorDescriptor_flags_key''"
definition fdIndex_element_key :: string where "fdIndex_element_key = ''GrantorDescriptor_fdIndex_key''"
definition offset_element_key :: string where "offset_element_key = ''GrantorDescriptor_offset_key''"
definition extent_element_key :: string where "extent_element_key = ''GrantorDescriptor_extent_key''"
definition GrantorDescriptor_size_key :: string where
  "GrantorDescriptor_size_key = ''GrantorDescriptor_size_key''"
definition GrantorDescriptor_key :: string where "GrantorDescriptor_key = ''GrantorDescriptor_key''"
definition quantum_key :: string where "quantum_key = ''quantum_key''"
definition flags_key :: string where "flags_key = ''flags_key''"
definition name_key :: string where "name_key = ''name_key''"
definition numFds_key :: string where "numFds_key = ''numFds_key''"
definition numInts_key :: string where "numInts_key = ''numInts_key''"

lemmas key_defs = flags_element_key_def fdIndex_element_key_def offset_element_key_def
  extent_element_key_def GrantorDescriptor_size_key_def GrantorDescriptor_key_def quantum_key_def
  flags_key_def name_key_def numFds_key_def numInts_key_def

section \<open>Writing\<close>

text \<open>The loop over the grantors reuses one \<open>value\<close>, which it clears first.\<close>

definition put_grantor :: "'j json \<Rightarrow> 'j \<Rightarrow> GrantorDescriptor \<Rightarrow> 'j" where
  "put_grantor J value g =
     (let v1 = set_member J (clear J value) flags_element_key (uint_value J (ucast (flags g)));
          v2 = set_member J v1 fdIndex_element_key (uint_value J (ucast (fdIndex g)));
          v3 = set_member J v2 offset_element_key (uint_value J (ucast (offset g)))
      in set_member J v3 extent_element_key (uint_value J (extent g)))"

fun put_grantors :: "'j json \<Rightarrow> nat \<Rightarrow> 'j \<Rightarrow> 'j \<Rightarrow> GrantorDescriptor list \<Rightarrow> 'j \<times> 'j" where
  "put_grantors J i value array_value [] = (value, array_value)"
| "put_grantors J i value array_value (g # gs) =
     (let value' = put_grantor J value g
      in put_grantors J (Suc i) value' (set_element J array_value i value') gs)"

definition descriptor_value ::
  "'j json \<Rightarrow> GrantorDescriptor list \<Rightarrow> native_handle option \<Rightarrow> u32 \<Rightarrow> u32 \<Rightarrow> string \<Rightarrow> 'j" where
  "descriptor_value J a_grantors a_handles a_quantum a_flags a_name =
     (case put_grantors J 0 (null_value J) (null_value J) a_grantors of (value, array_value) \<Rightarrow>
        let count = (\<lambda>c. uint_value J (ucast (of_int c :: u32)));
            v1 = set_member J (clear J value) GrantorDescriptor_size_key
                   (uint_value J (of_nat (length a_grantors)));
            v2 = set_member J v1 GrantorDescriptor_key array_value;
            v3 = set_member J v2 quantum_key (uint_value J (ucast a_quantum));
            v4 = set_member J v3 flags_key (uint_value J (ucast a_flags));
            v5 = set_member J v4 numFds_key
                   (count (case a_handles of Some nh \<Rightarrow> numFds nh | None \<Rightarrow> 0));
            v6 = set_member J v5 numInts_key
                   (count (case a_handles of Some nh \<Rightarrow> numInts nh | None \<Rightarrow> 0))
        in set_member J v6 name_key (string_value J a_name))"

definition generate_string ::
  "'j json \<Rightarrow> GrantorDescriptor list \<Rightarrow> native_handle option \<Rightarrow> u32 \<Rightarrow> u32 \<Rightarrow> string \<Rightarrow> string" where
  "generate_string J a_grantors a_handles a_quantum a_flags a_name =
     (case writeString J (descriptor_value J a_grantors a_handles a_quantum a_flags a_name) of
        None \<Rightarrow> '''' | Some json_str \<Rightarrow> json_str)"

section \<open>Reading\<close>

text \<open>
  The variables that the \<open>try\<close> block of \<open>from_string\<close> assigns to. The block is a sequence of
  assignments, and an exception leaves those before it in force.
\<close>

record text_out =
  out_grantors :: "GrantorDescriptor list"
  out_quantum :: u32
  out_flags :: u32
  out_name :: string
  out_numFds :: u32
  out_numInts :: u32

fun attempt_all :: "('s \<Rightarrow> 's option) list \<Rightarrow> 's \<Rightarrow> 's" where
  "attempt_all [] s = s"
| "attempt_all (f # fs) s = (case f s of None \<Rightarrow> s | Some s' \<Rightarrow> attempt_all fs s')"

definition scalar_step ::
  "'j json \<Rightarrow> 'j \<Rightarrow> string \<Rightarrow> ('j \<Rightarrow> 'a option) \<Rightarrow> ('a \<Rightarrow> text_out \<Rightarrow> text_out) \<Rightarrow>
     text_out \<Rightarrow> text_out option" where
  "scalar_step J value key as assign out =
     (case Option.bind (member J value key) as of None \<Rightarrow> None | Some x \<Rightarrow> Some (assign x out))"

definition element_step ::
  "'j json \<Rightarrow> 'j \<Rightarrow> nat \<Rightarrow> string \<Rightarrow> ('j \<Rightarrow> 'a option) \<Rightarrow>
     ('a \<Rightarrow> GrantorDescriptor \<Rightarrow> GrantorDescriptor) \<Rightarrow> text_out \<Rightarrow> text_out option" where
  "element_step J value i key as assign out =
     (case element J value i of
        None \<Rightarrow> None
      | Some array_element \<Rightarrow> scalar_step J array_element key as
          (\<lambda>x out. out\<lparr>out_grantors := (out_grantors out)[i := assign x (out_grantors out ! i)]\<rparr>) out)"

definition grantor_steps :: "'j json \<Rightarrow> 'j \<Rightarrow> nat \<Rightarrow> (text_out \<Rightarrow> text_out option) list" where
  "grantor_steps J value i =
     [element_step J value i extent_element_key (asUInt64 J) (\<lambda>x g. g\<lparr>extent := x\<rparr>),
      element_step J value i fdIndex_element_key (asUInt J) (\<lambda>x g. g\<lparr>fdIndex := x\<rparr>),
      element_step J value i offset_element_key (asUInt J) (\<lambda>x g. g\<lparr>offset := x\<rparr>),
      element_step J value i flags_element_key (asUInt J) (\<lambda>x g. g\<lparr>flags := x\<rparr>)]"

definition tail_steps :: "'j json \<Rightarrow> 'j \<Rightarrow> (text_out \<Rightarrow> text_out option) list" where
  "tail_steps J raw_value =
     [scalar_step J raw_value quantum_key (asUInt J) (\<lambda>x out. out\<lparr>out_quantum := x\<rparr>),
      scalar_step J raw_value flags_key (asUInt J) (\<lambda>x out. out\<lparr>out_flags := x\<rparr>),
      scalar_step J raw_value numFds_key (asUInt J) (\<lambda>x out. out\<lparr>out_numFds := x\<rparr>),
      scalar_step J raw_value numInts_key (asUInt J) (\<lambda>x out. out\<lparr>out_numInts := x\<rparr>),
      scalar_step J raw_value name_key Some (\<lambda>x out. out\<lparr>out_name := ''''\<rparr>),
      scalar_step J raw_value name_key
        (\<lambda>v. if isNull J v then Some '''' else asString J v) (\<lambda>x out. out\<lparr>out_name := x\<rparr>)]"

text \<open>
  The \<open>try\<close> block: whether it is left by its end or by an exception, and not by one of its two
  early returns, and the variables afterwards. Reading a member of what is no object throws.
\<close>

definition from_text :: "'j json \<Rightarrow> string \<Rightarrow> text_out \<Rightarrow> bool \<times> text_out" where
  "from_text J a_string out =
     (case parse J a_string of
        None \<Rightarrow> (False, out)
      | Some raw_value \<Rightarrow>
          (case member J raw_value GrantorDescriptor_key of
             None \<Rightarrow> (True, out)
           | Some value \<Rightarrow>
               if \<not> isArray J value \<and> \<not> isNull J value then (False, out)
               else
                 let n = unat (json_size J value)
                 in (True, attempt_all
                      (concat (map (grantor_steps J value) [0..<n]) @ tail_steps J raw_value)
                      (out\<lparr>out_grantors := replicate n GrantorDescriptor_zero\<rparr>))))"

text \<open>
  The overload for a \<open>std::vector\<close> and a plain handle: it starts with no grantors and a null
  handle and stores what it gets in the caller's variables.
\<close>

definition from_string ::
  "'j json \<Rightarrow> 'w handle_os \<Rightarrow> string \<Rightarrow> u32 \<Rightarrow> u32 \<Rightarrow> string \<Rightarrow> 'w st \<Rightarrow>
     text_out \<times> native_handle option \<times> 'w st" where
  "from_string J ho a_string a_quantum a_flags a_name s =
     (case from_text J a_string \<lparr>out_grantors = [], out_quantum = a_quantum, out_flags = a_flags,
         out_name = a_name, out_numFds = 0, out_numInts = 0\<rparr> of (proceeds, out) \<Rightarrow>
        if proceeds then
          (case native_handle_create ho (sint (out_numFds out)) (sint (out_numInts out)) s of
             (handle, s') \<Rightarrow> (out, handle, s'))
        else (out, None, s))"

section \<open>The descriptor on Windows\<close>

definition Shim_toString :: "'j json \<Rightarrow> Shim \<Rightarrow> string" where
  "Shim_toString J d = generate_string J (mGrantors d) (mHandle d) (mQuantum d) (mFlags d) (mName d)"

definition Shim_fromString :: "'j json \<Rightarrow> 'w handle_os \<Rightarrow> string \<Rightarrow> Shim \<Rightarrow> 'w st \<Rightarrow> Shim \<times> 'w st" where
  "Shim_fromString J ho a_decriptor_str d s =
     (case from_string J ho a_decriptor_str (mQuantum d) (mFlags d) (mName d) s of
        (out, handle, s') \<Rightarrow>
          (\<lparr>mGrantors = out_grantors out, mHandle = handle, mQuantum = out_quantum out,
            mFlags = out_flags out, mName = out_name out\<rparr>, s'))"

record WinMQDescriptor = AidlMQDescriptor +
  win_name :: string
  json_decriptor :: string

definition shim_of_win_desc :: "'j json \<Rightarrow> 'w handle_os \<Rightarrow> WinMQDescriptor \<Rightarrow> 'w st \<Rightarrow> Shim \<times> 'w st" where
  "shim_of_win_desc J ho desc s =
     Shim_fromString J ho (json_decriptor desc)
       \<lparr>mGrantors = [], mHandle = None, mQuantum = aidl_quantum desc, mFlags = aidl_flags desc,
        mName = ''''\<rparr> s"

text \<open>
  \<open>dupeDesc\<close> on Windows: the handles are cut to an \<open>int\<close> each, and of the integers only their
  number is sent.
\<close>

definition fake_fd :: "int \<Rightarrow> int" where
  "fake_fd h = sint (of_int h :: u32)"

definition win_dupeDesc :: "'j json \<Rightarrow> Shim option \<Rightarrow> WinMQDescriptor res" where
  "win_dupeDesc J shim =
     (case shim of
        None \<Rightarrow> Inr \<lparr>aidl_grantors = [], aidl_fds = [], aidl_ints = [], aidl_quantum = 0,
                    aidl_flags = 0, win_name = '''', json_decriptor = ''''\<rparr>
      | Some d \<Rightarrow>
          let desc_json = Shim_toString J d in
          (case mHandle d of
             None \<Rightarrow> Inl Undefined
           | Some nh \<Rightarrow>
               let nf = nat (numFds nh); n = nat (numFds nh + numInts nh) in
               bind_res (read_entries nh 0 nf) (\<lambda>raw.
               bind_res (read_entries nh nf n) (\<lambda>ints.
               Inr \<lparr>aidl_grantors = map aidl_of_grantor (mGrantors d), aidl_fds = map fake_fd raw,
                    aidl_ints = replicate (length ints) 0, aidl_quantum = ucast (getQuantum d),
                    aidl_flags = getFlags d, win_name = '''', json_decriptor = desc_json\<rparr>))))"

text \<open>
  Two further functions of the descriptor on Windows. \<open>headers\<close> says whether the two macros are
  defined that guard the first part; the handle that is made there is not kept.
\<close>

definition from_json_descriptor ::
  "bool \<Rightarrow> 'j json \<Rightarrow> 'w handle_os \<Rightarrow> string \<Rightarrow> WinMQDescriptor \<Rightarrow> 'w st \<Rightarrow>
     bool \<times> WinMQDescriptor \<times> 'w st" where
  "from_json_descriptor headers J ho a_json_decriptor d s =
     (if headers then
        (case from_string J ho a_json_decriptor 0 0 (win_name d) s of (out, p_native_handle, s') \<Rightarrow>
          (True, d\<lparr>aidl_grantors := map aidl_of_grantor (out_grantors out), win_name := out_name out,
                   json_decriptor := a_json_decriptor\<rparr>, s'))
      else (True, d\<lparr>json_decriptor := a_json_decriptor\<rparr>, s))"

definition to_json_string :: "WinMQDescriptor \<Rightarrow> string" where
  "to_json_string d = (if json_decriptor d \<noteq> [] then json_decriptor d else [])"

section \<open>What the code relies on\<close>

text \<open>
  The documented behaviour of the library, as far as it is used. \<open>Obj\<close> holds of the values that
  are null or objects and \<open>Arr n\<close> of those that are arrays of length \<open>n\<close>, the null value being
  the empty one. \<open>Same\<close> relates a value to what is read back from its text: the two need not be
  equal, since a number may change its tag, but every observation is.
\<close>

definition json_contract ::
  "'j json \<Rightarrow> ('j \<Rightarrow> bool) \<Rightarrow> (nat \<Rightarrow> 'j \<Rightarrow> bool) \<Rightarrow> ('j \<Rightarrow> 'j \<Rightarrow> bool) \<Rightarrow> bool" where
  "json_contract J Obj Arr Same \<longleftrightarrow>
     (Obj (null_value J) \<and> Arr 0 (null_value J)) \<and>
     (\<forall>v. Obj v \<longrightarrow> Obj (clear J v)) \<and>
     (\<forall>v k x. Obj v \<longrightarrow> Obj (set_member J v k x) \<and>
        (\<forall>k'. member J (set_member J v k x) k' = (if k' = k then Some x else member J v k'))) \<and>
     (\<forall>v n x. Arr n v \<longrightarrow> Arr (Suc n) (set_element J v n x) \<and>
        (\<forall>i\<le>n. element J (set_element J v n x) i = (if i = n then Some x else element J v i))) \<and>
     (\<forall>v n. Arr n v \<and> n < 2 ^ 32 \<longrightarrow> json_size J v = of_nat n \<and> (isArray J v \<or> isNull J v)) \<and>
     (\<forall>u. asUInt64 J (uint_value J u) = Some u \<and>
        (unat u < 2 ^ 32 \<longrightarrow> asUInt J (uint_value J u) = Some (ucast u))) \<and>
     (\<forall>t. asString J (string_value J t) = Some t \<and> \<not> isNull J (string_value J t)) \<and>
     (\<forall>v. Obj v \<longrightarrow>
        (\<exists>t v'. writeString J v = Some t \<and> parse J t = Some v' \<and> Same v v')) \<and>
     (\<forall>v v'. Same v v' \<longrightarrow>
        (\<forall>k x. member J v k = Some x \<longrightarrow> (\<exists>x'. member J v' k = Some x' \<and> Same x x')) \<and>
        (\<forall>i x. element J v i = Some x \<longrightarrow> (\<exists>x'. element J v' i = Some x' \<and> Same x x')) \<and>
        json_size J v' = json_size J v \<and> isArray J v' = isArray J v \<and> isNull J v' = isNull J v \<and>
        asUInt J v' = asUInt J v \<and> asUInt64 J v' = asUInt64 J v \<and> asString J v' = asString J v)"

lemma json_contractD:
  assumes "json_contract J Obj Arr Same"
  shows "Obj (null_value J)" and "Arr 0 (null_value J)"
    and "Obj v \<Longrightarrow> Obj (clear J v)"
    and "Obj v \<Longrightarrow> Obj (set_member J v k x)"
    and "Obj v \<Longrightarrow> member J (set_member J v k x) k' = (if k' = k then Some x else member J v k')"
    and "Arr n a \<Longrightarrow> Arr (Suc n) (set_element J a n x)"
    and "Arr n a \<Longrightarrow> i \<le> n \<Longrightarrow>
      element J (set_element J a n x) i = (if i = n then Some x else element J a i)"
    and "Arr n a \<Longrightarrow> n < 2 ^ 32 \<Longrightarrow> json_size J a = of_nat n \<and> (isArray J a \<or> isNull J a)"
    and "asUInt64 J (uint_value J u) = Some u"
    and "unat u < 2 ^ 32 \<Longrightarrow> asUInt J (uint_value J u) = Some (ucast u)"
    and "asString J (string_value J t) = Some t" and "\<not> isNull J (string_value J t)"
    and "Obj v \<Longrightarrow> \<exists>t v'. writeString J v = Some t \<and> parse J t = Some v' \<and> Same v v'"
    and "Same v v' \<Longrightarrow> member J v k = Some x \<Longrightarrow> \<exists>x'. member J v' k = Some x' \<and> Same x x'"
    and "Same v v' \<Longrightarrow> element J v i = Some x \<Longrightarrow> \<exists>x'. element J v' i = Some x' \<and> Same x x'"
    and "Same v v' \<Longrightarrow> json_size J v' = json_size J v \<and> isArray J v' = isArray J v \<and>
      isNull J v' = isNull J v \<and> asUInt J v' = asUInt J v \<and> asUInt64 J v' = asUInt64 J v \<and>
      asString J v' = asString J v"
proof -
  note c = assms [unfolded json_contract_def]
  note c1 = c [THEN conjunct1] and r1 = c [THEN conjunct2]
  note c2 = r1 [THEN conjunct1] and r2 = r1 [THEN conjunct2]
  note c3 = r2 [THEN conjunct1] and r3 = r2 [THEN conjunct2]
  note c4 = r3 [THEN conjunct1] and r4 = r3 [THEN conjunct2]
  note c5 = r4 [THEN conjunct1] and r5 = r4 [THEN conjunct2]
  note c6 = r5 [THEN conjunct1] and r6 = r5 [THEN conjunct2]
  note c7 = r6 [THEN conjunct1] and r7 = r6 [THEN conjunct2]
  note c8 = r7 [THEN conjunct1] and c9 = r7 [THEN conjunct2]
  show "Obj (null_value J)" and "Arr 0 (null_value J)" using c1 by simp_all
  show "Obj v \<Longrightarrow> Obj (clear J v)" using c2 by simp
  show "Obj v \<Longrightarrow> Obj (set_member J v k x)"
    and "Obj v \<Longrightarrow> member J (set_member J v k x) k' = (if k' = k then Some x else member J v k')"
    using c3 by simp_all
  show "Arr n a \<Longrightarrow> Arr (Suc n) (set_element J a n x)"
    and "Arr n a \<Longrightarrow> i \<le> n \<Longrightarrow>
      element J (set_element J a n x) i = (if i = n then Some x else element J a i)"
    using c4 [THEN spec, of a, THEN spec, of n, THEN spec, of x] by simp_all
  show "Arr n a \<Longrightarrow> n < 2 ^ 32 \<Longrightarrow> json_size J a = of_nat n \<and> (isArray J a \<or> isNull J a)"
    using c5 [THEN spec, of a, THEN spec, of n] by simp
  show "asUInt64 J (uint_value J u) = Some u"
    and "unat u < 2 ^ 32 \<Longrightarrow> asUInt J (uint_value J u) = Some (ucast u)"
    using c6 [THEN spec, of u] by simp_all
  show "asString J (string_value J t) = Some t" and "\<not> isNull J (string_value J t)"
    using c7 by simp_all
  show "Obj v \<Longrightarrow> \<exists>t v'. writeString J v = Some t \<and> parse J t = Some v' \<and> Same v v'"
    using c8 [THEN spec, of v] by simp
  note obs = c9 [THEN spec, of v, THEN spec, of v', THEN mp]
  show "Same v v' \<Longrightarrow> member J v k = Some x \<Longrightarrow> \<exists>x'. member J v' k = Some x' \<and> Same x x'"
    using obs [THEN conjunct1] by simp
  show "Same v v' \<Longrightarrow> element J v i = Some x \<Longrightarrow> \<exists>x'. element J v' i = Some x' \<and> Same x x'"
    using obs [THEN conjunct2, THEN conjunct1] by simp
  show "Same v v' \<Longrightarrow> json_size J v' = json_size J v \<and> isArray J v' = isArray J v \<and>
      isNull J v' = isNull J v \<and> asUInt J v' = asUInt J v \<and> asUInt64 J v' = asUInt64 J v \<and>
      asString J v' = asString J v"
    using obs [THEN conjunct2, THEN conjunct2] by simp
qed

section \<open>Reading back what was written\<close>

text \<open>A list of steps that all succeed, and how it runs in front of others.\<close>

fun run_all :: "('s \<Rightarrow> 's option) list \<Rightarrow> 's \<Rightarrow> 's option" where
  "run_all [] s = Some s"
| "run_all (f # fs) s = Option.bind (f s) (run_all fs)"

lemma attempt_all_append: "run_all fs s = Some s' \<Longrightarrow> attempt_all (fs @ gs) s = attempt_all gs s'"
  by (induction fs arbitrary: s) (auto split: option.splits bind_splits)

lemma run_all_append: "run_all (fs @ gs) s = Option.bind (run_all fs s) (run_all gs)"
  by (induction fs arbitrary: s) (auto split: bind_splits)

lemma attempt_all_run: "run_all fs s = Some s' \<Longrightarrow> attempt_all fs s = s'"
  using attempt_all_append [of fs s s' "[]"] by simp

text \<open>The members of a written grantor.\<close>

definition written_grantor :: "'j json \<Rightarrow> 'j \<Rightarrow> GrantorDescriptor \<Rightarrow> bool" where
  "written_grantor J v g \<longleftrightarrow>
     member J v flags_element_key = Some (uint_value J (ucast (flags g))) \<and>
     member J v fdIndex_element_key = Some (uint_value J (ucast (fdIndex g))) \<and>
     member J v offset_element_key = Some (uint_value J (ucast (offset g))) \<and>
     member J v extent_element_key = Some (uint_value J (extent g))"

lemma put_grantor_written:
  assumes "json_contract J Obj Arr Same" and "Obj v"
  shows "written_grantor J (put_grantor J v g) g" and "Obj (put_grantor J v g)"
  using json_contractD(3-5) [OF assms(1)] assms(2)
  by (simp_all add: put_grantor_def written_grantor_def Let_def key_defs)

lemma put_grantors_written:
  assumes J: "json_contract J Obj Arr Same"
    and "put_grantors J i v a gs = (v', a')" and "Obj v" and "Arr i a"
  shows "Obj v' \<and> Arr (i + length gs) a' \<and> (\<forall>j<i. element J a' j = element J a j) \<and>
    (\<forall>j<length gs. \<exists>x. element J a' (i + j) = Some x \<and> written_grantor J x (gs ! j))"
  using assms(2-4)
proof (induction gs arbitrary: i v a)
  case (Cons g gs)
  let ?x = "put_grantor J v g"
  let ?a = "set_element J a i ?x"
  have run: "put_grantors J (Suc i) ?x ?a gs = (v', a')" using Cons.prems(1) by (simp add: Let_def)
  note g = put_grantor_written [OF J Cons.prems(2)]
  note a = json_contractD(6,7) [OF J Cons.prems(3)]
  from Cons.IH [OF run g(2) a(1)]
  have IH: "Obj v'" "Arr (i + length (g # gs)) a'" "\<forall>j<Suc i. element J a' j = element J ?a j"
    "\<forall>j<length gs. \<exists>x. element J a' (Suc i + j) = Some x \<and> written_grantor J x (gs ! j)"
    by simp_all
  have "element J a' i = Some ?x" using IH(3) a(2) [of i ?x] by simp
  moreover have "element J a' j = element J a j" if "j < i" for j
    using IH(3) a(2) [of j ?x] that by simp
  moreover have "\<exists>x. element J a' (i + j) = Some x \<and> written_grantor J x ((g # gs) ! j)"
    if "j < length (g # gs)" for j
    using that IH(4) g(1) calculation(1) by (cases j) auto
  ultimately show ?case using IH(1,2) by blast
qed simp

lemma scalar_step_run:
  "member J v key = Some x \<Longrightarrow> as x = Some y \<Longrightarrow>
     scalar_step J v key as assign out = Some (assign y out)"
  by (simp add: scalar_step_def)

text \<open>A value that reads like the written one: its members give the written numbers.\<close>

lemma read_like_written:
  assumes J: "json_contract J Obj Arr Same" and "Same v v'" and "written_grantor J v g"
  obtains e f o' d where "member J v' extent_element_key = Some e" "asUInt64 J e = Some (extent g)"
    and "member J v' fdIndex_element_key = Some f" "asUInt J f = Some (fdIndex g)"
    and "member J v' offset_element_key = Some o'" "asUInt J o' = Some (offset g)"
    and "member J v' flags_element_key = Some d" "asUInt J d = Some (flags g)"
proof -
  have small: "unat (ucast (u :: u32) :: u64) < 2 ^ 32" for u
    using unsigned_less [of u] by (simp add: unat_ucast_32_64)
  have num: "asUInt J (uint_value J (ucast (u :: u32))) = Some u" for u
    using json_contractD(10) [OF J small [of u]] by (simp add: ucast_up_ucast_id is_up)
  have 1: "\<exists>x. member J v' k = Some x \<and> asUInt J x = Some u"
    if m: "member J v k = Some (uint_value J (ucast (u :: u32)))" for k u
  proof -
    obtain x' where "member J v' k = Some x'" and "Same (uint_value J (ucast u)) x'"
      using json_contractD(14) [OF J assms(2) m] by blast
    with json_contractD(16) [OF J] num show ?thesis by simp
  qed
  have 2: "\<exists>x. member J v' extent_element_key = Some x \<and> asUInt64 J x = Some (extent g)"
  proof -
    have m: "member J v extent_element_key = Some (uint_value J (extent g))"
      using assms(3) by (simp add: written_grantor_def)
    obtain x' where "member J v' extent_element_key = Some x'" and "Same (uint_value J (extent g)) x'"
      using json_contractD(14) [OF J assms(2) m] by blast
    with json_contractD(16) [OF J] json_contractD(9) [OF J] show ?thesis by simp
  qed
  note w = assms(3) [unfolded written_grantor_def]
  from 1 [OF w [THEN conjunct1]] 1 [OF w [THEN conjunct2, THEN conjunct1]]
    1 [OF w [THEN conjunct2, THEN conjunct2, THEN conjunct1]] 2 that show ?thesis by blast
qed
lemma grantor_steps_run:
  assumes "element J value i = Some e" and "i < length (out_grantors out)"
    and "member J e extent_element_key = Some x1" "asUInt64 J x1 = Some (extent g)"
    and "member J e fdIndex_element_key = Some x2" "asUInt J x2 = Some (fdIndex g)"
    and "member J e offset_element_key = Some x3" "asUInt J x3 = Some (offset g)"
    and "member J e flags_element_key = Some x4" "asUInt J x4 = Some (flags g)"
  shows "run_all (grantor_steps J value i) out =
    Some (out\<lparr>out_grantors := (out_grantors out)[i := g]\<rparr>)"
proof -
  have eq: "v\<lparr>extent := extent g, fdIndex := fdIndex g, offset := offset g, flags := flags g\<rparr> = g" for v
    by simp
  with assms show ?thesis
    by (simp add: grantor_steps_def element_step_def scalar_step_run eq)
qed

lemma all_grantor_steps_run:
  assumes "length (out_grantors out) = length gs" and "k \<le> length gs"
    and "\<And>i out'. i < length gs \<Longrightarrow> length (out_grantors out') = length gs \<Longrightarrow>
      run_all (grantor_steps J value i) out' =
        Some (out'\<lparr>out_grantors := (out_grantors out')[i := gs ! i]\<rparr>)"
  shows "run_all (concat (map (grantor_steps J value) [0..<k])) out =
    Some (out\<lparr>out_grantors := take k gs @ drop k (out_grantors out)\<rparr>)"
  using assms(2)
proof (induction k)
  case (Suc k)
  then have k: "k < length gs" by simp
  let ?out = "out\<lparr>out_grantors := take k gs @ drop k (out_grantors out)\<rparr>"
  have "(take k gs @ drop k (out_grantors out))[k := gs ! k] =
      take (Suc k) gs @ drop (Suc k) (out_grantors out)"
    using k assms(1) by (simp add: list_update_append take_Suc_conv_app_nth Cons_nth_drop_Suc [symmetric])
  moreover have "run_all (grantor_steps J value k) ?out =
      Some (?out\<lparr>out_grantors := (out_grantors ?out)[k := gs ! k]\<rparr>)"
    using assms(1) k by (intro assms(3)) simp_all
  ultimately show ?case using Suc k by (simp add: run_all_append)
qed simp

text \<open>The members of the written object.\<close>

lemma descriptor_value_members:
  assumes J: "json_contract J Obj Arr Same"
  obtains a where "Obj (descriptor_value J gs h q f nm)"
    and "member J (descriptor_value J gs h q f nm) GrantorDescriptor_key = Some a"
    and "Arr (length gs) a"
    and "\<forall>j<length gs. \<exists>x. element J a j = Some x \<and> written_grantor J x (gs ! j)"
    and "member J (descriptor_value J gs h q f nm) quantum_key = Some (uint_value J (ucast q))"
    and "member J (descriptor_value J gs h q f nm) flags_key = Some (uint_value J (ucast f))"
    and "member J (descriptor_value J gs h q f nm) numFds_key =
      Some (uint_value J (ucast (of_int (case h of Some nh \<Rightarrow> numFds nh | None \<Rightarrow> 0) :: u32)))"
    and "member J (descriptor_value J gs h q f nm) numInts_key =
      Some (uint_value J (ucast (of_int (case h of Some nh \<Rightarrow> numInts nh | None \<Rightarrow> 0) :: u32)))"
    and "member J (descriptor_value J gs h q f nm) name_key = Some (string_value J nm)"
proof -
  obtain v a where p: "put_grantors J 0 (null_value J) (null_value J) gs = (v, a)"
    by (rule prod.exhaust)
  from put_grantors_written [OF J p json_contractD(1) [OF J] json_contractD(2) [OF J]]
  have w: "Obj v" "Arr (length gs) a"
    "\<forall>j<length gs. \<exists>x. element J a j = Some x \<and> written_grantor J x (gs ! j)" by simp_all
  note o = json_contractD(3-5) [OF J]
  show ?thesis
    by (rule that [OF _ _ w(2,3)])
      (simp_all add: descriptor_value_def p Let_def o w(1) key_defs)
qed

text \<open>What is written is read back, member by member.\<close>

lemma text_read_back:
  assumes J: "json_contract J Obj Arr Same" and small: "length gs < 2 ^ 32"
  shows "from_text J (generate_string J gs h q f nm) out =
    (True, \<lparr>out_grantors = gs, out_quantum = q, out_flags = f, out_name = nm,
       out_numFds = of_int (case h of Some nh \<Rightarrow> numFds nh | None \<Rightarrow> 0),
       out_numInts = of_int (case h of Some nh \<Rightarrow> numInts nh | None \<Rightarrow> 0)\<rparr>)"
proof -
  let ?v = "descriptor_value J gs h q f nm"
  obtain a where v: "Obj ?v" "member J ?v GrantorDescriptor_key = Some a" and a: "Arr (length gs) a"
    and el: "\<forall>j<length gs. \<exists>x. element J a j = Some x \<and> written_grantor J x (gs ! j)"
    and mem: "member J ?v quantum_key = Some (uint_value J (ucast q))"
      "member J ?v flags_key = Some (uint_value J (ucast f))"
      "member J ?v numFds_key =
        Some (uint_value J (ucast (of_int (case h of Some nh \<Rightarrow> numFds nh | None \<Rightarrow> 0) :: u32)))"
      "member J ?v numInts_key =
        Some (uint_value J (ucast (of_int (case h of Some nh \<Rightarrow> numInts nh | None \<Rightarrow> 0) :: u32)))"
      "member J ?v name_key = Some (string_value J nm)"
    by (rule descriptor_value_members [OF J])
  obtain t v' where t: "writeString J ?v = Some t" "parse J t = Some v'" and same: "Same ?v v'"
    using json_contractD(13) [OF J v(1)] by blast
  obtain a' where a': "member J v' GrantorDescriptor_key = Some a'" "Same a a'"
    using json_contractD(14) [OF J same v(2)] by blast
  have small_u: "unat (ucast (u :: u32) :: u64) < 2 ^ 32" for u
    using unsigned_less [of u] by (simp add: unat_ucast_32_64)
  have num: "\<exists>x'. member J v' k = Some x' \<and> asUInt J x' = Some u"
    if m: "member J ?v k = Some (uint_value J (ucast (u :: u32)))" for k u
  proof -
    obtain x' where "member J v' k = Some x'" and "Same (uint_value J (ucast u)) x'"
      using json_contractD(14) [OF J same m] by blast
    with json_contractD(16) [OF J] json_contractD(10) [OF J small_u [of u]] show ?thesis
      by (simp add: ucast_up_ucast_id is_up)
  qed
  obtain x5 where x5: "member J v' name_key = Some x5" "asString J x5 = Some nm" "\<not> isNull J x5"
    using json_contractD(14) [OF J same mem(5)] json_contractD(16) [OF J] json_contractD(11,12) [OF J]
    by metis
  have size: "unat (json_size J a') = length gs" and arr: "isArray J a' \<or> isNull J a'"
    using json_contractD(8) [OF J a small] json_contractD(16) [OF J a'(2)] small
    by (simp_all add: unat_of_nat take_bit_eq_mod)
  have steps: "run_all (grantor_steps J a' i) o' =
      Some (o'\<lparr>out_grantors := (out_grantors o')[i := gs ! i]\<rparr>)"
    if i: "i < length gs" and len: "length (out_grantors o') = length gs" for i o'
  proof -
    obtain x where x: "element J a i = Some x" "written_grantor J x (gs ! i)" using el i by blast
    obtain e where e: "element J a' i = Some e" "Same x e"
      using json_contractD(15) [OF J a'(2) x(1)] by blast
    show ?thesis
      by (rule read_like_written [OF J e(2) x(2)], rule grantor_steps_run [OF e(1)])
        (use i len in simp_all)
  qed
  let ?out = "out\<lparr>out_grantors := replicate (length gs) GrantorDescriptor_zero\<rparr>"
  have "run_all (concat (map (grantor_steps J a') [0..<length gs])) ?out =
      Some (?out\<lparr>out_grantors := gs\<rparr>)"
    using all_grantor_steps_run [of ?out gs "length gs" J a', OF _ _ steps] by simp
  note attempt_all_append [OF this]
  moreover obtain x1 x2 x3 x4 where "member J v' quantum_key = Some x1" "asUInt J x1 = Some q"
    "member J v' flags_key = Some x2" "asUInt J x2 = Some f"
    "member J v' numFds_key = Some x3"
      "asUInt J x3 = Some (of_int (case h of Some nh \<Rightarrow> numFds nh | None \<Rightarrow> 0))"
    "member J v' numInts_key = Some x4"
      "asUInt J x4 = Some (of_int (case h of Some nh \<Rightarrow> numInts nh | None \<Rightarrow> 0))"
    using num [OF mem(1)] num [OF mem(2)] num [OF mem(3)] num [OF mem(4)] by metis
  ultimately show ?thesis
    using t a'(1) size arr x5
    by (simp add: from_text_def generate_string_def tail_steps_def scalar_step_def)
qed
section \<open>The exchange on Windows\<close>

lemma sint_of_count:
  assumes "0 \<le> n" and "n < 2 ^ 31"
  shows "sint (of_int n :: u32) = n"
proof -
  have "sint (of_int n :: u32) = signed_take_bit 31 n" by (simp add: signed_of_int)
  also have "\<dots> = n"
    using assms by (intro signed_take_bit_int_eq_self) linarith+
  finally show ?thesis .
qed

lemma win_dupeDesc_sends:
  assumes "mHandle d = Some nh" and "handle_ok nh"
  obtains desc where "win_dupeDesc J (Some d) = Inr desc"
    and "json_decriptor desc = Shim_toString J d"
proof -
  have n: "nat (numFds nh + numInts nh) = nat (numFds nh) + nat (numInts nh)"
    using assms(2) by (simp add: handle_ok_def nat_add_distrib)
  have "length (handle_data nh) = nat (numFds nh) + nat (numInts nh)"
    using assms(2) by (simp add: handle_ok_def)
  with assms(1) n that show ?thesis by (simp add: win_dupeDesc_def read_entries_def)
qed

text \<open>
  C39: on Windows a descriptor travels as text, and the receiver's constructor rebuilds it from
  that: grantors with all their fields, quantum, flags and the name by which the receiver will
  open the shared memory are equal. Of the handle only the two counts survive; its entries are
  those of a new handle, and the receiver replaces the first one.
\<close>

theorem windows_round_trip:
  assumes "json_contract J Obj Arr Same" and "creates_handles ho"
    and "mHandle d = Some nh" and "handle_ok nh" and "numFds nh < 2 ^ 31" and "numInts nh < 2 ^ 31"
    and "length (mGrantors d) < 2 ^ 32"
  shows "\<exists>desc nh' s'. win_dupeDesc J (Some d) = Inr desc \<and>
    shim_of_win_desc J ho desc s = (d\<lparr>mHandle := Some nh'\<rparr>, s') \<and>
    native_handle_create ho (numFds nh) (numInts nh) s = (Some nh', s') \<and>
    numFds nh' = numFds nh \<and> numInts nh' = numInts nh"
proof -
  obtain desc where desc: "win_dupeDesc J (Some d) = Inr desc"
    "json_decriptor desc = Shim_toString J d"
    by (rule win_dupeDesc_sends [OF assms(3,4)])
  have pos: "0 \<le> numFds nh" "0 \<le> numInts nh" using assms(4) by (simp_all add: handle_ok_def)
  obtain nh' s' where c: "native_handle_create ho (numFds nh) (numInts nh) s = (Some nh', s')"
    and nh': "numFds nh' = numFds nh" "numInts nh' = numInts nh"
    using creates_handlesD [OF assms(2) pos] by blast
  note counts = sint_of_count [OF pos(1) assms(5)] sint_of_count [OF pos(2) assms(6)]
  have "shim_of_win_desc J ho desc s = (d\<lparr>mHandle := Some nh'\<rparr>, s')"
    by (simp add: shim_of_win_desc_def Shim_fromString_def from_string_def desc(2) Shim_toString_def
        text_read_back [OF assms(1,7)] assms(3) counts c)
  with desc(1) c nh' show ?thesis by blast
qed

text \<open>
  A text that the parser refuses leaves the receiver with the quantum and flags that came beside
  it, and with no grantors and no handle.
\<close>

lemma unreadable_text:
  assumes "parse J (json_decriptor desc) = None"
  shows "shim_of_win_desc J ho desc s =
    (\<lparr>mGrantors = [], mHandle = None, mQuantum = aidl_quantum desc, mFlags = aidl_flags desc,
      mName = ''''\<rparr>, s)"
  using assms by (simp add: shim_of_win_desc_def Shim_fromString_def from_string_def from_text_def)

text \<open>
  \<open>from_json_descriptor\<close> takes over from a text that \<open>dupeDesc\<close> sent the grantors and the name, and
  keeps the text; quantum, flags and handle of the descriptor stay what they were.
\<close>

lemma from_json_descriptor_sent:
  assumes "json_contract J Obj Arr Same" and "length (mGrantors d) < 2 ^ 32"
    and "win_dupeDesc J (Some d) = Inr sent"
  shows "\<exists>s'. from_json_descriptor True J ho (to_json_string sent) desc s =
    (True, desc\<lparr>aidl_grantors := aidl_grantors sent, win_name := mName d,
       json_decriptor := json_decriptor sent\<rparr>, s')"
proof -
  obtain nh where "mHandle d = Some nh"
    using assms(3) by (cases "mHandle d") (simp_all add: win_dupeDesc_def)
  then have "json_decriptor sent = Shim_toString J d"
    and "aidl_grantors sent = map aidl_of_grantor (mGrantors d)"
    using assms(3) by (auto simp: win_dupeDesc_def Let_def bind_res_eq_Inr)
  moreover have "to_json_string sent = json_decriptor sent" by (simp add: to_json_string_def)
  ultimately show ?thesis
    by (simp add: from_json_descriptor_def from_string_def Shim_toString_def
        text_read_back [OF assms(1,2)] split: prod.splits)
qed

end
