(* ===== verification/Queue_Lifetime.thy ===== *)
theory Queue_Lifetime
  imports Queue_Setup Descriptor_Text
begin

text \<open>
  What a queue object takes over when it is made from a descriptor, and what it gives back when
  it is destroyed: the constructor from a descriptor and the destructor of
  \<open>include/fmq/MessageQueueBase.h\<close>.
\<close>

section \<open>Attaching to a queue\<close>

text \<open>
  The contract of the calls on native handles: like those of the kernel and the allocator, they
  leave the counters in memory alone and take nothing away.
\<close>

definition quiet_handles :: "'w libs \<Rightarrow> ('w \<Rightarrow> ptr set) \<Rightarrow> bool" where
  "quiet_handles lib Occ \<longleftrightarrow>
     (\<forall>f i s. occupies_more Occ s (snd (native_handle_create lib f i s))) \<and>
     (\<forall>fd s. occupies_more Occ s (snd (dup lib fd s))) \<and>
     (\<forall>access nm s. occupies_more Occ s (snd (OpenFileMapping lib access nm s)))"

lemma quiet_handlesD:
  assumes "quiet_handles lib Occ"
  shows "native_handle_create lib f i s = (nh, s') \<Longrightarrow> occupies_more Occ s s'"
    and "dup lib fd s = (fd', s') \<Longrightarrow> occupies_more Occ s s'"
    and "system_porting_open_shmem (OpenFileMapping lib) nm ro s = (fd', s') \<Longrightarrow> occupies_more Occ s s'"
  using assms unfolding quiet_handles_def system_porting_open_shmem_def Let_def
  by (metis snd_conv)+

lemma write_entries_quiet:
  assumes "\<And>x s v s'. f x s = (v, s') \<Longrightarrow> occupies_more Occ s s'"
    and "write_entries f xs i data s = Inr (data', s')"
  shows "occupies_more Occ s s'"
  using assms(2)
proof (induction xs arbitrary: i data s)
  case (Cons x xs)
  obtain v s1 where f: "f x s = (v, s1)" by (rule prod.exhaust)
  with Cons.prems have "write_entries f xs (Suc i) (data[i := v]) s1 = Inr (data', s')"
    by (simp split: if_splits)
  from Cons.IH [OF this] assms(1) [OF f] show ?case by (rule occupies_more_trans [rotated])
qed simp

lemma Shim_copy_result:
  assumes q: "quiet_handles lib Occ"
    and run: "Shim_copy pf (handle_os.truncate lib) fl d s = Inr (d', s')"
  shows "mGrantors d' = mGrantors d" and "mQuantum d' = mQuantum d"
    and "isHandleValid d' = isHandleValid d" and "occupies_more Occ s s'"
proof -
  let ?ho = "handle_os.truncate lib"
  obtain base where base: "shim_of_size fl 0 None 0 False = Inr base" "mHandle base = None"
    by (simp add: shim_of_size_ok)
  have assign: "Shim_assign pf ?ho base d s = Inr (d', s')"
    using run by (simp add: Shim_copy_def base(1))
  have "mGrantors d' = mGrantors d \<and> mQuantum d' = mQuantum d \<and>
      isHandleValid d' = isHandleValid d \<and> occupies_more Occ s s'"
  proof (cases "mHandle d")
    case None
    with assign show ?thesis by (auto simp: Shim_assign_def base(2) Let_def isHandleValid_def)
  next
    case (Some oh)
    obtain onh s2 where c: "native_handle_create lib (numFds oh) (numInts oh) s = (onh, s2)"
      by (rule prod.exhaust)
    have c': "native_handle_create ?ho (numFds oh) (numInts oh) s = (onh, s2)"
      using c by (simp add: handle_os.truncate_def)
    obtain nh where nh: "onh = Some nh"
      using assign Some c' base(2) by (cases onh) (simp_all add: Shim_assign_def Let_def)
    obtain fds data1 s3 ints i n data2 where
      w1: "write_entries (case pf of MSVC \<Rightarrow> no_call | POSIX \<Rightarrow> dup ?ho) fds 0 (handle_data nh) s2 =
        Inr (data1, s3)"
      and w2: "write_entries no_call ints i data1 s3 = Inr (data2, s')"
      and d': "mGrantors d' = mGrantors d" "mQuantum d' = mQuantum d" "isHandleValid d'"
      using assign Some c' base(2) nh
      by (auto simp: Shim_assign_def Let_def bind_res_eq_Inr isHandleValid_def)
    have "occupies_more Occ t t'" if "(case pf of MSVC \<Rightarrow> no_call | POSIX \<Rightarrow> dup ?ho) x t = (v, t')"
      for x t v t'
      using that quiet_handlesD(2) [OF q]
      by (cases pf) (auto simp: no_call_def handle_os.truncate_def)
    from write_entries_quiet [OF this w1] have "occupies_more Occ s2 s3" .
    moreover have "occupies_more Occ s3 s'"
      by (rule write_entries_quiet [OF _ w2]) (auto simp: no_call_def)
    ultimately have "occupies_more Occ s s'"
      using quiet_handlesD(1) [OF q c] occupies_more_trans by metis
    with d' Some show ?thesis by (simp add: isHandleValid_def)
  qed
  then show "mGrantors d' = mGrantors d" and "mQuantum d' = mQuantum d"
    and "isHandleValid d' = isHandleValid d" and "occupies_more Occ s s'" by simp_all
qed

lemma attach_reaches_initMemory:
  assumes q: "quiet_handles lib Occ" and sp: "address_space os lib Occ"
    and run: "MessageQueue_of_desc pf os lib fl tsize desc reset s = Inr (q, s')"
    and valid: "isValid q"
  obtains d t where "mGrantors d = mGrantors desc" and "mQuantum d = mQuantum desc"
    and "occupies_more Occ s t"
    and "initMemory os lib reset ((empty_queue fl tsize)\<lparr>mDesc := Some d\<rparr>) t = Inr (q, s')"
proof -
  obtain allocated s1 where n: "new_object lib s = (allocated, s1)" by (rule prod.exhaust)
  then have o1: "occupies_more Occ s s1" using address_spaceD(7) [OF sp, of s] by simp
  have allocated using run valid n
    by (cases allocated) (auto simp: MessageQueue_of_desc_def isValid_def empty_queue_def)
  then obtain d s2 where c: "Shim_copy pf (handle_os.truncate lib) fl desc s1 = Inr (d, s2)"
    and rest: "bind_res (case pf of POSIX \<Rightarrow> Inr (d, s2)
      | MSVC \<Rightarrow> (case system_porting_open_shmem (OpenFileMapping lib) (mName d) False s2 of
          (win_handle, s3) \<Rightarrow>
          (case mHandle d of None \<Rightarrow> Inl Undefined
           | Some nh \<Rightarrow> bind_res (set_handle_data 0 win_handle nh) (\<lambda>nh'.
               Inr (d\<lparr>mHandle := Some nh'\<rparr>, s3))))) (\<lambda>(d', s4).
      initMemory os lib reset ((empty_queue fl tsize)\<lparr>mDesc := Some d'\<rparr>) s4) = Inr (q, s')"
    using run n by (auto simp: MessageQueue_of_desc_def bind_res_eq_Inr)
  note copy = Shim_copy_result [OF q c]
  have o2: "occupies_more Occ s s2" using occupies_more_trans [OF o1 copy(4)] .
  show ?thesis
  proof (cases pf)
    case POSIX
    with rest copy o2 that show ?thesis by auto
  next
    case MSVC
    obtain w s3 where w: "system_porting_open_shmem (OpenFileMapping lib) (mName d) False s2 = (w, s3)"
      by (rule prod.exhaust)
    then have "occupies_more Occ s s3"
      using o2 quiet_handlesD(3) [OF q w] occupies_more_trans by metis
    moreover obtain nh nh' where "mHandle d = Some nh"
      and "initMemory os lib reset ((empty_queue fl tsize)\<lparr>mDesc := Some (d\<lparr>mHandle := Some nh'\<rparr>)\<rparr>)
        s3 = Inr (q, s')"
      using rest MSVC w by (auto simp: bind_res_eq_Inr split: option.splits)
    ultimately show ?thesis using that [of "d\<lparr>mHandle := Some nh'\<rparr>" s3] copy(1,2) by simp
  qed
qed

section \<open>Destroying a queue\<close>

text \<open>The view behind an address: where it was mapped and how long it is.\<close>

definition viewed :: "'w win \<Rightarrow> Shim \<Rightarrow> nat \<times> ptr \<Rightarrow> bool" where
  "viewed os d v \<longleftrightarrow> (case v of (i, base) \<Rightarrow>
     \<exists>hdl t t'. system_porting_mmap os 0 (scast (mapLength (mGrantors d ! i))) (PROT_READ OR PROT_WRITE)
        MAP_SHARED hdl (mapOffset (mGrantors d ! i)) t = (base, t') \<and> base \<noteq> MAP_FAILED)"

definition release_view :: "'w win \<Rightarrow> Shim \<Rightarrow> nat \<times> ptr \<Rightarrow> 'w st \<Rightarrow> 'w st" where
  "release_view os d v t = (case v of (i, base) \<Rightarrow>
     snd (system_porting_munmap os base (scast (mapLength (mGrantors d ! i))) t))"

lemma mapped_then_released:
  assumes "mapGrantorDescr os d (of_nat i) s = Inr (p, s')" and "p \<noteq> nullptr" and "i < 4"
    and "mDesc q = Some d"
  shows "\<exists>base. viewed os d (i, base) \<and>
    (\<forall>t. unmap_member os q p i t = Inr (release_view os d (i, base) t))"
proof -
  have i: "unat (of_nat i :: u32) = i" using assms(3) by (simp add: unat_of_nat take_bit_eq_mod)
  obtain hdl base where m: "system_porting_mmap os 0 (scast (mapLength (mGrantors d ! i)))
      (PROT_READ OR PROT_WRITE) MAP_SHARED hdl (mapOffset (mGrantors d ! i)) s = (base, s')"
      "base \<noteq> MAP_FAILED"
    and u: "\<And>t. unmapGrantorDescr os d p (of_nat i) t =
      snd (system_porting_munmap os base (scast (mapLength (mGrantors d ! i))) t)"
    by (rule map_then_unmap [OF assms(1,2), unfolded i]) (rule that)
  have "viewed os d (i, base)" unfolding viewed_def prod.case using m by blast
  moreover have "unmap_member os q p i t = Inr (release_view os d (i, base) t)" for t
    using assms(2,4) by (simp add: unmap_member_def deref_desc_def release_view_def u)
  ultimately show ?thesis by blast
qed

lemma init_eventFlag_word:
  assumes "init_eventFlag os lib d q s = Inr (q', s')" and "mEvFlagWord q = nullptr"
    and "mEventFlag q = None"
  shows "if countGrantors d > EVFLAGWORDPOS
    then \<exists>s1. mapGrantorDescr os d (of_nat EVFLAGWORDPOS) s = Inr (mEvFlagWord q', s1) \<and>
      mEvFlagWord q' \<noteq> nullptr
    else mEvFlagWord q' = nullptr"
    and "\<And>ef. mEventFlag q' = Some ef \<Longrightarrow> \<not> mEfWordNeedsUnmapping ef"
proof -
  have "(if countGrantors d > EVFLAGWORDPOS
    then \<exists>s1. mapGrantorDescr os d (of_nat EVFLAGWORDPOS) s = Inr (mEvFlagWord q', s1) \<and>
      mEvFlagWord q' \<noteq> nullptr
    else mEvFlagWord q' = nullptr) \<and> (\<forall>ef. mEventFlag q' = Some ef \<longrightarrow> \<not> mEfWordNeedsUnmapping ef)"
  proof (cases "countGrantors d > EVFLAGWORDPOS")
    case False
    with assms show ?thesis by (simp add: init_eventFlag_def)
  next
    case True
    then obtain p s1 where m: "mapGrantorDescr os d (of_nat EVFLAGWORDPOS) s = Inr (p, s1)"
      using assms(1) by (auto simp: init_eventFlag_def bind_res_eq_Inr)
    then have m': "mapGrantorDescr os d 3 s = Inr (p, s1)" by simp
    obtain allocated s2 where n: "new_object lib s1 = (allocated, s2)" by (rule prod.exhaust)
    have p: "p \<noteq> nullptr" using assms(1) True m' by (auto simp: init_eventFlag_def)
    then have "q' = q\<lparr>mEvFlagWord := p, mEventFlag := (if allocated
        then Some \<lparr>mEfWordNeedsUnmapping = False, mEfWordPtr = p\<rparr> else None)\<rparr>"
      using assms(1) True
      by (simp add: init_eventFlag_def m' n createEventFlag_def EventFlag_new_def split: if_splits)
    with True m p show ?thesis by simp
  qed
  then show "if countGrantors d > EVFLAGWORDPOS
    then \<exists>s1. mapGrantorDescr os d (of_nat EVFLAGWORDPOS) s = Inr (mEvFlagWord q', s1) \<and>
      mEvFlagWord q' \<noteq> nullptr
    else mEvFlagWord q' = nullptr"
    and "\<And>ef. mEventFlag q' = Some ef \<Longrightarrow> \<not> mEfWordNeedsUnmapping ef" by blast+
qed

lemma deleteEventFlag_quiet:
  assumes "\<And>ef. flag = Some ef \<Longrightarrow> \<not> mEfWordNeedsUnmapping ef"
  shows "snd (snd (deleteEventFlag sys (Some flag) s)) = s"
  using assms
  by (cases flag) (auto simp: deleteEventFlag_def unmapEventFlagWord_def EventFlag_destroy_def)

text \<open>The first and the last part of the destructor, each over the views it releases.\<close>

definition destroy_reader ::
  "'w win \<Rightarrow> 'w libs \<Rightarrow> MessageQueue \<Rightarrow> 'w st \<Rightarrow> 'w st res" where
  "destroy_reader os lib q t =
     (if flavor q = kUnsynchronizedWrite \<and> mReadPtr q \<noteq> nullptr
      then Inr (delete_counter lib (mReadPtr q) t)
      else unmap_member os q (mReadPtr q) READPTRPOS t)"

definition destroy_flag :: "'w os \<Rightarrow> 'w win \<Rightarrow> MessageQueue \<Rightarrow> 'w st \<Rightarrow> 'w st res" where
  "destroy_flag sys os q t =
     (if mEvFlagWord q = nullptr then Inr t
      else bind_res (unmap_member os q (mEvFlagWord q) EVFLAGWORDPOS t) (\<lambda>t1.
        case deleteEventFlag sys (Some (mEventFlag q)) t1 of (status, flag, t2) \<Rightarrow> Inr t2))"

lemma destroy_reader_views:
  assumes "init_readPtr os lib (flavor q) d s = Inr (mReadPtr q, s1)" and "mReadPtr q \<noteq> nullptr"
    and "mDesc q = Some d"
  obtains vs where
    "map fst vs = (if flavor q = kSynchronizedReadWrite then [READPTRPOS] else [])"
    and "\<forall>v\<in>set vs. viewed os d v"
    and "\<And>t. destroy_reader os lib q t = Inr (fold (release_view os d) vs
      (if flavor q = kSynchronizedReadWrite then t else delete_counter lib (mReadPtr q) t))"
proof (cases "flavor q")
  case kSynchronizedReadWrite
  with assms(1) have "mapGrantorDescr os d (of_nat READPTRPOS) s = Inr (mReadPtr q, s1)"
    by (auto simp: init_readPtr_def bind_res_eq_Inr)
  from mapped_then_released [OF this assms(2) _ assms(3)] obtain b where
    "viewed os d (READPTRPOS, b)"
    "\<And>t. unmap_member os q (mReadPtr q) READPTRPOS t = Inr (release_view os d (READPTRPOS, b) t)"
    by auto
  with kSynchronizedReadWrite that [of "[(READPTRPOS, b)]"] show ?thesis
    by (simp add: destroy_reader_def)
next
  case kUnsynchronizedWrite
  with assms(2) that [of "[]"] show ?thesis by (simp add: destroy_reader_def)
qed

lemma destroy_flag_views:
  assumes "init_eventFlag os lib d q0 s = Inr (q, s')" and "mEvFlagWord q0 = nullptr"
    and "mEventFlag q0 = None" and "mDesc q = Some d"
  obtains vs where "map fst vs = (if countGrantors d > EVFLAGWORDPOS then [EVFLAGWORDPOS] else [])"
    and "\<forall>v\<in>set vs. viewed os d v"
    and "\<And>sys t. destroy_flag sys os q t = Inr (fold (release_view os d) vs t)"
proof (cases "countGrantors d > EVFLAGWORDPOS")
  case False
  with init_eventFlag_word(1) [OF assms(1-3)] that [of "[]"] show ?thesis
    by (simp add: destroy_flag_def)
next
  case True
  note word = init_eventFlag_word [OF assms(1-3)]
  have quiet: "(case deleteEventFlag sys (Some (mEventFlag q)) t of (status, flag, t2) \<Rightarrow> Inr t2) = Inr t"
    for sys t
  proof -
    have "snd (snd (deleteEventFlag sys (Some (mEventFlag q)) t)) = t"
      by (rule deleteEventFlag_quiet) (rule word(2))
    then show ?thesis by (cases "deleteEventFlag sys (Some (mEventFlag q)) t") auto
  qed
  from True word(1) obtain s4 where
    m: "mapGrantorDescr os d (of_nat EVFLAGWORDPOS) s = Inr (mEvFlagWord q, s4)"
    and nz: "mEvFlagWord q \<noteq> nullptr" by auto
  from mapped_then_released [OF m nz _ assms(4)] obtain b where "viewed os d (EVFLAGWORDPOS, b)"
    "\<And>t. unmap_member os q (mEvFlagWord q) EVFLAGWORDPOS t =
      Inr (release_view os d (EVFLAGWORDPOS, b) t)"
    by auto
  with True nz that [of "[(EVFLAGWORDPOS, b)]"] show ?thesis
    by (simp add: destroy_flag_def quiet)
qed

section \<open>Attaching by an unreadable text\<close>

text \<open>
  C40: on Windows a process can be brought down from outside. If the text of the descriptor it
  receives does not parse, the constructor of the queue dereferences the null handle of the
  descriptor instead of giving an invalid queue, whatever else the descriptor holds.
\<close>

theorem unreadable_text_is_fatal:
  assumes "parse J (json_decriptor desc) = None" and "new_object lib s = (True, s1)"
  shows "MessageQueue_of_desc MSVC os lib fl tsize
    (fst (shim_of_win_desc J (handle_os.truncate lib) desc s)) reset s = Inl Undefined"
proof -
  let ?d = "\<lparr>mGrantors = [], mHandle = None, mQuantum = aidl_quantum desc,
    mFlags = aidl_flags desc, mName = ''''\<rparr>"
  have "\<exists>d. Shim_copy MSVC (handle_os.truncate lib) fl ?d s1 = Inr (d, s1) \<and> mHandle d = None"
    by (simp add: Shim_copy_def shim_of_size_ok Shim_assign_def Let_def)
  then obtain d where "Shim_copy MSVC (handle_os.truncate lib) fl ?d s1 = Inr (d, s1)"
    and "mHandle d = None"
    by blast
  then show ?thesis
    by (simp add: unreadable_text [OF assms(1)] MessageQueue_of_desc_def assms(2) split: prod.split)
qed

end
