(* ===== verification/Queue_Peer.thy ===== *)
theory Queue_Peer
  imports Queue_Lifetime
begin

text \<open>
  \<open>AidlMessageQueue.h\<close>, and two processes that share a queue: one creates it and sends its
  descriptor, the other makes a queue from what it received. The parts are those of the other
  theories; here they are put together.
\<close>

section \<open>The AIDL queue\<close>

text \<open>
  The constructor from a received descriptor builds a temporary \<open>AidlMQDescriptorShim\<close>, hands it to
  the constructor of the base class, and destroys it.
\<close>

definition AidlMessageQueue_of_desc ::
  "'w win \<Rightarrow> 'w libs \<Rightarrow> MQFlavor \<Rightarrow> size_t \<Rightarrow> AidlMQDescriptor \<Rightarrow> bool \<Rightarrow> 'w st \<Rightarrow>
     (MessageQueue \<times> 'w st) res" where
  "AidlMessageQueue_of_desc os lib fl tsize desc resetPointers s =
     bind_res (shim_of_desc (handle_os.truncate lib) desc s) (\<lambda>(shim, s1).
     bind_res (MessageQueue_of_desc POSIX os lib fl tsize shim resetPointers s1) (\<lambda>(q, s2).
     Inr (q, Shim_destroy (handle_os.truncate lib) shim s2)))"

definition win_AidlMessageQueue_of_desc ::
  "'j json \<Rightarrow> 'w win \<Rightarrow> 'w libs \<Rightarrow> MQFlavor \<Rightarrow> size_t \<Rightarrow> WinMQDescriptor \<Rightarrow> bool \<Rightarrow> 'w st \<Rightarrow>
     (MessageQueue \<times> 'w st) res" where
  "win_AidlMessageQueue_of_desc J os lib fl tsize desc resetPointers s =
     (case shim_of_win_desc J (handle_os.truncate lib) desc s of (shim, s1) \<Rightarrow>
     bind_res (MessageQueue_of_desc MSVC os lib fl tsize shim resetPointers s1) (\<lambda>(q, s2).
     Inr (q, Shim_destroy (handle_os.truncate lib) shim s2)))"

text \<open>
  The constructors of a new queue only forward; \<open>- 1\<close> is the empty \<open>unique_fd\<close>. The one with a
  name exists on Windows.
\<close>

definition AidlMessageQueue_create ::
  "platform \<Rightarrow> 'w win \<Rightarrow> 'w libs \<Rightarrow> MQFlavor \<Rightarrow> size_t \<Rightarrow> size_t \<Rightarrow> bool \<Rightarrow> int \<Rightarrow> size_t \<Rightarrow> 'w st \<Rightarrow>
     (MessageQueue \<times> 'w st) res" where
  "AidlMessageQueue_create pf os lib fl tsize numElementsInQueue configureEventFlagWord bufferFd
       bufferSize s =
     MessageQueue_create pf os lib fl tsize numElementsInQueue configureEventFlagWord bufferFd
       bufferSize '''' s"

definition AidlMessageQueue_new ::
  "platform \<Rightarrow> 'w win \<Rightarrow> 'w libs \<Rightarrow> MQFlavor \<Rightarrow> size_t \<Rightarrow> size_t \<Rightarrow> bool \<Rightarrow> 'w st \<Rightarrow>
     (MessageQueue \<times> 'w st) res" where
  "AidlMessageQueue_new pf os lib fl tsize numElementsInQueue configureEventFlagWord s =
     AidlMessageQueue_create pf os lib fl tsize numElementsInQueue configureEventFlagWord (- 1) 0 s"

definition AidlMessageQueue_named ::
  "'w win \<Rightarrow> 'w libs \<Rightarrow> MQFlavor \<Rightarrow> size_t \<Rightarrow> size_t \<Rightarrow> string \<Rightarrow> bool \<Rightarrow> 'w st \<Rightarrow>
     (MessageQueue \<times> 'w st) res" where
  "AidlMessageQueue_named os lib fl tsize numElementsInQueue name configureEventFlagWord s =
     MessageQueue_create MSVC os lib fl tsize numElementsInQueue configureEventFlagWord (- 1) 0 name s"

section \<open>Calls that succeed\<close>

text \<open>
  A budget of calls: while \<open>Room (Suc k)\<close> holds, the next call to the kernel, the allocator or the
  handle library succeeds and leaves \<open>Room k\<close>. A view of a mapping does not reach around the end
  of the address space, and an open descriptor, a positive \<open>int\<close>, has an open duplicate.
\<close>

definition open_fd :: "int \<Rightarrow> bool" where
  "open_fd fd \<longleftrightarrow> 0 < fd \<and> fd < 2 ^ 31"

definition supplies :: "'w win \<Rightarrow> 'w libs \<Rightarrow> (nat \<Rightarrow> 'w \<Rightarrow> bool) \<Rightarrow> bool" where
  "supplies os lib Room \<longleftrightarrow> (\<forall>k s. Room (Suc k) (snd s) \<longrightarrow>
     (fst (new_object lib s) \<and> Room k (snd (snd (new_object lib s)))) \<and>
     (\<forall>fd. open_fd fd \<longrightarrow> open_fd (fst (dup lib fd s)) \<and> Room k (snd (snd (dup lib fd s)))) \<and>
     (\<forall>f i. Room k (snd (snd (native_handle_create lib f i s)))) \<and>
     (\<forall>h. h \<noteq> 0 \<longrightarrow> fst (DuplicateHandle os h s) \<noteq> 0 \<and> Room k (snd (snd (DuplicateHandle os h s)))) \<and>
     (\<forall>m access hi lo len. m \<noteq> 0 \<and> 0 < len \<and> unat len < 2 ^ 31 \<longrightarrow>
        (case MapViewOfFileEx os m access hi lo len 0 s of (base, s') \<Rightarrow>
           base \<noteq> 0 \<and> base \<noteq> MAP_FAILED \<and> (\<forall>i<unat len. base + of_nat i \<noteq> 0) \<and> Room k (snd s'))) \<and>
     (fst (new_counter lib s) \<noteq> 0 \<and> Room k (snd (snd (new_counter lib s)))))"

lemma suppliesD:
  assumes "supplies os lib Room" and "Room (Suc k) (snd s)"
  shows "new_object lib s = (b, s1) \<Longrightarrow> b \<and> Room k (snd s1)"
    and "dup lib fd s = (fd', s1) \<Longrightarrow> open_fd fd \<Longrightarrow> open_fd fd' \<and> Room k (snd s1)"
    and "native_handle_create lib f i s = (nh, s1) \<Longrightarrow> Room k (snd s1)"
    and "DuplicateHandle os h s = (m, s1) \<Longrightarrow> h \<noteq> 0 \<Longrightarrow> m \<noteq> 0 \<and> Room k (snd s1)"
    and "MapViewOfFileEx os m access hi lo len 0 s = (base, s1) \<Longrightarrow> m \<noteq> 0 \<Longrightarrow> 0 < len \<Longrightarrow>
      unat len < 2 ^ 31 \<Longrightarrow>
      base \<noteq> 0 \<and> base \<noteq> MAP_FAILED \<and> (\<forall>i<unat len. base + of_nat i \<noteq> 0) \<and> Room k (snd s1)"
    and "new_counter lib s = (p, s1) \<Longrightarrow> p \<noteq> 0 \<and> Room k (snd s1)"
proof -
  note c = assms(1) [unfolded supplies_def, rule_format, OF assms(2)]
  note r1 = c [THEN conjunct2] note r2 = r1 [THEN conjunct2] note r3 = r2 [THEN conjunct2]
  note r4 = r3 [THEN conjunct2] note r5 = r4 [THEN conjunct2]
  show "new_object lib s = (b, s1) \<Longrightarrow> b \<and> Room k (snd s1)" using c [THEN conjunct1] by simp
  show "dup lib fd s = (fd', s1) \<Longrightarrow> open_fd fd \<Longrightarrow> open_fd fd' \<and> Room k (snd s1)"
    using r1 [THEN conjunct1, THEN spec, of fd] by simp
  show "native_handle_create lib f i s = (nh, s1) \<Longrightarrow> Room k (snd s1)"
    using r2 [THEN conjunct1, THEN spec, of f, THEN spec, of i] by simp
  show "DuplicateHandle os h s = (m, s1) \<Longrightarrow> h \<noteq> 0 \<Longrightarrow> m \<noteq> 0 \<and> Room k (snd s1)"
    using r3 [THEN conjunct1, THEN spec, of h] by simp
  show "MapViewOfFileEx os m access hi lo len 0 s = (base, s1) \<Longrightarrow> m \<noteq> 0 \<Longrightarrow> 0 < len \<Longrightarrow>
      unat len < 2 ^ 31 \<Longrightarrow>
      base \<noteq> 0 \<and> base \<noteq> MAP_FAILED \<and> (\<forall>i<unat len. base + of_nat i \<noteq> 0) \<and> Room k (snd s1)"
    using r4 [THEN conjunct1, THEN spec, of m, THEN spec, of access, THEN spec, of hi, THEN spec,
        of lo, THEN spec, of len] by simp
  show "new_counter lib s = (p, s1) \<Longrightarrow> p \<noteq> 0 \<and> Room k (snd s1)" using r5 by simp
qed

lemma mapGrantorDescr_succeeds:
  assumes sup: "supplies os lib Room" and room: "Room (Suc (Suc k)) (snd s)"
    and nh: "mHandle d = Some nh" "handle_data nh = [fd]" "open_fd fd"
    and i: "unat i < length (mGrantors d)" and g: "g = mGrantors d ! unat i" "fdIndex g = 0"
    and fits: "grantor_delta g + unat (extent g) < 2 ^ 31" "extent g \<noteq> 0"
  obtains p s' where "mapGrantorDescr os d i s = Inr (p, s')" and "p \<noteq> nullptr"
    and "Room k (snd s')"
proof -
  define len :: size_t where "len = scast (mapLength g)"
  have len: "unat len = grantor_delta g + unat (extent g)"
    unfolding len_def by (rule mapLength_exact [OF fits(1)])
  have pos: "0 < len" "grantor_delta g < unat len"
    using len fits(2) by (simp_all add: unat_gt_0 word_gt_0_no word_less_nat_alt)
  have fd: "(of_int fd :: ptr) \<noteq> 0" "(of_int fd :: ptr) \<noteq> INVALID_HANDLE_VALUE"
  proof -
    have u: "uint (of_int fd :: ptr) = fd" using nh(3) by (simp add: open_fd_def uint_word_of_int)
    then show "(of_int fd :: ptr) \<noteq> 0" using nh(3) by (auto simp: open_fd_def)
    have "uint INVALID_HANDLE_VALUE = 2 ^ 64 - 1"
      by (simp add: INVALID_HANDLE_VALUE_def unsigned_minus_1_eq_mask mask_eq_exp_minus_1)
    with u nh(3) show "(of_int fd :: ptr) \<noteq> INVALID_HANDLE_VALUE" by (auto simp: open_fd_def)
  qed
  obtain m s1 where m: "DuplicateHandle os (of_int fd) s = (m, s1)" by (rule prod.exhaust)
  obtain base s2 where v: "MapViewOfFileEx os m FILE_MAP_WRITE (HighPart (scast (mapOffset g)))
      (LowPart (scast (mapOffset g))) len 0 s1 = (base, s2)"
    by (rule prod.exhaust)
  note D1 = suppliesD(4) [OF sup room m fd(1)]
  have "unat len < 2 ^ 31" using len fits(1) by simp
  note D2 = suppliesD(5) [OF sup D1 [THEN conjunct2] v D1 [THEN conjunct1] pos(1) this]
  have "system_porting_mmap os 0 len (PROT_READ OR PROT_WRITE) MAP_SHARED (of_int fd) (mapOffset g) s =
      (base, s2)"
    unfolding mmap_shared_rw using fd m D1 v D2 by simp
  moreover have "ucast (offset g - mapOffset g) = (of_nat (grantor_delta g) :: ptr)"
    by (metis mapOffset_split(2) unat_ucast_32_64 word_of_nat_unat)
  ultimately have "mapGrantorDescr os d i s = Inr (base + of_nat (grantor_delta g), s2)"
    using nh(1,2) i g(2) D2 by (simp add: mapGrantorDescr_def g(1) [symmetric] len_def [symmetric] Let_def)
  with that D2 pos(2) show ?thesis by blast
qed

section \<open>Attaching succeeds\<close>

text \<open>A descriptor of the shape that the constructor of a new queue gives it.\<close>

definition plain_desc :: "MQFlavor \<Rightarrow> size_t \<Rightarrow> size_t \<Rightarrow> bool \<Rightarrow> Shim \<Rightarrow> bool" where
  "plain_desc fl tsize B ev d \<longleftrightarrow> mGrantors d = default_grantors B ev \<and> getQuantum d = tsize \<and>
     mFlags d = MQFlavor_value fl \<and> 16 + unat B \<le> 2147483640 \<and> B \<noteq> 0 \<and> unat tsize < 2 ^ 31"

lemma default_grantor_fits:
  assumes "16 + unat B \<le> 2147483640" and "B \<noteq> 0" and "g \<in> set (default_grantors B ev)"
  shows "fdIndex g = 0" and "grantor_delta g + unat (extent g) < 2 ^ 31" and "extent g \<noteq> 0"
  using assms unat_offset_default [OF assms(1)]
  by (auto simp: default_grantors_def grantor_delta_def split: if_splits intro: le_less_trans)

lemma plain_desc_maps:
  assumes sup: "supplies os lib Room" and room: "Room (Suc (Suc k)) (snd s)"
    and d: "plain_desc fl tsize B ev d"
    and nh: "mHandle d = Some nh" "handle_data nh = [fd]" "open_fd fd"
    and i: "i < length (mGrantors d)"
  obtains p s' where "mapGrantorDescr os d (of_nat i) s = Inr (p, s')" and "p \<noteq> nullptr"
    and "Room k (snd s')"
proof -
  have "i < 4" using d i by (auto simp: plain_desc_def default_grantors_def split: if_splits)
  then have u: "unat (of_nat i :: u32) = i" by (simp add: unat_of_nat take_bit_eq_mod)
  have "mGrantors d ! i \<in> set (default_grantors B ev)" using d i nth_mem by (metis plain_desc_def)
  note fits = default_grantor_fits [OF _ _ this]
  show ?thesis
    by (rule mapGrantorDescr_succeeds [OF sup room nh, of "of_nat i" "mGrantors d ! i"])
      (use that d i u fits in \<open>auto simp: plain_desc_def\<close>)
qed

lemma initMemory_succeeds:
  assumes sup: "supplies os lib Room" and room: "Room (k + 9) (snd s)"
    and d: "plain_desc fl tsize B ev d"
    and nh: "mHandle d = Some nh" "handle_data nh = [fd]" "open_fd fd"
  obtains q s' where
    "initMemory os lib reset ((empty_queue fl tsize)\<lparr>mDesc := Some d\<rparr>) s = Inr (q, s')"
    and "isValid q" and "mDesc q = Some d" and "flavor q = fl" and "sizeofT q = tsize"
proof -
  let ?q = "(empty_queue fl tsize)\<lparr>mDesc := Some d\<rparr>"
  have g: "mGrantors d = default_grantors B ev" and small: "16 + unat B \<le> 2147483640"
    and quantum: "getQuantum d = tsize" using d by (simp_all add: plain_desc_def)
  have count: "length (mGrantors d) = (if ev then 4 else 3)" by (simp add: g default_grantors_def)
  have guards: "isHandleValid d" "\<not> countGrantors d < kMinGrantorCount"
    "\<forall>g\<in>set (mGrantors d). isAlignedToWordBoundary (ucast (offset g))"
    using nh(1) count default_grantors_layout(2) [OF small, of ev]
    by (simp_all add: isHandleValid_def countGrantors_def g grantors_aligned_def)
  note map = plain_desc_maps [OF sup _ d nh]
  have "\<exists>rd s1. init_readPtr os lib fl d s = Inr (rd, s1) \<and> rd \<noteq> 0 \<and>
      (\<exists>j. Room (Suc (Suc (Suc (Suc (Suc (Suc (Suc j))))))) (snd s1))"
  proof (cases "fl = kSynchronizedReadWrite")
    case True
    have "Room (Suc (Suc (k + 7))) (snd s)" using room by (simp add: eval_nat_numeral)
    then obtain p s1 where "mapGrantorDescr os d (of_nat READPTRPOS) s = Inr (p, s1)" "p \<noteq> nullptr"
      "Room (k + 7) (snd s1)"
      by (rule map [of _ _ READPTRPOS]) (use count in auto)
    with True show ?thesis by (auto simp: init_readPtr_def eval_nat_numeral)
  next
    case False
    obtain p s1 where n: "new_counter lib s = (p, s1)" by (rule prod.exhaust)
    have "Room (Suc (k + 8)) (snd s)" using room by (simp add: eval_nat_numeral)
    from suppliesD(6) [OF sup this n] have "p \<noteq> 0" "Room (k + 8) (snd s1)" by simp_all
    with False n show ?thesis
      by (auto simp: init_readPtr_def eval_nat_numeral intro!: exI [of _ "Suc k"])
  qed
  then obtain rd s1 j where rd: "init_readPtr os lib fl d s = Inr (rd, s1)" "rd \<noteq> 0"
    and r1: "Room (Suc (Suc (Suc (Suc (Suc (Suc (Suc j))))))) (snd s1)" by blast
  obtain wr s2 where wr: "mapGrantorDescr os d (of_nat WRITEPTRPOS) s1 = Inr (wr, s2)" "wr \<noteq> 0"
    and r2: "Room (Suc (Suc (Suc (Suc (Suc j))))) (snd s2)"
    by (rule map [OF r1, of WRITEPTRPOS]) (use count in auto)
  have "\<exists>h. init_counters fl reset rd wr (fst s2) = Inr h"
    using rd(2) wr(2) by (simp add: init_counters_def)
  then obtain h where h: "init_counters fl reset rd wr (fst s2) = Inr h" by blast
  have "Room (Suc (Suc (Suc (Suc (Suc j))))) (snd (h, snd s2))" using r2 by simp
  then obtain ring s3 where ring: "mapGrantorDescr os d (of_nat DATAPTRPOS) (h, snd s2) = Inr (ring, s3)"
    "ring \<noteq> 0" and r3: "Room (Suc (Suc (Suc j))) (snd s3)"
    by (rule map [of _ _ DATAPTRPOS]) (use count in auto)
  let ?q3 = "?q\<lparr>mReadPtr := rd, mWritePtr := wr, mRing := ring\<rparr>"
  have "\<exists>q s'. init_eventFlag os lib d ?q3 s3 = Inr (q, s')"
  proof (cases ev)
    case True
    obtain p s4 where "mapGrantorDescr os d (of_nat EVFLAGWORDPOS) s3 = Inr (p, s4)" "p \<noteq> nullptr"
      by (rule map [OF r3, of EVFLAGWORDPOS]) (use count True in auto)
    then show ?thesis
      by (cases "new_object lib s4") (auto simp: init_eventFlag_def split: prod.splits)
  next
    case False
    with count show ?thesis by (simp add: init_eventFlag_def countGrantors_def)
  qed
  then obtain q s' where ev: "init_eventFlag os lib d ?q3 s3 = Inr (q, s')" by blast
  have q: "isValid q" "mDesc q = Some d" "flavor q = fl" "sizeofT q = tsize"
    using init_eventFlag_result [OF ev] rd(2) wr(2) ring(2)
    by (elim disjE exE conjE; simp add: isValid_def empty_queue_def)+
  have "initMemory os lib reset ?q s = Inr (q, s')"
    using guards quantum rd wr h ring ev by (simp add: initMemory_def empty_queue_def)
  with that q show ?thesis by blast
qed

section \<open>Sending a queue\<close>

lemma created_desc:
  assumes run: "MessageQueue_create POSIX os lib fl tsize n ev (- 1) bufferSize name s = Inr (q, s')"
    and valid: "isValid q" and ne: "tsize \<noteq> 0" "n \<noteq> 0"
    and handles: "creates_handles (handle_os.truncate lib)"
  obtains d fd where "plain_desc fl tsize (n * tsize) ev d" and "mName d = ''''"
    and "mHandle d = Some \<lparr>numFds = 1, numInts = 0, handle_data = [fd]\<rparr>"
    and "mDesc q = Some d" and "flavor q = fl" and "sizeofT q = tsize" and "n \<le> - 1 div tsize"
proof (rule create_details [OF run valid], unfold platform.case)
  fix d0 d :: Shim and nh0 nh s1 fd t
  assume c: "native_handle_create lib 1 0 s = (Some nh0, s1)" and sh: "set_handle_data 0 fd nh0 = Inr nh"
    and shim: "shim_of_size fl (n * tsize) (Some nh) tsize ev = Inr d0" and d: "d = d0"
    and le: "n \<le> - 1 div tsize"
    and im: "initMemory os lib True ((empty_queue fl tsize)\<lparr>mDesc := Some d\<rparr>) t = Inr (q, s')"
  let ?q = "(empty_queue fl tsize)\<lparr>mDesc := Some d\<rparr>"
  have nv: "\<not> isValid ?q" by (simp add: isValid_def empty_queue_def)
  have "mGrantors d0 \<noteq> []" using im valid nv d by (auto simp: initMemory_def countGrantors_def)
  note made = shim_of_size_made [OF shim this]
  have "n * tsize \<noteq> 0"
    using ring_size_exact [OF le] ne by (metis mult_eq_0_iff unat_0 unat_eq_zero)
  moreover have whole: "d0 = \<lparr>mGrantors = default_grantors (n * tsize) ev, mHandle = Some nh,
      mQuantum = ucast tsize, mFlags = MQFlavor_value fl, mName = ''''\<rparr>"
    using shim_of_size_ok [OF made(1,2), of fl "Some nh" ev] shim by simp
  ultimately have plain: "plain_desc fl tsize (n * tsize) ev d" "mName d = ''''" "mHandle d = Some nh"
    using made d by (simp_all add: plain_desc_def)
  have "numFds nh0 = 1 \<and> numInts nh0 = 0 \<and> length (handle_data nh0) = 1"
    using creates_handlesD [OF handles, of 1 0 s] c by (auto simp: handle_os.truncate_def)
  then have "nh = \<lparr>numFds = 1, numInts = 0, handle_data = [fd]\<rparr>"
    using sh by (cases nh0) (auto simp: set_handle_data_def length_Suc_conv split: if_splits)
  moreover have "mDesc q = Some d \<and> flavor q = fl \<and> sizeofT q = tsize"
    by (rule initMemory_parts [OF im _ nv valid], simp)
      (use init_eventFlag_result in \<open>fastforce simp: empty_queue_def\<close>)
  ultimately show thesis using that plain le by blast
qed

text \<open>All of its numbers fit the signed fields of AIDL.\<close>

lemma plain_sendable:
  assumes d: "plain_desc fl tsize B ev d" and nh: "mHandle d = Some nh" "handle_ok nh"
  shows "sendable d"
proof -
  have small: "16 + unat B \<le> 2147483640" using d by (simp add: plain_desc_def)
  have pos32: "\<not> negative32 x" if "unat x < 2 ^ 31" for x
    using that by (simp add: negative32_def sint_small)
  have pos64: "\<not> negative64 x" if "unat x < 2 ^ 31" for x
    using that by (simp add: negative64_def sint64_small)
  have "unat (mQuantum d) = unat (getQuantum d)" by (simp add: getQuantum_def)
  then have "unat (mQuantum d) < 2 ^ 31" using d by (simp add: plain_desc_def)
  moreover have "unat (mFlags d) < 2 ^ 31" using d by (cases fl) (simp_all add: plain_desc_def)
  moreover have "flags g = 0 \<and> unat (offset g) < 2 ^ 31 \<and> unat (extent g) < 2 ^ 31 \<and> fdIndex g = 0"
    if "g \<in> set (mGrantors d)" for g
    using that d small unat_offset_default [OF small] round_up8_bounds(2) [of "16 + unat B"]
    by (auto simp: plain_desc_def default_grantors_def split: if_splits)
  ultimately show ?thesis
    using nh pos32 pos64 pos32 [of 0] by (auto simp: sendable_def)
qed

lemma attach_to_shim:
  assumes sup: "supplies os lib Room" and room: "Room (Suc (Suc (Suc 9))) (snd s)"
    and d: "plain_desc fl tsize B ev d"
    and nh: "mHandle d = Some nh" "numFds nh = 1" "numInts nh = 0" "handle_data nh = [fd]" "open_fd fd"
    and handles: "creates_handles (handle_os.truncate lib)"
  obtains q d' s' where "MessageQueue_of_desc POSIX os lib fl tsize d reset s = Inr (q, s')"
    and "isValid q" and "mDesc q = Some d'" and "flavor q = fl" and "sizeofT q = tsize"
    and "mGrantors d' = mGrantors d" and "getQuantum d' = getQuantum d"
proof -
  obtain b s1 where n: "new_object lib s = (b, s1)" by (rule prod.exhaust)
  note room1 = suppliesD(1) [OF sup room n]
  have ok: "handle_ok nh" using nh by (simp add: handle_ok_def)
  obtain d' nh' t fds s2 nh0 where copy: "Shim_copy POSIX (handle_os.truncate lib) fl d s1 = Inr (d', s2)"
    and d': "mGrantors d' = mGrantors d" "getQuantum d' = getQuantum d" "getFlags d' = getFlags d"
      "mHandle d' = Some nh'"
    and create: "native_handle_create (handle_os.truncate lib) 1 0 s1 = (Some nh0, t)"
    and dups: "map_calls (dup (handle_os.truncate lib)) [fd] t = (fds, s2)" "handle_data nh' = fds"
    using shim_copy_made [OF nh(1) ok handles, of POSIX fl s1] nh(2,3,4) by auto
  have create': "native_handle_create lib 1 0 s1 = (Some nh0, t)"
    using create by (simp add: handle_os.truncate_def)
  note room2 = suppliesD(3) [OF sup room1 [THEN conjunct2] create']
  obtain fd' where dup: "dup lib fd t = (fd', s2)" and fds: "fds = [fd']"
    using dups(1) by (auto simp: handle_os.truncate_def split: prod.splits)
  note room3 = suppliesD(2) [OF sup room2 dup nh(5)]
  have p: "plain_desc fl tsize B ev d'" using d d' by (simp add: plain_desc_def getFlags_def)
  have "Room (0 + 9) (snd s2)" using room3 by simp
  then obtain q s' where "initMemory os lib reset ((empty_queue fl tsize)\<lparr>mDesc := Some d'\<rparr>) s2 = Inr (q, s')"
    "isValid q" "mDesc q = Some d'" "flavor q = fl" "sizeofT q = tsize"
    by (rule initMemory_succeeds [OF sup _ p d'(4)]) (use dups(2) fds room3 in auto)
  with that n room1 copy d'(1,2) show ?thesis by (simp add: MessageQueue_of_desc_def)
qed

text \<open>The descriptors of the shared memory that a queue holds are open.\<close>

definition memory_open :: "MessageQueue \<Rightarrow> bool" where
  "memory_open q \<longleftrightarrow> (\<forall>d nh. mDesc q = Some d \<and> mHandle d = Some nh \<longrightarrow> list_all open_fd (handle_data nh))"

text \<open>
  C28: a queue can be handed on. If a process has made a queue that reports itself valid, on
  memory whose descriptor is open, then what \<open>dupeDesc\<close> sends at any later time lets the receiver make a valid queue from it, provided
  that the calls of the system it needs succeed: it has the same flavor, the same message size and
  the same number of messages, and maps the same ranges of the same region.
\<close>

theorem handed_on_queue_is_valid:
  assumes created: "AidlMessageQueue_new POSIX os lib fl tsize n ev s = Inr (q, s')"
    and valid: "isValid q" and ne: "tsize \<noteq> 0" "n \<noteq> 0" and mem: "memory_open q"
    and handles: "creates_handles (handle_os.truncate lib)"
    and sup: "supplies os lib Room" and room: "Room 15 (snd t)"
  shows "\<exists>desc t1 peer t2. dupeDesc (handle_os.truncate lib) (mDesc q) t = Inr (desc, t1) \<and>
    AidlMessageQueue_of_desc os lib fl tsize desc reset t1 = Inr (peer, t2) \<and> isValid peer \<and>
    flavor peer = flavor q \<and> sizeofT peer = sizeofT q \<and> ring_size peer = ring_size q \<and>
    getQuantumCount peer = Inr n \<and>
    map_option mGrantors (mDesc peer) = map_option mGrantors (mDesc q)"
proof -
  let ?ho = "handle_os.truncate lib"
  have "MessageQueue_create POSIX os lib fl tsize n ev (- 1) 0 '''' s = Inr (q, s')"
    using created by (simp add: AidlMessageQueue_new_def AidlMessageQueue_create_def)
  then obtain d fd where d: "plain_desc fl tsize (n * tsize) ev d" "mName d = ''''"
    and nh: "mHandle d = Some \<lparr>numFds = 1, numInts = 0, handle_data = [fd]\<rparr>"
    and q: "mDesc q = Some d" "flavor q = fl" "sizeofT q = tsize" and le: "n \<le> - 1 div tsize"
    by (rule created_desc [OF _ valid ne handles])
  have ok: "handle_ok \<lparr>numFds = 1, numInts = 0, handle_data = [fd]\<rparr>" by (simp add: handle_ok_def)
  have fd: "open_fd fd" using mem q(1) nh by (simp add: memory_open_def)
  obtain fd1 t1 where dup1: "dup lib fd t = (fd1, t1)" by (rule prod.exhaust)
  have "Room (Suc 14) (snd t)" using room by (simp add: eval_nat_numeral)
  note room1 = suppliesD(2) [OF sup this dup1 fd]
  have sent: "map_calls (dup ?ho) (take (nat (numFds \<lparr>numFds = 1, numInts = 0, handle_data = [fd]\<rparr>))
      (handle_data \<lparr>numFds = 1, numInts = 0, handle_data = [fd]\<rparr>)) t = ([fd1], t1)"
    using dup1 by (simp add: handle_os.truncate_def)
  obtain desc nh' received t3 t2 nh0 where dupe: "dupeDesc ?ho (Some d) t = Inr (desc, t1)"
    and shim: "shim_of_desc ?ho desc t1 = Inr (d\<lparr>mHandle := Some nh'\<rparr>, t3)"
    and create: "native_handle_create ?ho 1 0 t1 = (Some nh0, t2)"
    and nh': "numFds nh' = 1" "numInts nh' = 0" "handle_data nh' = received"
    and dups: "map_calls (dup ?ho) [fd1] t2 = (received, t3)"
    using exchange_round_trip [OF plain_sendable [OF d(1) nh ok] handles nh d(2) sent] by auto
  have create': "native_handle_create lib 1 0 t1 = (Some nh0, t2)"
    using create by (simp add: handle_os.truncate_def)
  have "Room (Suc 13) (snd t1)" using room1 by (simp add: eval_nat_numeral)
  note room2 = suppliesD(3) [OF sup this create']
  obtain fd2 where dup2: "dup lib fd1 t2 = (fd2, t3)" "received = [fd2]"
    using dups by (auto simp: handle_os.truncate_def split: prod.splits)
  have "Room (Suc 12) (snd t2)" using room2 by (simp add: eval_nat_numeral)
  from suppliesD(2) [OF sup this dup2(1)] room1 have fd2: "open_fd fd2"
    and room3: "Room (Suc (Suc (Suc 9))) (snd t3)"
    by (simp_all add: eval_nat_numeral)
  let ?shim = "d\<lparr>mHandle := Some nh'\<rparr>"
  have plain: "plain_desc fl tsize (n * tsize) ev ?shim" using d(1) by (simp add: plain_desc_def getQuantum_def)
  obtain peer d' t4 where attach: "MessageQueue_of_desc POSIX os lib fl tsize ?shim reset t3 = Inr (peer, t4)"
    and peer: "isValid peer" "mDesc peer = Some d'" "flavor peer = fl" "sizeofT peer = tsize"
    and d': "mGrantors d' = mGrantors ?shim" "getQuantum d' = getQuantum ?shim"
    by (rule attach_to_shim [OF sup room3 plain _ nh'(1,2), of fd2]) (use nh'(3) dup2(2) fd2 handles in auto)
  have "AidlMessageQueue_of_desc os lib fl tsize desc reset t1 =
      Inr (peer, Shim_destroy ?ho ?shim t4)"
    by (simp add: AidlMessageQueue_of_desc_def shim attach)
  moreover have "getSize d' = n * tsize" "getSize d = n * tsize"
    using d(1) d'(1) by (simp_all add: getSize_def plain_desc_def default_grantors_def)
  moreover have "(n * tsize) div tsize = n"
  proof -
    have "unat ((n * tsize) div tsize) = unat n"
      using ne(1) by (simp add: unat_div ring_size_exact [OF le] unat_gt_0)
    then show ?thesis by (metis word_of_nat_unat)
  qed
  moreover have "getQuantum d' = tsize"
    using d(1) d'(2) by (simp add: plain_desc_def getQuantum_def)
  ultimately have "getQuantumCount peer = Inr n" "ring_size peer = ring_size q"
    using ne(1) peer(2,4) q(1) by (simp_all add: getQuantumCount_def deref_desc_def ring_size_def)
  with \<open>AidlMessageQueue_of_desc os lib fl tsize desc reset t1 = _\<close> dupe q peer d'(1) show ?thesis
    by auto
qed

end
