(* ===== verification/Queue_Slots.thy ===== *)
theory Queue_Slots
  imports Queue_Fine
begin

text \<open>
  The transactions that \<open>beginWrite\<close> and \<open>beginRead\<close> hand to a client of the zero-copy
  interface, seen through \<open>getSlot\<close>.
\<close>

section \<open>What a begun transaction is\<close>

lemma within_exec:
  "within p k Q \<Longrightarrow> exec p h = Inr (x, h') \<Longrightarrow> Q x"
proof (induction p arbitrary: k h)
  case (LoadC mo a f)
  from LoadC.prems LoadC.IH [OF rangeI] show ?case by (cases k) auto
next
  case (LoadB a f)
  from LoadB.prems LoadB.IH [OF rangeI] show ?case by (cases k) auto
next
  case (StoreC mo a v f)
  from StoreC.prems StoreC.IH show ?case by (cases k) auto
next
  case (StoreB a v f)
  from StoreB.prems StoreB.IH show ?case by (cases k) auto
qed simp_all

lemma beginWrite_granted:
  "beginWrite q h n tx0 = Inr (True, tx) \<Longrightarrow> beginWrite q h n tx1 = Inr (True, tx)"
  by (cases "availableToWrite q h"; cases "getQuantumCount q"; cases "load64 h (mWritePtr q)";
      cases "deref_desc q")
    (simp_all add: beginWrite_def Let_def split: if_split_asm)

lemma begun_by_calls:
  assumes wf: "queue_wf q" and small: "msg_bytes q n < 18446744073709551616"
    and run: "beginWrite q h n tx0 = Inr (True, tx) \<or> beginRead q h n = Inr (True, tx, h')"
  shows "begun_at q n (True, tx)"
  using run
proof
  assume "beginWrite q h n tx0 = Inr (True, tx)"
  from beginWrite_granted [OF this, of MemTransaction_default]
  have "exec (beginWrite_prog q n MemTransaction_default) h = Inr ((True, tx), h)"
    by (simp add: exec_beginWrite)
  then show ?thesis by (rule within_exec [OF within_beginWrite [OF wf]])
next
  assume "beginRead q h n = Inr (True, tx, h')"
  then have "exec (beginRead_prog q n) h = Inr ((True, tx), h')" by (simp add: exec_beginRead)
  then show ?thesis by (rule within_exec [OF within_beginRead [OF wf small]])
qed

text \<open>Slot \<open>k\<close> of the ring.\<close>

definition ring_slot :: "MessageQueue \<Rightarrow> nat \<Rightarrow> ptr" where
  "ring_slot q k = mRing q + of_nat (k * unat (sizeofT q))"

lemma tx_slot:
  assumes st: "ring_stretch q S p n" and i: "i < unat n"
  obtains k where "(k + 1) * unat (sizeofT q) \<le> unat S"
    and "tx_addr (sizeofT q) (ring_tx q S p n) (i * unat (sizeofT q)) = ring_slot q k"
proof -
  let ?z = "unat (sizeofT q)"
  note D = ring_stretchD [OF st] and rest = rest_bytes [OF st] and found = that
  have "?z dvd ring_off S p" unfolding ring_off_def using D(3,4) by (rule dvd_mod [rotated])
  then obtain o' where o': "ring_off S p = o' * ?z" by (metis dvdE mult.commute)
  have total: "(o' + ring_rest q S p) * ?z = unat S"
    using rest D(6) by (simp add: add_mult_distrib flip: o')
  have low: thesis if less: "i < unat (region_length (first (ring_tx q S p n)))" "i < ring_rest q S p"
    and at: "address (first (ring_tx q S p n)) = mRing q + of_nat (ring_off S p)"
  proof (rule found [of "o' + i"])
    have "(o' + i + 1) * ?z \<le> (o' + ring_rest q S p) * ?z" using less by (intro mult_le_mono1) simp
    then show "(o' + i + 1) * ?z \<le> unat S" by (simp only: total)
    have "i * ?z < unat (region_length (first (ring_tx q S p n))) * ?z" using less D(2) by simp
    then show "tx_addr (sizeofT q) (ring_tx q S p n) (i * ?z) = ring_slot q (o' + i)"
      by (simp add: tx_addr_def at ring_slot_def o' add_mult_distrib algebra_simps)
  qed
  show ?thesis
  proof (cases rule: ring_tx_cases [of q S p n])
    case straight
    with i show ?thesis by (intro low) simp_all
  next
    case wrap
    show ?thesis
    proof (cases "i < ring_rest q S p")
      case True
      with wrap show ?thesis by (intro low) simp_all
    next
      case False
      show ?thesis
      proof (rule found [of "i - ring_rest q S p"])
        have "(i - ring_rest q S p + 1) * ?z \<le> (unat n - ring_rest q S p) * ?z"
          using False i by (intro mult_le_mono1) simp
        with wrap_bytes [OF st wrap(1)] D(6)
        show "(i - ring_rest q S p + 1) * ?z \<le> unat S" by linarith
        show "tx_addr (sizeofT q) (ring_tx q S p n) (i * ?z) = ring_slot q (i - ring_rest q S p)"
          using False D(2) wrap by (simp add: tx_addr_def ring_slot_def diff_mult_distrib)
      qed
    qed
  qed
qed

text \<open>
  C12: what a client gets from \<open>beginWrite\<close> or \<open>beginRead\<close> is well formed, in whatever state the
  counters are: a transaction of exactly the messages it asked for, in two regions that do not
  overlap, each of whose slots is a whole slot of the ring.
\<close>

theorem begun_transactions_fit:
  assumes "queue_wf q" and "msg_bytes q n < 2 ^ 64"
    and "beginWrite q h n tx0 = Inr (True, tx) \<or> beginRead q h n = Inr (True, tx, h')"
  shows "tx_ok (sizeofT q) tx \<and> tx_length tx = unat n \<and>
    (\<forall>i<n. \<exists>k. getSlot (sizeofT q) tx i = ring_slot q k \<and>
      (k + 1) * unat (sizeofT q) \<le> unat (ring_size q))"
proof -
  have "begun_at q n (True, tx)" using assms by (intro begun_by_calls) simp_all
  then obtain p where tx: "tx = ring_tx q (ring_size q) p n"
    and st: "ring_stretch q (ring_size q) p n"
    by (auto simp: begun_at_def)
  note ok = ring_tx_ok [OF st, folded tx]
  have len: "tx_length tx = unat n" by (simp add: tx ring_tx_length)
  have "\<exists>k. getSlot (sizeofT q) tx i = ring_slot q k \<and>
      (k + 1) * unat (sizeofT q) \<le> unat (ring_size q)" if "i < n" for i
  proof -
    have i: "unat i < unat n" using that by (simp add: word_less_nat_alt)
    obtain k where "(k + 1) * unat (sizeofT q) \<le> unat (ring_size q)"
      and "tx_addr (sizeofT q) (ring_tx q (ring_size q) p n) (unat i * unat (sizeofT q)) = ring_slot q k"
      using st i by (rule tx_slot)
    then show ?thesis using i by (auto simp: getSlot_cases [OF ok] len simp flip: tx)
  qed
  with ok len show ?thesis by blast
qed

end
