(* ===== verification/Slot_Copies.thy ===== *)
theory Slot_Copies
  imports Mem_Transaction
begin

text \<open>
  The two ways to use a \<open>MemTransaction\<close> of \<open>include/fmq/MessageQueueBase.h\<close> are the same:
  \<open>copyTo\<close> and \<open>copyFrom\<close> move all messages in at most two pieces, a client of \<open>getSlot\<close> moves them
  one by one.
\<close>

section \<open>Message by message\<close>

text \<open>
  The loops \<open>*tx.getSlot(startIdx + i) = data[i]\<close> and \<open>data[i] = *tx.getSlot(startIdx + i)\<close> for the
  first \<open>k\<close> messages. An assignment of a message moves its bytes.
\<close>

primrec fill_slots ::
  "size_t \<Rightarrow> MemTransaction \<Rightarrow> size_t \<Rightarrow> ptr \<Rightarrow> nat \<Rightarrow> heap \<Rightarrow> heap res" where
  "fill_slots tsize tx startIdx data 0 h = Inr h"
| "fill_slots tsize tx startIdx data (Suc k) h =
     bind_res (fill_slots tsize tx startIdx data k h) (\<lambda>h1.
     memcpy h1 (getSlot tsize tx (startIdx + of_nat k)) (data + of_nat (k * unat tsize)) tsize)"

primrec take_slots ::
  "size_t \<Rightarrow> MemTransaction \<Rightarrow> size_t \<Rightarrow> ptr \<Rightarrow> nat \<Rightarrow> heap \<Rightarrow> heap res" where
  "take_slots tsize tx startIdx data 0 h = Inr h"
| "take_slots tsize tx startIdx data (Suc k) h =
     bind_res (take_slots tsize tx startIdx data k h) (\<lambda>h1.
     memcpy h1 (data + of_nat (k * unat tsize)) (getSlot tsize tx (startIdx + of_nat k)) tsize)"

section \<open>Transfers\<close>

text \<open>
  \<open>h'\<close> is \<open>h\<close> after the transfer of \<open>N\<close> bytes, byte \<open>i\<close> from \<open>src i\<close> to \<open>dst i\<close>.
\<close>

definition moved :: "(nat \<Rightarrow> ptr) \<Rightarrow> (nat \<Rightarrow> ptr) \<Rightarrow> nat \<Rightarrow> heap \<Rightarrow> heap \<Rightarrow> bool" where
  "moved dst src N h h' \<longleftrightarrow> words64 h' = words64 h \<and> words32 h' = words32 h \<and>
     (\<forall>i<N. bytes h' (dst i) = bytes h (src i)) \<and>
     (\<forall>a. (\<forall>i<N. a \<noteq> dst i) \<longrightarrow> bytes h' a = bytes h a)"

lemma moved_zero: "moved dst src 0 h h' \<Longrightarrow> h' = h"
  by (cases h; cases h') (auto simp: moved_def)

text \<open>One more message: where two transfers agree so far, the longer one is their next step.\<close>

lemma moved_extend:
  assumes part: "moved dst src N h h1" and all: "moved dst src (N + unat z) h h'"
    and dis: "disjoint_ranges d (unat z) s (unat z)"
    and at: "\<And>j. j < unat z \<Longrightarrow> d + of_nat j = dst (N + j) \<and> s + of_nat j = src (N + j)"
    and apart: "\<And>i j. i < N \<Longrightarrow> j < N + unat z \<Longrightarrow> src j \<noteq> dst i"
  shows "memcpy h1 d s z = Inr h'"
proof -
  obtain h2 where h2: "memcpy h1 d s z = Inr h2" "words64 h2 = words64 h1" "words32 h2 = words32 h1"
    "\<And>i. i < unat z \<Longrightarrow> bytes h2 (d + of_nat i) = bytes h1 (s + of_nat i)"
    "\<And>a. (\<And>i. i < unat z \<Longrightarrow> a \<noteq> d + of_nat i) \<Longrightarrow> bytes h2 a = bytes h1 a"
    using memcpy_ok [OF dis, of h1] by blast
  have same: "bytes h2 a = bytes h' a" for a
  proof (cases "\<exists>j<unat z. a = dst (N + j)")
    case True
    then obtain j where j: "j < unat z" "a = dst (N + j)" by blast
    have "bytes h1 (src (N + j)) = bytes h (src (N + j))"
      using part apart [of _ "N + j"] j(1) by (simp add: moved_def)
    then show ?thesis using h2(4) [OF j(1)] at [OF j(1)] j all by (simp add: moved_def)
  next
    case False
    then have keep: "bytes h2 a = bytes h1 a" using at by (intro h2(5)) auto
    show ?thesis
    proof (cases "\<exists>i<N. a = dst i")
      case True
      then show ?thesis using part all keep by (auto simp: moved_def)
    next
      case none: False
      have "a \<noteq> dst i" if "i < N + unat z" for i
      proof (cases "i < N")
        case True
        with none show ?thesis by blast
      next
        case False
        then have "i = N + (i - N)" "i - N < unat z" using that by simp_all
        with \<open>\<not> (\<exists>j<unat z. a = dst (N + j))\<close> show ?thesis by metis
      qed
      then show ?thesis using none part all keep by (simp add: moved_def)
    qed
  qed
  have "words64 h2 = words64 h'" "words32 h2 = words32 h'"
    using part all h2(2,3) by (simp_all add: moved_def)
  with same have "h2 = h'" by (cases h2; cases h') auto
  with h2(1) show ?thesis by simp
qed

section \<open>The bytes of a slot\<close>

lemma slot_bytes:
  assumes ok: "tx_ok tsize tx" and i: "unat startIdx + k < tx_length tx" and j: "j < unat tsize"
  shows "getSlot tsize tx (startIdx + of_nat k) + of_nat j =
    tx_addr tsize tx (unat startIdx * unat tsize + (k * unat tsize + j))"
proof -
  let ?z = "unat tsize" and ?m = "unat startIdx + k" and ?l = "unat (region_length (first tx))"
  have "?m < 18446744073709551616" using i tx_length_small [OF ok] by linarith
  then have "unat (of_nat ?m :: u64) = ?m" by (rule unat_of_nat_u64)
  then have idx: "unat (startIdx + of_nat k) = ?m" by simp
  have "tx_addr tsize tx (?m * ?z) + of_nat j = tx_addr tsize tx (?m * ?z + j)"
  proof (cases "?m < ?l")
    case True
    have "?m * ?z + j < (?m + 1) * ?z" using j by simp
    also have "\<dots> \<le> ?l * ?z" using True by (intro mult_le_mono1) simp
    finally show ?thesis using True j by (simp add: tx_addr_def)
  next
    case False
    then have le: "?l * ?z \<le> ?m * ?z" by (intro mult_le_mono1) simp
    then have "\<not> ?m * ?z + j < ?l * ?z" "\<not> ?m * ?z < ?l * ?z" by linarith+
    moreover have "?m * ?z + j - ?l * ?z = (?m * ?z - ?l * ?z) + j" using le by linarith
    ultimately show ?thesis
      unfolding tx_addr_def if_not_P [OF \<open>\<not> ?m * ?z + j < ?l * ?z\<close>] if_not_P [OF \<open>\<not> ?m * ?z < ?l * ?z\<close>]
      by (simp only: of_nat_add add.assoc)
  qed
  then show ?thesis
    by (simp add: getSlot_cases [OF ok] idx i add_mult_distrib add.assoc)
qed

lemma tx_addr_apart:
  assumes "buffer_apart tsize tx data N" and "i < tx_length tx * unat tsize" and "j < N"
  shows "data + of_nat j \<noteq> tx_addr tsize tx i"
proof (cases "i < unat (region_length (first tx)) * unat tsize")
  case True
  have "disjoint_ranges data N (address (first tx)) (unat (region_length (first tx)) * unat tsize)"
    using assms(1) by (simp add: buffer_apart_def)
  from disjoint_ranges_neq [OF this assms(3) True] True show ?thesis by (simp add: tx_addr_def)
next
  case False
  have "disjoint_ranges data N (address (second tx)) (unat (region_length (second tx)) * unat tsize)"
    using assms(1) by (simp add: buffer_apart_def)
  moreover have "i - unat (region_length (first tx)) * unat tsize <
      unat (region_length (second tx)) * unat tsize"
    using False assms(2) by (simp add: tx_length_def add_mult_distrib)
  ultimately have "data + of_nat j \<noteq> address (second tx) +
      of_nat (i - unat (region_length (first tx)) * unat tsize)"
    by (rule disjoint_ranges_neq [OF _ assms(3)])
  with False show ?thesis unfolding tx_addr_def by simp
qed

section \<open>Both ways are the same\<close>

text \<open>A request, its buffer, and that the request fits.\<close>

lemma request_part:
  fixes startIdx n :: size_t and k :: nat
  assumes "unat startIdx + unat n \<le> tx_length tx" and "k \<le> unat n"
  shows "unat (of_nat k :: size_t) = k" and "unat startIdx + unat (of_nat k :: size_t) \<le> tx_length tx"
proof -
  show "unat (of_nat k :: size_t) = k"
    using assms(2) unat_u64_less [of n] by (intro unat_of_nat_u64) linarith
  then show "unat startIdx + unat (of_nat k :: size_t) \<le> tx_length tx" using assms by simp
qed

lemma buffer_apart_part:
  assumes "buffer_apart tsize tx data (n * unat tsize)" and "k \<le> n"
  shows "buffer_apart tsize tx data (k * unat tsize)"
proof -
  have le: "k * unat tsize \<le> n * unat tsize" using assms(2) by (rule mult_le_mono1)
  show ?thesis
    using assms(1) disjoint_ranges_part [where i = 0 and j = 0 and k = "k * unat tsize" and a = data]
      le by (fastforce simp: buffer_apart_def)
qed

lemma slot_apart:
  assumes ok: "tx_ok tsize tx" and i: "unat startIdx + k < tx_length tx"
    and apart: "buffer_apart tsize tx data (Suc k * unat tsize)"
  shows "disjoint_ranges (data + of_nat (k * unat tsize)) (unat tsize)
    (getSlot tsize tx (startIdx + of_nat k)) (unat tsize)"
proof -
  let ?z = "unat tsize" and ?m = "unat startIdx + k" and ?l = "unat (region_length (first tx))"
  have z: "0 < ?z" using ok by (simp add: tx_ok_def)
  have slot: "getSlot tsize tx (startIdx + of_nat k) = tx_addr tsize tx (?m * ?z)"
    using slot_bytes [OF ok i z] by (simp add: add_mult_distrib)
  show ?thesis
  proof (cases "?m < ?l")
    case True
    have "Suc ?m * ?z \<le> ?l * ?z" using True by (intro mult_le_mono1) simp
    moreover have "disjoint_ranges data (Suc k * ?z) (address (first tx)) (?l * ?z)"
      using apart by (simp add: buffer_apart_def)
    ultimately show ?thesis
      using True z disjoint_ranges_sub [of data "Suc k * ?z" "address (first tx)" "?l * ?z"
          "k * ?z" ?z "?m * ?z" ?z]
      by (simp add: slot tx_addr_def)
  next
    case False
    have "Suc ?m * ?z \<le> (?l + unat (region_length (second tx))) * ?z"
      using i by (intro mult_le_mono1) (simp add: tx_length_def)
    moreover have le: "?l * ?z \<le> ?m * ?z" using False by (intro mult_le_mono1) simp
    ultimately have "?m * ?z - ?l * ?z + ?z \<le> unat (region_length (second tx)) * ?z"
      by (simp add: add_mult_distrib)
    moreover have "disjoint_ranges data (Suc k * ?z) (address (second tx))
        (unat (region_length (second tx)) * ?z)"
      using apart by (simp add: buffer_apart_def)
    ultimately have "disjoint_ranges (data + of_nat (k * ?z)) ?z
        (address (second tx) + of_nat (?m * ?z - ?l * ?z)) ?z"
      using z disjoint_ranges_sub [of data "Suc k * ?z" "address (second tx)"
          "unat (region_length (second tx)) * ?z" "k * ?z" ?z "?m * ?z - ?l * ?z" ?z]
      by simp
    moreover have "\<not> ?m * ?z < ?l * ?z" using le by linarith
    ultimately show ?thesis unfolding slot tx_addr_def by (simp only: if_False)
  qed
qed

text \<open>The two copies as transfers.\<close>

lemma copyTo_moved:
  assumes "tx_ok tsize tx" and "unat startIdx + unat n \<le> tx_length tx" and "data \<noteq> 0"
    and "buffer_apart tsize tx data (unat n * unat tsize)"
  obtains h' where "copyTo tsize tx h data startIdx n = Inr (True, h')"
    and "moved (\<lambda>i. tx_addr tsize tx (unat startIdx * unat tsize + i)) (\<lambda>i. data + of_nat i)
      (unat n * unat tsize) h h'"
  by (rule copyTo_transfers [OF assms, of h]) (auto simp: moved_def)

lemma copyFrom_moved:
  assumes "tx_ok tsize tx" and "unat startIdx + unat n \<le> tx_length tx" and "data \<noteq> 0"
    and "buffer_apart tsize tx data (unat n * unat tsize)"
  obtains h' where "copyFrom tsize tx h data startIdx n = Inr (True, h')"
    and "moved (\<lambda>i. data + of_nat i) (\<lambda>i. tx_addr tsize tx (unat startIdx * unat tsize + i))
      (unat n * unat tsize) h h'"
  by (rule copyFrom_transfers [OF assms, of h]) (auto simp: moved_def)

lemma request_bytes_apart:
  assumes apart: "buffer_apart tsize tx data (n * unat tsize)" and fits: "unat startIdx + n \<le> tx_length tx"
    and i: "i < n * unat tsize" and j: "j < n * unat tsize"
  shows "data + of_nat j \<noteq> tx_addr tsize tx (unat startIdx * unat tsize + i)"
proof (rule tx_addr_apart [OF apart _ j])
  have "unat startIdx * unat tsize + i < (unat startIdx + n) * unat tsize"
    using i by (simp add: add_mult_distrib)
  also have "\<dots> \<le> tx_length tx * unat tsize" using fits by (rule mult_le_mono1)
  finally show "unat startIdx * unat tsize + i < tx_length tx * unat tsize" .
qed

text \<open>One more message, in either direction.\<close>

lemma fill_next:
  assumes ok: "tx_ok tsize tx" and fits: "unat startIdx + Suc k \<le> tx_length tx"
    and apart: "buffer_apart tsize tx data (Suc k * unat tsize)"
    and part: "moved (\<lambda>i. tx_addr tsize tx (unat startIdx * unat tsize + i)) (\<lambda>i. data + of_nat i)
      (k * unat tsize) h h1"
    and all: "moved (\<lambda>i. tx_addr tsize tx (unat startIdx * unat tsize + i)) (\<lambda>i. data + of_nat i)
      (Suc k * unat tsize) h h2"
  shows "memcpy h1 (getSlot tsize tx (startIdx + of_nat k)) (data + of_nat (k * unat tsize)) tsize = Inr h2"
proof (rule moved_extend [OF part])
  have i: "unat startIdx + k < tx_length tx" using fits by simp
  show "moved (\<lambda>i. tx_addr tsize tx (unat startIdx * unat tsize + i)) (\<lambda>i. data + of_nat i)
      (k * unat tsize + unat tsize) h h2" using all by (simp add: add.commute)
  show "disjoint_ranges (getSlot tsize tx (startIdx + of_nat k)) (unat tsize)
      (data + of_nat (k * unat tsize)) (unat tsize)"
    using slot_apart [OF ok i apart] by (simp add: disjoint_ranges_sym)
  show "getSlot tsize tx (startIdx + of_nat k) + of_nat j =
      tx_addr tsize tx (unat startIdx * unat tsize + (k * unat tsize + j)) \<and>
    data + of_nat (k * unat tsize) + of_nat j = data + of_nat (k * unat tsize + j)"
    if "j < unat tsize" for j
    using slot_bytes [OF ok i that] by (simp add: add.assoc)
  show "data + of_nat j \<noteq> tx_addr tsize tx (unat startIdx * unat tsize + i)"
    if "i < k * unat tsize" "j < k * unat tsize + unat tsize" for i j
    using request_bytes_apart [OF apart fits, of i j] that by simp
qed

lemma take_next:
  assumes ok: "tx_ok tsize tx" and fits: "unat startIdx + Suc k \<le> tx_length tx"
    and apart: "buffer_apart tsize tx data (Suc k * unat tsize)"
    and part: "moved (\<lambda>i. data + of_nat i) (\<lambda>i. tx_addr tsize tx (unat startIdx * unat tsize + i))
      (k * unat tsize) h h1"
    and all: "moved (\<lambda>i. data + of_nat i) (\<lambda>i. tx_addr tsize tx (unat startIdx * unat tsize + i))
      (Suc k * unat tsize) h h2"
  shows "memcpy h1 (data + of_nat (k * unat tsize)) (getSlot tsize tx (startIdx + of_nat k)) tsize = Inr h2"
proof (rule moved_extend [OF part])
  have i: "unat startIdx + k < tx_length tx" using fits by simp
  show "moved (\<lambda>i. data + of_nat i) (\<lambda>i. tx_addr tsize tx (unat startIdx * unat tsize + i))
      (k * unat tsize + unat tsize) h h2" using all by (simp add: add.commute)
  show "disjoint_ranges (data + of_nat (k * unat tsize)) (unat tsize)
      (getSlot tsize tx (startIdx + of_nat k)) (unat tsize)"
    by (rule slot_apart [OF ok i apart])
  show "data + of_nat (k * unat tsize) + of_nat j = data + of_nat (k * unat tsize + j) \<and>
    getSlot tsize tx (startIdx + of_nat k) + of_nat j =
      tx_addr tsize tx (unat startIdx * unat tsize + (k * unat tsize + j))"
    if "j < unat tsize" for j
    using slot_bytes [OF ok i that] by (simp add: add.assoc)
  show "tx_addr tsize tx (unat startIdx * unat tsize + j) \<noteq> data + of_nat i"
    if "i < k * unat tsize" "j < k * unat tsize + unat tsize" for i j
    using request_bytes_apart [OF apart fits, of j i] that by simp
qed

lemma copy_part:
  fixes n :: size_t
  assumes "tx_ok tsize tx" and "unat startIdx + unat n \<le> tx_length tx" and "data \<noteq> 0"
    and "buffer_apart tsize tx data (unat n * unat tsize)" and "k \<le> unat n"
  obtains h1 h2 where "copyTo tsize tx h data startIdx (of_nat k) = Inr (True, h1)"
    and "moved (\<lambda>i. tx_addr tsize tx (unat startIdx * unat tsize + i)) (\<lambda>i. data + of_nat i)
      (k * unat tsize) h h1"
    and "copyFrom tsize tx h data startIdx (of_nat k) = Inr (True, h2)"
    and "moved (\<lambda>i. data + of_nat i) (\<lambda>i. tx_addr tsize tx (unat startIdx * unat tsize + i))
      (k * unat tsize) h h2"
proof -
  note part = request_part [OF assms(2,5)]
  have apart: "buffer_apart tsize tx data (unat (of_nat k :: size_t) * unat tsize)"
    unfolding part(1) by (rule buffer_apart_part [OF assms(4,5)])
  obtain h1 where "copyTo tsize tx h data startIdx (of_nat k) = Inr (True, h1)"
    "moved (\<lambda>i. tx_addr tsize tx (unat startIdx * unat tsize + i)) (\<lambda>i. data + of_nat i)
      (k * unat tsize) h h1"
    by (rule copyTo_moved [OF assms(1) part(2) assms(3) apart, of h]) (simp add: part(1))
  moreover obtain h2 where "copyFrom tsize tx h data startIdx (of_nat k) = Inr (True, h2)"
    "moved (\<lambda>i. data + of_nat i) (\<lambda>i. tx_addr tsize tx (unat startIdx * unat tsize + i))
      (k * unat tsize) h h2"
    by (rule copyFrom_moved [OF assms(1) part(2) assms(3) apart, of h]) (simp add: part(1))
  ultimately show ?thesis by (rule that)
qed

lemma copies_are_fill_take:
  fixes n :: size_t
  assumes ok: "tx_ok tsize tx" and fits: "unat startIdx + unat n \<le> tx_length tx"
    and data: "data \<noteq> 0" and apart: "buffer_apart tsize tx data (unat n * unat tsize)"
    and k: "k \<le> unat n"
  shows "copyTo tsize tx h data startIdx (of_nat k) =
      bind_res (fill_slots tsize tx startIdx data k h) (\<lambda>h'. Inr (True, h')) \<and>
    copyFrom tsize tx h data startIdx (of_nat k) =
      bind_res (take_slots tsize tx startIdx data k h) (\<lambda>h'. Inr (True, h'))"
  using k
proof (induction k)
  case 0
  obtain h1 h2 where "copyTo tsize tx h data startIdx 0 = Inr (True, h1)"
    "copyFrom tsize tx h data startIdx 0 = Inr (True, h2)" "h1 = h" "h2 = h"
    using copy_part [OF ok fits data apart, of 0 h] moved_zero by (metis mult_0 of_nat_0 zero_le)
  then show ?case by simp
next
  case (Suc k)
  then have k: "k \<le> unat n" by simp
  have fits': "unat startIdx + Suc k \<le> tx_length tx" using Suc(2) fits by simp
  note apart' = buffer_apart_part [OF apart Suc(2)]
  obtain h1 h2 where part: "copyTo tsize tx h data startIdx (of_nat k) = Inr (True, h1)"
    "moved (\<lambda>i. tx_addr tsize tx (unat startIdx * unat tsize + i)) (\<lambda>i. data + of_nat i)
      (k * unat tsize) h h1"
    "copyFrom tsize tx h data startIdx (of_nat k) = Inr (True, h2)"
    "moved (\<lambda>i. data + of_nat i) (\<lambda>i. tx_addr tsize tx (unat startIdx * unat tsize + i))
      (k * unat tsize) h h2"
    by (rule copy_part [OF ok fits data apart k])
  obtain g1 g2 where all: "copyTo tsize tx h data startIdx (of_nat (Suc k)) = Inr (True, g1)"
    "moved (\<lambda>i. tx_addr tsize tx (unat startIdx * unat tsize + i)) (\<lambda>i. data + of_nat i)
      (Suc k * unat tsize) h g1"
    "copyFrom tsize tx h data startIdx (of_nat (Suc k)) = Inr (True, g2)"
    "moved (\<lambda>i. data + of_nat i) (\<lambda>i. tx_addr tsize tx (unat startIdx * unat tsize + i))
      (Suc k * unat tsize) h g2"
    by (rule copy_part [OF ok fits data apart Suc(2)])
  have "fill_slots tsize tx startIdx data k h = Inr h1" "take_slots tsize tx startIdx data k h = Inr h2"
    using Suc(1) [OF k] part(1,3) by (auto simp: bind_res_def split: sum.splits)
  then have "fill_slots tsize tx startIdx data (Suc k) h = Inr g1"
    "take_slots tsize tx startIdx data (Suc k) h = Inr g2"
    using fill_next [OF ok fits' apart' part(2) all(2)] take_next [OF ok fits' apart' part(4) all(4)]
    by simp_all
  then show ?case unfolding all(1,3) by simp
qed

text \<open>
  C34: \<open>copyTo\<close> and \<open>copyFrom\<close>, which move a request in at most two pieces, do what the loop over
  \<open>getSlot\<close> does that assigns the messages one after the other: on a request that fits, with a buffer
  apart from the ring, both ways succeed with the same memory, byte for byte.
\<close>

theorem copies_are_slot_by_slot:
  fixes n :: size_t
  assumes "tx_ok tsize tx" and "unat startIdx + unat n \<le> tx_length tx"
    and "data \<noteq> nullptr" and "buffer_apart tsize tx data (unat n * unat tsize)"
  shows "\<exists>h1 h2. fill_slots tsize tx startIdx data (unat n) h = Inr h1 \<and>
      copyTo tsize tx h data startIdx n = Inr (True, h1) \<and>
    take_slots tsize tx startIdx data (unat n) h = Inr h2 \<and>
      copyFrom tsize tx h data startIdx n = Inr (True, h2)"
proof -
  obtain h1 h2 where "copyTo tsize tx h data startIdx n = Inr (True, h1)"
    "copyFrom tsize tx h data startIdx n = Inr (True, h2)"
    using copyTo_moved copyFrom_moved assms by metis
  then show ?thesis
    using copies_are_fill_take [of tsize tx startIdx n data "unat n" h] assms
    by (auto simp: bind_res_def split: sum.splits)
qed

end
