(* ===== verification/Queue_Confinement.thy ===== *)
theory Queue_Confinement
  imports Queue_Fine
begin

text \<open>
  What a read or a write touches when the processes that share its memory do as they like, as the
  fuzzer makes them do: the peer may store anything in the counters and the ring at any moment.
\<close>

section \<open>Accesses\<close>

text \<open>All accesses of a program are in \<open>F\<close>, whatever it loads, and its results satisfy \<open>Q\<close>.\<close>

primrec confined :: "access set \<Rightarrow> 'a prog \<Rightarrow> ('a \<Rightarrow> bool) \<Rightarrow> bool" where
  "confined F (Ret x) Q = Q x"
| "confined F (Fail e) Q = True"
| "confined F (LoadC mo p k) Q = (CounterLoad mo p \<in> F \<and> (\<forall>v. confined F (k v) Q))"
| "confined F (StoreC mo p v k) Q = (CounterStore mo p \<in> F \<and> confined F k Q)"
| "confined F (LoadB p k) Q = (ByteLoad p \<in> F \<and> (\<forall>b. confined F (k b) Q))"
| "confined F (StoreB p b k) Q = (ByteStore p \<in> F \<and> confined F k Q)"

lemma confined_next: "confined F p Q \<Longrightarrow> set_option (next_access p) \<subseteq> F"
  by (cases p) auto

lemma confined_action: "confined F p Q \<Longrightarrow> action p h = Some (p', h') \<Longrightarrow> confined F p' Q"
  by (cases p) (auto split: if_splits)

lemma confined_against: "confined F p Q \<Longrightarrow> set_option (next_access (against p hs)) \<subseteq> F"
proof (induction hs arbitrary: p)
  case Nil
  then show ?case by (simp add: confined_next)
next
  case (Cons h hs)
  show ?case
  proof (cases "action p h")
    case None
    then show ?thesis using confined_next [OF Cons.prems] by simp
  next
    case (Some r)
    then show ?thesis using Cons.IH [OF confined_action [OF Cons.prems]] by (cases r) simp
  qed
qed

lemma confined_bind:
  "confined F m Q \<Longrightarrow> (\<And>x. Q x \<Longrightarrow> confined F (f x) Q') \<Longrightarrow> confined F (bind_prog m f) Q'"
  by (induction m) auto

lemma confined_copy_bytes:
  "(\<And>j. i \<le> j \<Longrightarrow> j < i + k \<Longrightarrow> ByteLoad (src + of_nat j) \<in> F \<and> ByteStore (dst + of_nat j) \<in> F) \<Longrightarrow>
     confined F (copy_bytes k dst src i) (\<lambda>_. True)"
proof (induction k arbitrary: i)
  case (Suc k)
  have "confined F (copy_bytes k dst src (Suc i)) (\<lambda>_. True)" by (rule Suc.IH) (rule Suc.prems; simp)
  with Suc.prems [of i] show ?case by simp
qed simp

lemma confined_two_pieces:
  assumes "\<And>j. j < k1 \<Longrightarrow> ByteLoad (s1 + of_nat j) \<in> F \<and> ByteStore (d1 + of_nat j) \<in> F"
    and "\<And>j. j < k2 \<Longrightarrow> ByteLoad (s2 + of_nat j) \<in> F \<and> ByteStore (d2 + of_nat j) \<in> F"
  shows "confined F (two_piece_copy d1 s1 k1 d2 s2 k2) (\<lambda>_. True)"
proof -
  have "confined F (bind_prog (copy_bytes k2 d2 s2 0) (\<lambda>_. Ret True)) (\<lambda>_. True)"
    by (rule confined_bind [OF confined_copy_bytes]) (simp_all add: assms(2))
  then show ?thesis
    unfolding two_piece_copy_def
    by (rule confined_bind [OF confined_copy_bytes, rotated]) (simp_all add: assms(1))
qed

section \<open>The footprints of the calls\<close>

text \<open>
  Both calls load the two counters, that of the other side always with acquire; each stores to the
  counter of its side, with release. A write copies from the caller's buffer to the ring, a read
  from the ring to the buffer, and a request larger than the ring copies nothing.
\<close>

definition write_counters :: "MessageQueue \<Rightarrow> access set" where
  "write_counters q = {CounterLoad Acquire (mReadPtr q), CounterLoad Acquire (mWritePtr q),
     CounterLoad Relaxed (mWritePtr q), CounterStore Release (mWritePtr q)}"

definition read_counters :: "MessageQueue \<Rightarrow> access set" where
  "read_counters q = {CounterLoad Acquire (mWritePtr q), CounterLoad Relaxed (mReadPtr q),
     CounterStore Release (mReadPtr q)}"

definition write_footprint :: "MessageQueue \<Rightarrow> ptr \<Rightarrow> size_t \<Rightarrow> access set" where
  "write_footprint q data n = write_counters q \<union>
     ByteLoad ` byte_range data (buf_len q n) \<union> ByteStore ` byte_range (mRing q) (unat (ring_size q))"

definition read_footprint :: "MessageQueue \<Rightarrow> ptr \<Rightarrow> size_t \<Rightarrow> access set" where
  "read_footprint q data n = read_counters q \<union>
     ByteLoad ` byte_range (mRing q) (unat (ring_size q)) \<union> ByteStore ` byte_range data (buf_len q n)"

lemmas footprint_defs = write_footprint_def read_footprint_def write_counters_def read_counters_def

lemma confined_beginWrite:
  assumes wf: "queue_wf q" and F: "write_counters q \<subseteq> F"
  shows "confined F (beginWrite_prog q n MemTransaction_default) (begun_at q n)"
proof -
  have last: "confined F (LoadC Relaxed (mWritePtr q) (\<lambda>w. if w mod sizeofT q \<noteq> 0
      then Ret (False, MemTransaction_default) else Ret (True, ring_tx q (ring_size q) w n)))
      (begun_at q n)" if "\<not> ring_size q div sizeofT q < n"
    using F that ring_stretchI [OF wf, of _ n] unfolding begun_at_def write_counters_def
    by (simp add: fits_iff [OF wf] not_less) metis
  show ?thesis
  proof (cases "flavor q")
    case kSynchronizedReadWrite
    show ?thesis
      unfolding beginWrite_prog_shape [OF wf kSynchronizedReadWrite]
      using F last by (auto simp: write_counters_def)
  next
    case kUnsynchronizedWrite
    show ?thesis
      unfolding beginWrite_prog_unsync [OF wf kUnsynchronizedWrite] using last by simp
  qed
qed

lemma confined_beginRead:
  assumes wf: "queue_wf q" and small: "msg_bytes q n < 18446744073709551616"
    and F: "read_counters q \<subseteq> F"
  shows "confined F (beginRead_prog q n) (begun_at q n)"
proof -
  have "begun_at q n (True, ring_tx q (ring_size q) r n)"
    if "r mod sizeofT q = 0" "\<not> ring_size q < w - r" "\<not> w - r < n * sizeofT q" for w r
    using read_request_begun [OF wf small that] .
  then show ?thesis
    unfolding beginRead_prog_shape [OF wf] using F by (simp add: read_counters_def)
qed

lemma confined_copies:
  assumes "begun_at q n (True, tx)" and "buffer_ok q data n"
    and "ring_bytes_of = byte_range (mRing q) (unat (ring_size q))"
  shows "ByteLoad ` byte_range data (buf_len q n) \<union> ByteStore ` ring_bytes_of \<subseteq> F \<Longrightarrow>
      confined F (copyTo_prog (sizeofT q) tx data 0 n) (\<lambda>_. True)"
    and "ByteLoad ` ring_bytes_of \<union> ByteStore ` byte_range data (buf_len q n) \<subseteq> F \<Longrightarrow>
      confined F (copyFrom_prog (sizeofT q) tx data 0 n) (\<lambda>_. True)"
proof -
  obtain p d1 k1 d2 k2 where pieces: "ring_pieces q p n d1 k1 d2 k2" and sum: "k1 + k2 = buf_len q n"
    and progs: "copyTo_prog (sizeofT q) tx data 0 n =
        two_piece_copy d1 data k1 d2 (data + of_nat k1) k2"
      "copyFrom_prog (sizeofT q) tx data 0 n =
        two_piece_copy data d1 k1 (data + of_nat k1) d2 k2"
    by (rule begun_copies [OF assms(1,2)])
  have ring: "d1 + of_nat i \<in> ring_bytes_of" if "i < k1" for i
    using pieces that assms(3) by (simp add: ring_pieces_def)
  have ring2: "d2 + of_nat i \<in> ring_bytes_of" if "i < k2" for i
    using pieces that assms(3) by (simp add: ring_pieces_def)
  have buf: "data + of_nat i \<in> byte_range data (buf_len q n)" if "i < k1" for i
    using that sum by (intro byte_rangeI) simp
  have buf2: "data + of_nat k1 + of_nat i \<in> byte_range data (buf_len q n)" if "i < k2" for i
    using that sum byte_rangeI [of "k1 + i" "buf_len q n" data] by (simp add: add.assoc)
  show "confined F (copyTo_prog (sizeofT q) tx data 0 n) (\<lambda>_. True)"
    if "ByteLoad ` byte_range data (buf_len q n) \<union> ByteStore ` ring_bytes_of \<subseteq> F"
    unfolding progs by (intro confined_two_pieces; use that in \<open>simp add: image_subset_iff ring ring2 buf buf2\<close>)
  show "confined F (copyFrom_prog (sizeofT q) tx data 0 n) (\<lambda>_. True)"
    if "ByteLoad ` ring_bytes_of \<union> ByteStore ` byte_range data (buf_len q n) \<subseteq> F"
    unfolding progs by (intro confined_two_pieces; use that in \<open>simp add: image_subset_iff ring ring2 buf buf2\<close>)
qed

lemma confined_write:
  assumes wf: "queue_wf q" and buf: "buffer_ok q data n"
  shows "confined (write_footprint q data n) (fmq_write_prog q data n) (\<lambda>_. True)"
proof -
  let ?F = "write_footprint q data n"
  have "confined ?F (bind_prog (copyTo_prog (sizeofT q) tx data 0 n)
      (\<lambda>copied. if \<not> copied then Ret False else commitWrite_prog q n)) (\<lambda>_. True)"
    if "begun_at q n (True, tx)" for tx
    by (rule confined_bind [OF confined_copies(1) [OF that buf HOL.refl]])
      (auto simp: footprint_defs commitWrite_prog_shape)
  then show ?thesis
    unfolding fmq_write_prog_def
    by (intro confined_bind [OF confined_beginWrite [OF wf]]) (auto simp: footprint_defs)
qed

lemma confined_read:
  assumes wf: "queue_wf q" and buf: "buffer_ok q data n"
    and small: "msg_bytes q n < 18446744073709551616"
  shows "confined (read_footprint q data n) (fmq_read_prog q data n) (\<lambda>_. True)"
proof -
  let ?F = "read_footprint q data n"
  have "confined ?F (bind_prog (copyFrom_prog (sizeofT q) tx data 0 n)
      (\<lambda>copied. if \<not> copied then Ret False else commitRead_prog q n)) (\<lambda>_. True)"
    if "begun_at q n (True, tx)" for tx
    by (rule confined_bind [OF confined_copies(2) [OF that buf HOL.refl]])
      (auto simp: footprint_defs commitRead_prog_shape [OF wf])
  then show ?thesis
    unfolding fmq_read_prog_def
    by (intro confined_bind [OF confined_beginRead [OF wf small]]) (auto simp: footprint_defs)
qed

text \<open>
  C9: a hostile peer cannot make a call leave its memory. Whatever the processes that share the
  memory store in the counters and the ring between any two accesses of a call, with no regard to
  the protocol, the next access of a write is to the two counters, to the caller's buffer, or a
  store to the write counter or the ring, and that of a read is to the counters, the ring, or a
  store to the read counter or the buffer.
\<close>

theorem hostile_peers_are_contained:
  assumes "queue_wf q" and "buffer_ok q data n" and "msg_bytes q n < 2 ^ 64"
  shows "set_option (next_access (against (fmq_write_prog q data n) hs)) \<subseteq> write_footprint q data n \<and>
    set_option (next_access (against (fmq_read_prog q data n) hs)) \<subseteq> read_footprint q data n"
proof -
  have small: "msg_bytes q n < 18446744073709551616" using assms(3) by simp
  show ?thesis
    using confined_against [OF confined_write [OF assms(1,2)]]
      confined_against [OF confined_read [OF assms(1,2) small]] by blast
qed

end
