(* ===== verification/Broadcast_Readers.thy ===== *)
theory Broadcast_Readers
  imports Queue_Broadcast Queue_Concurrency
begin

text \<open>
  One writer and any number of readers of an unsynchronized queue at work at the same time. A
  reader is named by the address of its private read counter: its queue object is that of the
  writer but for this pointer. The parts of the calls interleave in any order.
\<close>

section \<open>Slices\<close>

text \<open>The lists \<open>cs\<close> are stretches of \<open>xs\<close>, one after the other, perhaps with gaps between them.\<close>

fun slices_of :: "'a list \<Rightarrow> 'a list list \<Rightarrow> bool" where
  "slices_of xs [] = True"
| "slices_of xs (c # cs) = (\<exists>k\<le>length xs.
     take (length c) (drop k xs) = c \<and> slices_of (drop (k + length c) xs) cs)"

lemma slice_fits: "take (length c) (drop k xs) = c \<Longrightarrow> k \<le> length xs \<Longrightarrow> k + length c \<le> length xs"
  by (metis add.commute length_drop length_take min.cobounded1 nat_add_left_cancel_le
      ordered_cancel_comm_monoid_diff_class.le_diff_conv2 min.absorb_iff2 min.commute)

lemma slices_longer: "slices_of xs cs \<Longrightarrow> slices_of (xs @ ys) cs"
proof (induction cs arbitrary: xs)
  case (Cons c cs)
  then obtain k where k: "k \<le> length xs" "take (length c) (drop k xs) = c"
    "slices_of (drop (k + length c) xs) cs" by auto
  note fits = slice_fits [OF k(2,1)]
  have "take (length c) (drop k (xs @ ys)) = c" using k fits by simp
  moreover have "slices_of (drop (k + length c) (xs @ ys)) cs" using Cons.IH [OF k(3)] fits by simp
  ultimately show ?case using k(1) by (auto intro!: exI [of _ k])
qed simp

lemma slices_snoc: "slices_of xs cs \<Longrightarrow> slices_of (xs @ c) (cs @ [c])"
proof (induction cs arbitrary: xs)
  case Nil
  show ?case by (auto intro!: exI [of _ "length xs"])
next
  case (Cons b cs)
  then obtain k where k: "k \<le> length xs" "take (length b) (drop k xs) = b"
    "slices_of (drop (k + length b) xs) cs" by auto
  note fits = slice_fits [OF k(2,1)]
  have "take (length b) (drop k (xs @ c)) = b" using k fits by simp
  moreover have "slices_of (drop (k + length b) (xs @ c)) (cs @ [c])" using Cons.IH [OF k(3)] fits by simp
  ultimately show ?case using k(1) by (auto intro!: exI [of _ k])
qed

lemma slices_take: "slices_of (take i xs) cs \<Longrightarrow> i \<le> j \<Longrightarrow> slices_of (take j xs) cs"
  using slices_longer [of "take i xs" cs "take (j - i) (drop i xs)"]
  by (metis le_add_diff_inverse take_add)

lemma slices_all: "slices_of (take i xs) cs \<Longrightarrow> slices_of xs cs"
  using slices_longer [of "take i xs" cs "drop i xs"] by simp

lemma slices_next:
  "slices_of (take i xs) cs \<Longrightarrow> slices_of (take (i + m) xs) (cs @ [take m (drop i xs)])"
  using slices_snoc [of "take i xs" cs "take m (drop i xs)"] by (simp add: take_add)

section \<open>The system\<close>

definition with_counter :: "MessageQueue \<Rightarrow> ptr \<Rightarrow> MessageQueue" where
  "with_counter q r = q\<lparr>mReadPtr := r\<rparr>"

definition reader_counter :: "MessageQueue \<Rightarrow> ptr \<Rightarrow> bool" where
  "reader_counter q r \<longleftrightarrow> r \<noteq> nullptr \<and> r \<noteq> mWritePtr q"

record bcast =
  bmem :: heap
  bwriter :: writer
  breader :: "ptr \<Rightarrow> reader"

definition set_breader :: "ptr \<Rightarrow> reader \<Rightarrow> bcast \<Rightarrow> bcast" where
  "set_breader r rd s = s\<lparr>breader := (breader s)(r := rd)\<rparr>"

text \<open>Bytes of a write that stand in the ring and are not committed.\<close>

fun in_flight :: "writer \<Rightarrow> nat" where
  "in_flight (WCopied n new) = length new"
| "in_flight w = 0"

text \<open>
  The labels of a step are the messages that a write adds to the log, and those that a read of
  the reader \<open>p\<close> delivers. A reader commits only while no write stands between its copy and its
  commit; \<open>unfinished_write_tears_read\<close> is the reason. Fewer than \<open>2 ^ 64\<close> bytes are written in
  all. What the processes do with the rest of the memory is \<open>other_memory\<close>.
\<close>

inductive bcast_step ::
  "MessageQueue \<Rightarrow> ptr \<Rightarrow> bcast \<Rightarrow> u8 list list \<Rightarrow> u8 list list \<Rightarrow> bcast \<Rightarrow> bool"
  for q p where
  begin_write: "bwriter s = WIdle \<Longrightarrow> unat (writeCtr q (bmem s)) + msg_bytes q n < 2 ^ 64 \<Longrightarrow>
    beginWrite q (bmem s) n MemTransaction_default = Inr (ok, tx) \<Longrightarrow>
    bcast_step q p s [] [] (s\<lparr>bwriter := if ok then WBegun n tx else WIdle\<rparr>)"
| copy_in: "bwriter s = WBegun n tx \<Longrightarrow> buffer_ok q data n \<Longrightarrow>
    copyTo (sizeofT q) tx (bmem s) data 0 n = Inr (ok, h') \<Longrightarrow>
    bcast_step q p s [] [] (s\<lparr>bmem := h', bwriter :=
      if ok then WCopied n (mem_bytes (bmem s) data (msg_bytes q n)) else WIdle\<rparr>)"
| commit_write: "bwriter s = WCopied n new \<Longrightarrow> commitWrite q (bmem s) n = Inr (ok, h') \<Longrightarrow>
    bcast_step q p s (if ok then [new] else []) [] (s\<lparr>bmem := h', bwriter := WIdle\<rparr>)"
| begin_read: "breader s r = RIdle \<Longrightarrow> reader_counter q r \<Longrightarrow> msg_bytes q n < 2 ^ 64 \<Longrightarrow>
    beginRead (with_counter q r) (bmem s) n = Inr (ok, tx, h') \<Longrightarrow>
    bcast_step q p s [] [] (set_breader r (if ok then RBegun n tx else RIdle) (s\<lparr>bmem := h'\<rparr>))"
| copy_out: "breader s r = RBegun n tx \<Longrightarrow> reader_counter q r \<Longrightarrow> buffer_ok q data n \<Longrightarrow>
    copyFrom (sizeofT q) tx (bmem s) data 0 n = Inr (ok, h') \<Longrightarrow>
    bcast_step q p s [] [] (set_breader r
      (if ok then RCopied n (mem_bytes h' data (msg_bytes q n)) else RIdle) (s\<lparr>bmem := h'\<rparr>))"
| commit_read: "breader s r = RCopied n got \<Longrightarrow> reader_counter q r \<Longrightarrow> in_flight (bwriter s) = 0 \<Longrightarrow>
    commitRead (with_counter q r) (bmem s) n = Inr (ok, h') \<Longrightarrow>
    bcast_step q p s [] (if ok \<and> r = p then [got] else []) (set_breader r RIdle (s\<lparr>bmem := h'\<rparr>))"
| other_memory: "words64 h' = words64 (bmem s) \<Longrightarrow>
    (\<forall>j<unat (ring_size q). bytes h' (mRing q + of_nat j) = bytes (bmem s) (mRing q + of_nat j)) \<Longrightarrow>
    bcast_step q p s [] [] (s\<lparr>bmem := h'\<rparr>)"

definition bcast_start :: "heap \<Rightarrow> bcast" where
  "bcast_start h = \<lparr>bmem = h, bwriter = WIdle, breader = (\<lambda>r. RIdle)\<rparr>"

text \<open>Nothing has been written and all counters are zero, as the constructors leave them.\<close>

definition bcast_ready :: "MessageQueue \<Rightarrow> heap \<Rightarrow> bool" where
  "bcast_ready q h \<longleftrightarrow> queue_wf q \<and> flavor q = kUnsynchronizedWrite \<and> words64 h = (\<lambda>a. 0)"

section \<open>The invariant\<close>

text \<open>The writer's side: the counter stands at the end of the log, and the ring holds its tail.\<close>

fun writer_log :: "MessageQueue \<Rightarrow> heap \<Rightarrow> u8 list \<Rightarrow> writer \<Rightarrow> bool" where
  "writer_log q h log WIdle \<longleftrightarrow> log_inv q h log"
| "writer_log q h log (WBegun n tx) \<longleftrightarrow> log_inv q h log \<and>
     tx = ring_tx q (ring_size q) (writeCtr q h) n \<and> msg_bytes q n \<le> unat (ring_size q) \<and>
     length log + msg_bytes q n < 2 ^ 64"
| "writer_log q h log (WCopied n new) \<longleftrightarrow> length new = msg_bytes q n \<and>
     length log + msg_bytes q n < 2 ^ 64 \<and> writeCtr q h = of_nat (length log) \<and>
     unat (sizeofT q) dvd length log \<and>
     log_inv q (set_writeCtr q (of_nat (length (log @ new))) h) (log @ new)"

lemmas writer_copied = writer_log.simps(3) [THEN iffD1]

text \<open>A reader's side: its position in the log, and what it has copied unless it was overtaken.\<close>

fun reader_log :: "MessageQueue \<Rightarrow> nat \<Rightarrow> u8 list \<Rightarrow> nat \<Rightarrow> reader \<Rightarrow> bool" where
  "reader_log q k log pos RIdle \<longleftrightarrow> True"
| "reader_log q k log pos (RBegun n tx) \<longleftrightarrow> tx = ring_tx q (ring_size q) (of_nat pos) n \<and>
     pos + msg_bytes q n \<le> length log \<and> msg_bytes q n \<le> unat (ring_size q)"
| "reader_log q k log pos (RCopied n got) \<longleftrightarrow> pos + msg_bytes q n \<le> length log \<and>
     msg_bytes q n \<le> unat (ring_size q) \<and>
     (length log + k \<le> pos + unat (ring_size q) \<longrightarrow> got = take (msg_bytes q n) (drop pos log))"

definition bcast_inv :: "MessageQueue \<Rightarrow> ptr \<Rightarrow> bcast \<Rightarrow> u8 list \<Rightarrow> u8 list list \<Rightarrow> bool" where
  "bcast_inv q p s log recv \<longleftrightarrow> length log < 2 ^ 64 \<and> writer_log q (bmem s) log (bwriter s) \<and>
     (\<forall>r. reader_counter q r \<longrightarrow> (\<exists>pos. reader_at (with_counter q r) (bmem s) log pos \<and>
       reader_log q (in_flight (bwriter s)) log pos (breader s r) \<and>
       (r = p \<longrightarrow> slices_of (take pos log) recv)))"

text \<open>What readers may rely on, in every phase of the writer.\<close>

definition readable_log :: "MessageQueue \<Rightarrow> heap \<Rightarrow> u8 list \<Rightarrow> nat \<Rightarrow> bool" where
  "readable_log q h log k \<longleftrightarrow> queue_wf q \<and> writeCtr q h = of_nat (length log) \<and>
     unat (sizeofT q) dvd length log \<and> length log < 2 ^ 64 \<and> log_during q h log k"

lemma writer_log_readable:
  assumes "writer_log q h log w" and "length log < 2 ^ 64"
  shows "readable_log q h log (in_flight w)"
proof (cases w)
  case (WCopied n new)
  have inv: "log_inv q (set_writeCtr q (of_nat (length (log @ new))) h) (log @ new)"
    using assms(1) unfolding WCopied by (blast dest: writer_copied)
  note L = log_invD [OF inv] and cells = queue_cells [OF log_invD(1) [OF inv]]
  have "log_during q h log (length new)"
    unfolding log_during_def
  proof (intro conjI allI impI)
    show "queue_wf q" "ring_size q \<noteq> 0" by (rule L(1), rule L(8))
    show "unat (ring_size q) dvd 2 ^ 64 \<or> length log < 2 ^ 64" using assms(2) by simp
    fix i assume "i < length log" "length log + length new \<le> i + unat (ring_size q)"
    with L(6) [of i] show "bytes h (mRing q + of_nat (i mod unat (ring_size q))) = log ! i"
      by (simp add: cells nth_append)
  qed
  with assms L(1) show ?thesis unfolding WCopied writer_log.simps readable_log_def by simp
qed (use assms log_inv_during in \<open>auto simp: readable_log_def dest: log_invD\<close>)

lemma readable_logD:
  assumes "readable_log q h log k"
  shows "queue_wf q" and "writeCtr q h = of_nat (length log)" and "unat (sizeofT q) dvd length log"
    and "length log < 18446744073709551616" and "log_during q h log k"
    and "ring_size q \<noteq> 0" and "sizeofT q \<noteq> 0" and "unat (sizeofT q) dvd unat (ring_size q)"
  using assms by (auto simp: readable_log_def elim: queue_wfD)

lemma writer_log_frame:
  assumes "writer_log q h log w" and "writeCtr q h' = writeCtr q h"
    and same: "\<And>j. j < unat (ring_size q) \<Longrightarrow> bytes h' (mRing q + of_nat j) = bytes h (mRing q + of_nat j)"
  shows "writer_log q h' log w"
proof (cases w)
  case (WCopied n new)
  have inv: "log_inv q (set_writeCtr q (of_nat (length (log @ new))) h) (log @ new)"
    using assms(1) unfolding WCopied by (blast dest: writer_copied)
  note cells = queue_cells [OF log_invD(1) [OF inv]]
  have "log_inv q (set_writeCtr q (of_nat (length (log @ new))) h') (log @ new)"
    by (rule log_inv_frame [OF inv]) (simp_all only: cells same)
  with assms(1,2) show ?thesis unfolding WCopied writer_log.simps by simp
qed (use assms log_inv_frame in auto)

section \<open>Changes of one side\<close>

lemma with_counter_simps [simp]:
  "mReadPtr (with_counter q r) = r" "mWritePtr (with_counter q r) = mWritePtr q"
  "mRing (with_counter q r) = mRing q" "sizeofT (with_counter q r) = sizeofT q"
  "ring_size (with_counter q r) = ring_size q" "msg_bytes (with_counter q r) n = msg_bytes q n"
  "ring_tx (with_counter q r) = ring_tx q"
  by (auto simp: with_counter_def ring_size_def msg_bytes_def ring_tx_def fun_eq_iff)

lemma with_counter_wf: "queue_wf q \<Longrightarrow> reader_counter q r \<Longrightarrow> queue_wf (with_counter q r)"
  by (auto simp: queue_wf_def reader_counter_def isValid_def with_counter_def ring_size_def
      split: option.splits)

lemma reader_lag:
  assumes R: "readable_log q h log k" and at: "reader_at (with_counter q r) h log pos"
  shows "used (with_counter q r) h = length log - pos" and "words64 h r = of_nat pos"
    and "unat (words64 h r) = pos" and "pos \<le> length log" and "unat (sizeofT q) dvd pos"
proof -
  show r: "words64 h r = of_nat pos" "pos \<le> length log" "unat (sizeofT q) dvd pos"
    using at by (simp_all add: reader_at_def)
  then show "unat (words64 h r) = pos" using readable_logD(4) [OF R] by simp
  have "writeCtr q h - words64 h r = of_nat (length log - pos)"
    unfolding readable_logD(2) [OF R] r(1) using r(2) by (simp add: of_nat_diff)
  then show "used (with_counter q r) h = length log - pos"
    using readable_logD(4) [OF R] by (simp add: used_def del: of_nat_diff)
qed

lemma reader_at_other:
  "reader_at (with_counter q r) h log pos \<Longrightarrow> words64 h' r = words64 h r \<Longrightarrow>
     reader_at (with_counter q r) h' log pos"
  by (simp add: reader_at_def)

lemma reader_log_grows:
  "reader_log q k log pos rd \<Longrightarrow> k \<le> length new + k' \<Longrightarrow> reader_log q k' (log @ new) pos rd"
  by (cases rd) auto

text \<open>What the writer does, seen by all readers.\<close>

lemma writer_moves:
  assumes inv: "bcast_inv q p s log got" and len: "length (log @ new) < 2 ^ 64"
    and w: "writer_log q h' (log @ new) w'" and k: "in_flight (bwriter s) \<le> length new + in_flight w'"
    and ctr: "\<And>r. r \<noteq> mWritePtr q \<Longrightarrow> words64 h' r = words64 (bmem s) r"
  shows "bcast_inv q p (s\<lparr>bmem := h', bwriter := w'\<rparr>) (log @ new) got"
  unfolding bcast_inv_def
proof (intro conjI allI impI)
  show "length (log @ new) < 2 ^ 64" by (rule len)
  show "writer_log q (bmem (s\<lparr>bmem := h', bwriter := w'\<rparr>)) (log @ new) (bwriter (s\<lparr>bmem := h', bwriter := w'\<rparr>))"
    using w by simp
  fix r assume r: "reader_counter q r"
  then obtain pos where at: "reader_at (with_counter q r) (bmem s) log pos"
    and rd: "reader_log q (in_flight (bwriter s)) log pos (breader s r)"
    and sl: "r = p \<longrightarrow> slices_of (take pos log) got"
    using inv unfolding bcast_inv_def by blast
  have "reader_at (with_counter q r) h' (log @ new) pos"
    using at len ctr r by (auto simp: reader_at_def reader_counter_def)
  moreover have "r = p \<longrightarrow> slices_of (take pos (log @ new)) got"
    using sl at by (simp add: reader_at_def)
  ultimately show "\<exists>pos. reader_at (with_counter q r) (bmem (s\<lparr>bmem := h', bwriter := w'\<rparr>)) (log @ new) pos \<and>
      reader_log q (in_flight (bwriter (s\<lparr>bmem := h', bwriter := w'\<rparr>))) (log @ new) pos
        (breader (s\<lparr>bmem := h', bwriter := w'\<rparr>) r) \<and>
      (r = p \<longrightarrow> slices_of (take pos (log @ new)) got)"
    using reader_log_grows [OF rd k] by auto
qed

text \<open>What one reader does, seen by the writer and the other readers.\<close>

lemma reader_moves:
  assumes inv: "bcast_inv q p s log got" and r: "reader_counter q r"
    and ctr: "\<And>a. a \<noteq> r \<Longrightarrow> words64 h' a = words64 (bmem s) a"
    and ring: "\<And>j. j < unat (ring_size q) \<Longrightarrow>
      bytes h' (mRing q + of_nat j) = bytes (bmem s) (mRing q + of_nat j)"
    and at: "reader_at (with_counter q r) h' log pos"
    and rd: "reader_log q (in_flight (bwriter s)) log pos rd"
    and sl: "r = p \<Longrightarrow> slices_of (take pos log) (got @ recv)" "r \<noteq> p \<Longrightarrow> recv = []"
  shows "bcast_inv q p (set_breader r rd (s\<lparr>bmem := h'\<rparr>)) log (got @ recv)"
  unfolding bcast_inv_def
proof (intro conjI allI impI)
  let ?s = "set_breader r rd (s\<lparr>bmem := h'\<rparr>)"
  have w: "writer_log q (bmem s) log (bwriter s)" and len: "length log < 2 ^ 64"
    using inv by (simp_all add: bcast_inv_def)
  show "length log < 2 ^ 64" by (rule len)
  have "writer_log q h' log (bwriter s)"
    by (rule writer_log_frame [OF w ctr ring]) (use r in \<open>auto simp: reader_counter_def\<close>)
  then show "writer_log q (bmem ?s) log (bwriter ?s)" by (simp add: set_breader_def)
  fix r' assume r': "reader_counter q r'"
  show "\<exists>pos. reader_at (with_counter q r') (bmem ?s) log pos \<and>
      reader_log q (in_flight (bwriter ?s)) log pos (breader ?s r') \<and>
      (r' = p \<longrightarrow> slices_of (take pos log) (got @ recv))"
  proof (cases "r' = r")
    case True
    then show ?thesis using at rd sl(1) by (auto simp: set_breader_def)
  next
    case False
    obtain pos' where at': "reader_at (with_counter q r') (bmem s) log pos'"
      and rd': "reader_log q (in_flight (bwriter s)) log pos' (breader s r')"
      and sl': "r' = p \<longrightarrow> slices_of (take pos' log) got"
      using inv r' unfolding bcast_inv_def by blast
    have "reader_at (with_counter q r') h' log pos'" by (rule reader_at_other [OF at' ctr [OF False]])
    moreover have "r' = p \<longrightarrow> recv = []" using sl(2) False by blast
    ultimately show ?thesis using rd' sl' False by (auto simp: set_breader_def)
  qed
qed

section \<open>The steps\<close>

lemma bcast_begin_write:
  assumes inv: "bcast_inv q p s log got" and idle: "bwriter s = WIdle"
    and room: "unat (writeCtr q (bmem s)) + msg_bytes q n < 2 ^ 64"
    and run: "beginWrite q (bmem s) n MemTransaction_default = Inr (ok, tx)"
  shows "bcast_inv q p (s\<lparr>bwriter := if ok then WBegun n tx else WIdle\<rparr>) log got"
proof -
  have L0: "log_inv q (bmem s) log" and len: "length log < 18446744073709551616"
    using inv idle by (simp_all add: bcast_inv_def)
  note L = log_invD [OF L0]
  have "ok \<Longrightarrow> tx = ring_tx q (ring_size q) (writeCtr q (bmem s)) n \<and> msg_bytes q n \<le> unat (ring_size q)"
    using run beginWrite_result [OF L(1,7), of n] L(2) by (auto simp: write_limit_def split: if_splits)
  moreover have "length log + msg_bytes q n < 2 ^ 64" using room len by (simp add: L(3))
  ultimately have w: "writer_log q (bmem s) (log @ []) (if ok then WBegun n tx else WIdle)"
    using L0 by simp
  have "bcast_inv q p (s\<lparr>bmem := bmem s, bwriter := if ok then WBegun n tx else WIdle\<rparr>) (log @ []) got"
    by (rule writer_moves [OF inv _ w]) (use len idle in simp_all)
  then show ?thesis by simp
qed

lemma copy_in_effect:
  assumes inv: "bcast_inv q p s log got" and begun: "bwriter s = WBegun n tx"
    and buf: "buffer_ok q data n"
  obtains h' where "copyTo (sizeofT q) tx (bmem s) data 0 n = Inr (True, h')"
    and "words64 h' = words64 (bmem s)"
    and "\<And>i. i < msg_bytes q n \<Longrightarrow>
      bytes h' (ring_addr (mRing q) (ring_size q) (writeCtr q (bmem s)) i) = bytes (bmem s) (data + of_nat i)"
    and "\<And>a. (\<And>i. i < msg_bytes q n \<Longrightarrow>
      a \<noteq> ring_addr (mRing q) (ring_size q) (writeCtr q (bmem s)) i) \<Longrightarrow> bytes h' a = bytes (bmem s) a"
proof -
  have W: "log_inv q (bmem s) log" "tx = ring_tx q (ring_size q) (writeCtr q (bmem s)) n"
    "msg_bytes q n \<le> unat (ring_size q)" "length log + msg_bytes q n < 2 ^ 64"
    using inv begun by (simp_all add: bcast_inv_def)
  note L = log_invD [OF W(1)]
  have st: "ring_stretch q (ring_size q) (writeCtr q (bmem s)) n"
    using L(7-10) W(3) by (simp add: ring_stretch_def msg_bytes_def)
  have seam: "no_seam (ring_size q) (writeCtr q (bmem s)) (msg_bytes q n)"
    unfolding L(3) by (rule no_seam_of_nat) (use W(4) in simp)
  have data: "data \<noteq> 0" "disjoint_ranges data (msg_bytes q n) (mRing q) (unat (ring_size q))"
    using buf W(3) by (simp_all add: buffer_ok_def)
  show ?thesis using ring_copyTo [OF st seam data, of "bmem s"] that unfolding W(2) by metis
qed

lemma bcast_copy_in:
  assumes inv: "bcast_inv q p s log got" and begun: "bwriter s = WBegun n tx"
    and buf: "buffer_ok q data n" and run: "copyTo (sizeofT q) tx (bmem s) data 0 n = Inr (ok, h')"
  shows "bcast_inv q p (s\<lparr>bmem := h', bwriter :=
    if ok then WCopied n (mem_bytes (bmem s) data (msg_bytes q n)) else WIdle\<rparr>) log got"
proof -
  let ?S = "ring_size q" and ?m = "msg_bytes q n" and ?w = "writeCtr q (bmem s)"
  let ?new = "mem_bytes (bmem s) data (msg_bytes q n)"
  have W: "log_inv q (bmem s) log" "?m \<le> unat ?S" "length log + ?m < 2 ^ 64"
    using inv begun by (simp_all add: bcast_inv_def)
  note L = log_invD [OF W(1)]
  have room: "log_room q log ?m" using W(3) by (simp add: log_room_def)
  have ok: ok and words: "words64 h' = words64 (bmem s)"
    and new: "\<And>i. i < ?m \<Longrightarrow> bytes h' (ring_addr (mRing q) ?S ?w i) = bytes (bmem s) (data + of_nat i)"
    and old: "\<And>a. (\<And>i. i < ?m \<Longrightarrow> a \<noteq> ring_addr (mRing q) ?S ?w i) \<Longrightarrow> bytes h' a = bytes (bmem s) a"
    using copy_in_effect [OF inv begun buf] run by (metis Inr_inject prod.inject)+
  note cells = queue_cells [OF L(1)]
  have new': "bytes h' (ring_addr (mRing q) ?S ?w i) = ?new ! i" if "i < ?m" for i
    using new that by simp
  note ring = ring_overwritten [OF room W(1,2) new' old]
  have "log_inv q (set_writeCtr q (of_nat (length (log @ ?new))) h') (log @ ?new)"
    using L(1-4) W(3) ring by (simp add: log_inv_def cells msg_bytes_def)
  then have w: "writer_log q h' (log @ []) (WCopied n ?new)"
    using W(3) L(3,4) words unfolding writer_log.simps by simp
  have "bcast_inv q p (s\<lparr>bmem := h', bwriter := WCopied n ?new\<rparr>) (log @ []) got"
    by (rule writer_moves [OF inv _ w]) (use W(3) begun words in simp_all)
  with ok show ?thesis by simp
qed

lemma bcast_commit_write:
  assumes inv: "bcast_inv q p s log got" and copied: "bwriter s = WCopied n new"
    and run: "commitWrite q (bmem s) n = Inr (ok, h')"
  shows "bcast_inv q p (s\<lparr>bmem := h', bwriter := WIdle\<rparr>) (log @ concat (if ok then [new] else [])) got"
proof -
  have "writer_log q (bmem s) log (WCopied n new)" using inv unfolding bcast_inv_def copied by blast
  then have W: "length new = msg_bytes q n" "length log + msg_bytes q n < 2 ^ 64"
    "writeCtr q (bmem s) = of_nat (length log)"
    "log_inv q (set_writeCtr q (of_nat (length (log @ new))) (bmem s)) (log @ new)"
    by (blast dest: writer_copied)+
  note cells = queue_cells [OF log_invD(1) [OF W(4)]]
  have small: "msg_bytes q n < 18446744073709551616" using W(2) by simp
  have "of_nat (length (log @ new)) = writeCtr q (bmem s) + n * sizeofT q"
    by (simp add: W(1,3) msg_bytes_of_nat [OF small])
  then have ok: "ok" "h' = set_writeCtr q (of_nat (length (log @ new))) (bmem s)"
    using run commitWrite_result [OF log_invD(1) [OF W(4)], of "bmem s" n] by simp_all
  have w: "writer_log q h' (log @ new) WIdle" using W(4) ok(2) by simp
  have "bcast_inv q p (s\<lparr>bmem := h', bwriter := WIdle\<rparr>) (log @ new) got"
    by (rule writer_moves [OF inv _ w]) (use W(1,2) copied ok(2) in \<open>simp_all add: set_writeCtr_def\<close>)
  with ok(1) show ?thesis by simp
qed

text \<open>What a reader finds when it begins, copies and commits.\<close>

lemma reader_facts:
  assumes inv: "bcast_inv q p s log got" and r: "reader_counter q r"
  obtains pos where "reader_at (with_counter q r) (bmem s) log pos"
    and "reader_log q (in_flight (bwriter s)) log pos (breader s r)"
    and "r = p \<longrightarrow> slices_of (take pos log) got"
    and "readable_log q (bmem s) log (in_flight (bwriter s))"
proof -
  have "readable_log q (bmem s) log (in_flight (bwriter s))"
    using inv writer_log_readable unfolding bcast_inv_def by blast
  then show ?thesis using inv r that unfolding bcast_inv_def by blast
qed

lemma slices_keep: "r = p \<longrightarrow> slices_of xs got \<Longrightarrow> r = p \<Longrightarrow> slices_of xs (got @ [])"
  by simp

text \<open>Both checks of the code send an overtaken reader to the end of the log.\<close>

lemma overtaken_jumps:
  assumes inv: "bcast_inv q p s log got" and r: "reader_counter q r"
  shows "bcast_inv q p (set_breader r RIdle
    (s\<lparr>bmem := set_readCtr (with_counter q r) (writeCtr q (bmem s)) (bmem s)\<rparr>)) log got"
proof -
  let ?h = "set_readCtr (with_counter q r) (writeCtr q (bmem s)) (bmem s)"
  obtain pos where at: "reader_at (with_counter q r) (bmem s) log pos"
    and sl: "r = p \<longrightarrow> slices_of (take pos log) got"
    and R: "readable_log q (bmem s) log (in_flight (bwriter s))"
    by (rule reader_facts [OF inv r])
  note D = readable_logD [OF R]
  have w: "words64 ?h = (words64 (bmem s))(r := writeCtr q (bmem s))" "bytes ?h = bytes (bmem s)"
    by (simp_all add: set_readCtr_def)
  have at': "reader_at (with_counter q r) ?h log (length log)"
    using D(2-4) by (simp add: reader_at_def set_readCtr_def)
  have "r = p \<Longrightarrow> slices_of (take (length log) log) (got @ [])"
    using sl slices_take [OF _ reader_lag(4) [OF R at], of log got] by simp
  from reader_moves [OF inv r _ _ at' _ this, of RIdle] w show ?thesis by simp
qed

lemma bcast_begin_read:
  assumes inv: "bcast_inv q p s log got" and idle: "breader s r = RIdle" and r: "reader_counter q r"
    and small: "msg_bytes q n < 2 ^ 64"
    and run: "beginRead (with_counter q r) (bmem s) n = Inr (ok, tx, h')"
  shows "bcast_inv q p (set_breader r (if ok then RBegun n tx else RIdle) (s\<lparr>bmem := h'\<rparr>)) log got"
proof -
  let ?q = "with_counter q r"
  obtain pos where at: "reader_at ?q (bmem s) log pos"
    and sl: "r = p \<longrightarrow> slices_of (take pos log) got"
    and R: "readable_log q (bmem s) log (in_flight (bwriter s))"
    by (rule reader_facts [OF inv r])
  note D = readable_logD [OF R] and lag = reader_lag [OF R at]
  have z: "unat (sizeofT ?q) dvd unat (writeCtr ?q (bmem s))" "unat (sizeofT ?q) dvd unat (readCtr ?q (bmem s))"
    using D(2-4) lag(3,5) by simp_all
  have small': "msg_bytes ?q n < 18446744073709551616" using small by simp
  note res = beginRead_result [OF with_counter_wf [OF D(1) r] z small', unfolded with_counter_simps lag(1)]
  have stay: "bcast_inv q p (set_breader r rd (s\<lparr>bmem := bmem s\<rparr>)) log (got @ [])"
    if "reader_log q (in_flight (bwriter s)) log pos rd" for rd
    by (rule reader_moves [OF inv r _ _ at that slices_keep [OF sl]]) simp_all
  consider (overtaken) "unat (ring_size q) < length log - pos"
    | (short) "\<not> unat (ring_size q) < length log - pos" "length log - pos < msg_bytes q n"
    | (granted) "\<not> unat (ring_size q) < length log - pos" "\<not> length log - pos < msg_bytes q n"
    by blast
  then show ?thesis
  proof cases
    case overtaken
    then show ?thesis using run res overtaken_jumps [OF inv r] by simp
  next
    case short
    then show ?thesis using run res stay [of RIdle] by simp
  next
    case granted
    then have "reader_log q (in_flight (bwriter s)) log pos (RBegun n (ring_tx q (ring_size q) (of_nat pos) n))"
      using lag(4) by simp
    moreover have "ok" "tx = ring_tx q (ring_size q) (of_nat pos) n" "h' = bmem s"
      using run res granted lag(2) by simp_all
    ultimately show ?thesis using stay by simp
  qed
qed

lemma copy_out_effect:
  assumes inv: "bcast_inv q p s log got" and begun: "breader s r = RBegun n tx"
    and r: "reader_counter q r" and buf: "buffer_ok q data n"
  obtains h' pos where "copyFrom (sizeofT q) tx (bmem s) data 0 n = Inr (True, h')"
    and "words64 h' = words64 (bmem s)"
    and "\<And>j. j < unat (ring_size q) \<Longrightarrow>
      bytes h' (mRing q + of_nat j) = bytes (bmem s) (mRing q + of_nat j)"
    and "reader_at (with_counter q r) (bmem s) log pos"
    and "reader_log q (in_flight (bwriter s)) log pos (RCopied n (mem_bytes h' data (msg_bytes q n)))"
    and "r = p \<longrightarrow> slices_of (take pos log) got"
proof -
  let ?S = "ring_size q" and ?m = "msg_bytes q n"
  obtain pos where at: "reader_at (with_counter q r) (bmem s) log pos"
    and rd: "reader_log q (in_flight (bwriter s)) log pos (breader s r)"
    and sl: "r = p \<longrightarrow> slices_of (take pos log) got"
    and R: "readable_log q (bmem s) log (in_flight (bwriter s))"
    by (rule reader_facts [OF inv r])
  note D = readable_logD [OF R] and lag = reader_lag [OF R at]
  have tx: "tx = ring_tx q ?S (of_nat pos) n" and has: "pos + ?m \<le> length log" "?m \<le> unat ?S"
    using rd begun by simp_all
  have pos: "unat (of_nat pos :: u64) = pos" using lag(2,3) by simp
  have st: "ring_stretch q ?S (of_nat pos) n"
    using D(6-8) lag(5) has(2) by (simp add: ring_stretch_def msg_bytes_def pos)
  have seam: "no_seam ?S (of_nat pos) ?m" by (rule no_seam_of_nat) (use has(1) D(4) in simp)
  have data: "data \<noteq> 0" "disjoint_ranges data ?m (mRing q) (unat ?S)"
    using buf has(2) by (simp_all add: buffer_ok_def)
  obtain h1 where h1: "copyFrom (sizeofT q) (ring_tx q ?S (of_nat pos) n) (bmem s) data 0 n = Inr (True, h1)"
    "words64 h1 = words64 (bmem s)" "mem_bytes h1 data ?m = ring_bytes (bmem s) (mRing q) ?S (of_nat pos) ?m"
    "\<And>a. (\<And>i. i < ?m \<Longrightarrow> a \<noteq> data + of_nat i) \<Longrightarrow> bytes h1 a = bytes (bmem s) a"
    using ring_copyFrom [OF st seam data, of "bmem s"] by metis
  have ring: "bytes h1 (mRing q + of_nat j) = bytes (bmem s) (mRing q + of_nat j)" if "j < unat ?S" for j
    using disjoint_ranges_neq [OF data(2) _ that] by (intro h1(4)) metis
  have "reader_log q (in_flight (bwriter s)) log pos (RCopied n (mem_bytes h1 data ?m))"
    using has ring_holds_slice [OF D(5) has(1)] h1(3) by simp
  from that [OF h1(1) [folded tx] h1(2) ring at this sl] show ?thesis .
qed

lemma bcast_copy_out:
  assumes inv: "bcast_inv q p s log got" and begun: "breader s r = RBegun n tx"
    and r: "reader_counter q r" and buf: "buffer_ok q data n"
    and run: "copyFrom (sizeofT q) tx (bmem s) data 0 n = Inr (ok, h')"
  shows "bcast_inv q p (set_breader r
    (if ok then RCopied n (mem_bytes h' data (msg_bytes q n)) else RIdle) (s\<lparr>bmem := h'\<rparr>)) log got"
proof (rule copy_out_effect [OF inv begun r buf])
  fix h1 pos
  assume h1: "copyFrom (sizeofT q) tx (bmem s) data 0 n = Inr (True, h1)" "words64 h1 = words64 (bmem s)"
    and ring: "\<And>j. j < unat (ring_size q) \<Longrightarrow>
      bytes h1 (mRing q + of_nat j) = bytes (bmem s) (mRing q + of_nat j)"
    and at: "reader_at (with_counter q r) (bmem s) log pos"
    and rd: "reader_log q (in_flight (bwriter s)) log pos (RCopied n (mem_bytes h1 data (msg_bytes q n)))"
    and sl: "r = p \<longrightarrow> slices_of (take pos log) got"
  have ok: "ok" "h' = h1" using run h1(1) by simp_all
  have "reader_at (with_counter q r) h1 log pos" by (rule reader_at_other [OF at]) (simp add: h1(2))
  from reader_moves [OF inv r _ ring this rd slices_keep [OF sl]] h1(2) ok
  show ?thesis by simp
qed

lemma bcast_commit_read:
  assumes inv: "bcast_inv q p s log got" and copied: "breader s r = RCopied n new"
    and r: "reader_counter q r" and quiet: "in_flight (bwriter s) = 0"
    and run: "commitRead (with_counter q r) (bmem s) n = Inr (ok, h')"
  shows "bcast_inv q p (set_breader r RIdle (s\<lparr>bmem := h'\<rparr>)) log (got @ (if ok \<and> r = p then [new] else []))"
proof -
  let ?q = "with_counter q r" and ?S = "ring_size q" and ?m = "msg_bytes q n"
  obtain pos where at: "reader_at ?q (bmem s) log pos"
    and rd: "reader_log q (in_flight (bwriter s)) log pos (breader s r)"
    and sl: "r = p \<longrightarrow> slices_of (take pos log) got"
    and R: "readable_log q (bmem s) log (in_flight (bwriter s))"
    by (rule reader_facts [OF inv r])
  note D = readable_logD [OF R] and lag = reader_lag [OF R at]
  note res = commitRead_result [OF with_counter_wf [OF D(1) r], of "bmem s" n,
      unfolded with_counter_simps lag(1)]
  show ?thesis
  proof (cases "unat ?S < length log - pos")
    case True
    then show ?thesis using run res overtaken_jumps [OF inv r] by simp
  next
    case False
    have has: "pos + ?m \<le> length log" "?m \<le> unat ?S" using rd copied by simp_all
    have new: "new = take ?m (drop pos log)" using rd copied quiet False by simp
    have "?m < 18446744073709551616" using has(1) D(4) by linarith
    note small = msg_bytes_of_nat [OF this]
    let ?h = "set_readCtr ?q (of_nat (pos + ?m)) (bmem s)"
    have ok: "ok" "h' = ?h" using run res False by (simp_all add: lag(2) small)
    have w: "words64 ?h = (words64 (bmem s))(r := of_nat (pos + ?m))" "bytes ?h = bytes (bmem s)"
      by (simp_all add: set_readCtr_def)
    have "reader_at ?q ?h log (pos + ?m)"
      using has(1) D(4) lag(5) msg_bytes_aligned [of q n] by (simp add: reader_at_def set_readCtr_def)
    moreover have "r = p \<Longrightarrow> slices_of (take (pos + ?m) log) (got @ (if r = p then [new] else []))"
      using sl slices_next [of pos log got ?m] by (simp add: new)
    ultimately show ?thesis
      using reader_moves [OF inv r, of ?h "pos + ?m" RIdle "if r = p then [new] else []"] ok w by simp
  qed
qed

lemma bcast_step_preserves:
  assumes "bcast_step q p s sent recv s'" and "bcast_inv q p s log got"
  shows "bcast_inv q p s' (log @ concat sent) (got @ recv)"
  using assms(1)
proof cases
  case (begin_write n ok tx)
  then show ?thesis using bcast_begin_write [OF assms(2)] by simp
next
  case (copy_in n tx data ok h')
  then show ?thesis using bcast_copy_in [OF assms(2)] by simp
next
  case (commit_write n new ok h')
  then show ?thesis using bcast_commit_write [OF assms(2)] by simp
next
  case (begin_read r n ok tx h')
  then show ?thesis using bcast_begin_read [OF assms(2)] by simp
next
  case (copy_out r n tx data ok h')
  then show ?thesis using bcast_copy_out [OF assms(2)] by simp
next
  case (commit_read r n new ok h')
  then show ?thesis using bcast_commit_read [OF assms(2)] by simp
next
  case (other_memory h')
  have len: "length log < 2 ^ 64" and w: "writer_log q (bmem s) log (bwriter s)"
    using assms(2) by (simp_all add: bcast_inv_def)
  have "writer_log q h' (log @ []) (bwriter s)"
    using writer_log_frame [OF w] other_memory by simp
  from writer_moves [OF assms(2) _ this] len other_memory show ?thesis by simp
qed

lemma bcast_inv_start: "bcast_ready q h \<Longrightarrow> bcast_inv q p (bcast_start h) [] []"
  by (simp add: bcast_ready_def bcast_inv_def bcast_start_def log_inv_def reader_at_def exI [of _ 0])

lemma bcast_reachable:
  "run (bcast_step q p) s0 sent recv s \<Longrightarrow> bcast_inv q p s0 [] [] \<Longrightarrow> bcast_inv q p s (concat sent) recv"
proof (induction rule: run.induct)
  case (run_step s sent recv s' xs ys s'')
  from bcast_step_preserves [OF run_step(2) run_step.IH [OF run_step.prems]] show ?case by simp
qed simp


end
