(* ===== verification/Weak_Memory.thy ===== *)
theory Weak_Memory
  imports Queue_Atomic
begin

text \<open>
  The memory model of C++ for the programs of \<open>Queue_Atomic\<close>: what a thread may load from an
  atomic counter while others store to it, and which accesses to bytes are data races. It is the
  usual operational form, by views. An atomic cell keeps all its modifications in their order; a
  load may take any of them but those older than one that the thread knows of. A release store
  hands on what its thread knows: of each cell a modification, and of each thread how much of it
  has happened. An acquire load that takes the store's value learns that. Bytes have one value,
  and an access to a byte that does not happen after all accesses that conflict with it is a race.
\<close>

section \<open>States\<close>

text \<open>
  A clock counts epochs for each thread. A thread begins a new epoch with each store to a counter,
  and what is in the epochs that a clock covers is known to have happened.
\<close>

type_synonym 't clock = "'t \<Rightarrow> nat"

text \<open>
  Of each cell a thread has \<open>seen\<close> a modification, of which the number is its place in the order.
\<close>

record 't knowledge =
  seen :: "ptr \<Rightarrow> nat"
  clock :: "'t clock"

definition learn :: "'t knowledge \<Rightarrow> 't knowledge \<Rightarrow> 't knowledge" where
  "learn k K = \<lparr>seen = (\<lambda>p. max (seen K p) (seen k p)), clock = (\<lambda>u. max (clock K u) (clock k u))\<rparr>"

text \<open>
  A modification has its value and the knowledge that it hands on. For each byte the last epochs
  in which the threads stored to it and loaded it are kept.
\<close>

record 't shared =
  history :: "ptr \<Rightarrow> nat \<Rightarrow> (u64 \<times> 't knowledge) option"
  plain :: "ptr \<Rightarrow> u8"
  stored :: "ptr \<Rightarrow> 't clock"
  loaded :: "ptr \<Rightarrow> 't clock"

text \<open>What others stored to the byte is known to the thread; or all they did with it is.\<close>

definition load_safe :: "'t \<Rightarrow> 't knowledge \<Rightarrow> 't shared \<Rightarrow> ptr \<Rightarrow> bool" where
  "load_safe t K M a \<longleftrightarrow> (\<forall>u. u \<noteq> t \<longrightarrow> stored M a u \<le> clock K u)"

definition store_safe :: "'t \<Rightarrow> 't knowledge \<Rightarrow> 't shared \<Rightarrow> ptr \<Rightarrow> bool" where
  "store_safe t K M a \<longleftrightarrow> load_safe t K M a \<and> (\<forall>u. u \<noteq> t \<longrightarrow> loaded M a u \<le> clock K u)"

section \<open>Accesses\<close>

definition tick :: "'t \<Rightarrow> 't knowledge \<Rightarrow> 't knowledge" where
  "tick t K = K\<lparr>clock := (clock K)(t := Suc (clock K t))\<rparr>"

definition saw :: "ptr \<Rightarrow> nat \<Rightarrow> 't knowledge \<Rightarrow> 't knowledge" where
  "saw p i K = K\<lparr>seen := (seen K)(p := i)\<rparr>"

definition took :: "memory_order \<Rightarrow> 't knowledge \<Rightarrow> 't knowledge \<Rightarrow> 't knowledge" where
  "took mo c K = (if mo = Acquire then learn c K else K)"

text \<open>What a store hands on: with another order than release only itself.\<close>

definition bare :: "ptr \<Rightarrow> nat \<Rightarrow> 't knowledge" where
  "bare p i = \<lparr>seen = (\<lambda>_. 0)(p := i), clock = (\<lambda>u. 0)\<rparr>"

definition given :: "memory_order \<Rightarrow> ptr \<Rightarrow> nat \<Rightarrow> 't knowledge \<Rightarrow> 't knowledge" where
  "given mo p i K = (if mo = Release then saw p i K else bare p i)"

definition put_message :: "ptr \<Rightarrow> nat \<Rightarrow> u64 \<Rightarrow> 't knowledge \<Rightarrow> 't shared \<Rightarrow> 't shared" where
  "put_message p i v c M = M\<lparr>history := (history M)(p := (history M p)(i \<mapsto> (v, c)))\<rparr>"

definition note_load :: "'t \<Rightarrow> ptr \<Rightarrow> 't knowledge \<Rightarrow> 't shared \<Rightarrow> 't shared" where
  "note_load t a K M = M\<lparr>loaded := (loaded M)(a := (loaded M a)(t := clock K t))\<rparr>"

definition put_byte :: "'t \<Rightarrow> ptr \<Rightarrow> u8 \<Rightarrow> 't knowledge \<Rightarrow> 't shared \<Rightarrow> 't shared" where
  "put_byte t a b K M = M\<lparr>plain := (plain M)(a := b),
     stored := (stored M)(a := (stored M a)(t := clock K t))\<rparr>"

text \<open>
  The next access of thread \<open>t\<close>. A racing access to a byte is no step: it is undefined behaviour,
  and that none comes up is to be proved.
\<close>

inductive weak_access ::
  "'t \<Rightarrow> 'a prog \<Rightarrow> 't knowledge \<Rightarrow> 't shared \<Rightarrow> 'a prog \<Rightarrow> 't knowledge \<Rightarrow> 't shared \<Rightarrow> bool"
  for t where
  counter_load: "p \<noteq> nullptr \<Longrightarrow> history M p i = Some (v, c) \<Longrightarrow> seen K p \<le> i \<Longrightarrow>
    weak_access t (LoadC mo p k) K M (k v) (took mo c (saw p i K)) M"
| counter_store: "p \<noteq> nullptr \<Longrightarrow> history M p i = None \<Longrightarrow> seen K p < i \<Longrightarrow>
    weak_access t (StoreC mo p v k) K M k (tick t (saw p i K))
      (put_message p i v (given mo p i K) M)"
| byte_load: "load_safe t K M a \<Longrightarrow>
    weak_access t (LoadB a k) K M (k (plain M a)) K (note_load t a K M)"
| byte_store: "store_safe t K M a \<Longrightarrow>
    weak_access t (StoreB a b k) K M k K (put_byte t a b K M)"

inductive_cases weak_accessE: "weak_access t p K M p' K' M'"

inductive_simps weak_access_simps [simp]:
  "weak_access t (Ret x) K M p' K' M'"
  "weak_access t (Fail e) K M p' K' M'"
  "weak_access t (LoadB a k) K M p' K' M'"
  "weak_access t (StoreB a b k) K M p' K' M'"

inductive_cases counter_loadE: "weak_access t (LoadC mo p k) K M p' K' M'"
inductive_cases counter_storeE: "weak_access t (StoreC mo p v k) K M p' K' M'"

text \<open>A race: the next access is to a byte and must not be made.\<close>

definition racy :: "'t \<Rightarrow> 'a prog \<Rightarrow> 't knowledge \<Rightarrow> 't shared \<Rightarrow> bool" where
  "racy t p K M \<longleftrightarrow> (case next_access p of
       Some (ByteLoad a) \<Rightarrow> \<not> load_safe t K M a
     | Some (ByteStore a) \<Rightarrow> \<not> store_safe t K M a
     | _ \<Rightarrow> False)"

lemma weak_access_not_racy: "weak_access t p K M p' K' M' \<Longrightarrow> \<not> racy t p K M"
  by (erule weak_access.cases) (simp_all add: racy_def)

lemma knowledge_simps [simp]:
  "seen (tick t K) = seen K" "clock (saw p i K) = clock K" "seen (saw p i K) = (seen K)(p := i)"
  "clock (tick t K) = (clock K)(t := Suc (clock K t))"
  "seen (learn k K) p = max (seen K p) (seen k p)" "clock (learn k K) u = max (clock K u) (clock k u)"
  "seen (bare p i) = (\<lambda>_. 0)(p := i)" "clock (bare p i) = (\<lambda>u. 0)"
  by (simp_all add: tick_def saw_def learn_def bare_def)

lemma shared_simps [simp]:
  "history (note_load t a K M) = history M" "history (put_byte t a b K M) = history M"
  "plain (note_load t a K M) = plain M" "plain (put_byte t a b K M) = (plain M)(a := b)"
  "plain (put_message p i v c M) = plain M"
  "stored (note_load t a K M) = stored M" "stored (put_message p i v c M) = stored M"
  "loaded (put_byte t a b K M) = loaded M" "loaded (put_message p i v c M) = loaded M"
  "history (put_message p i v c M) = (history M)(p := (history M p)(i \<mapsto> (v, c)))"
  "stored (put_byte t a b K M) = (stored M)(a := (stored M a)(t := clock K t))"
  "loaded (note_load t a K M) = (loaded M)(a := (loaded M a)(t := clock K t))"
  by (simp_all add: note_load_def put_byte_def put_message_def)

text \<open>Knowledge only grows.\<close>

lemma weak_access_clock: "weak_access t p K M p' K' M' \<Longrightarrow> clock K u \<le> clock K' u"
  by (erule weak_access.cases) (auto simp: took_def)

lemma weak_access_seen: "weak_access t p K M p' K' M' \<Longrightarrow> seen K a \<le> seen K' a"
  by (erule weak_access.cases) (auto simp: took_def)

text \<open>An access leaves no mark but its own, and no other byte than its own changes.\<close>

definition touched :: "'a prog \<Rightarrow> ptr set" where
  "touched p = (case next_access p of Some (ByteLoad a) \<Rightarrow> {a} | Some (ByteStore a) \<Rightarrow> {a} | _ \<Rightarrow> {})"

lemma touched_simps [simp]:
  "touched (LoadC mo p l) = {}" "touched (StoreC mo p v k) = {}"
  "touched (LoadB a m) = {a}" "touched (StoreB a b k) = {a}"
  by (simp_all add: touched_def)

lemma weak_access_marks:
  assumes "weak_access t p K M p' K' M'" and "u \<noteq> t \<or> a \<notin> touched p"
  shows "stored M' a u = stored M a u" and "loaded M' a u = loaded M a u"
    and "a \<notin> touched p \<Longrightarrow> plain M' a = plain M a"
  using assms by (induction rule: weak_access.induct) auto

text \<open>So what is safe for a thread stays so, whatever it does, and whatever others do elsewhere.\<close>

lemma safe_own:
  assumes "weak_access t p K M p' K' M'"
  shows "load_safe t K M a \<Longrightarrow> load_safe t K' M' a" and "store_safe t K M a \<Longrightarrow> store_safe t K' M' a"
  using weak_access_marks [OF assms] le_trans [OF _ weak_access_clock [OF assms]]
  by (auto simp: load_safe_def store_safe_def)

lemma safe_other:
  assumes "weak_access t p K M p' K' M'" and "a \<notin> touched p"
  shows "load_safe u L M a \<Longrightarrow> load_safe u L M' a" and "store_safe u L M a \<Longrightarrow> store_safe u L M' a"
  using weak_access_marks [OF assms(1)] assms(2) by (simp_all add: load_safe_def store_safe_def)

section \<open>Modifications\<close>

text \<open>The value of the modification \<open>i\<close> of a cell.\<close>

definition value_at :: "'t shared \<Rightarrow> ptr \<Rightarrow> nat \<Rightarrow> u64" where
  "value_at M p i = (case history M p i of None \<Rightarrow> 0 | Some (v, c) \<Rightarrow> v)"

lemma message_at: "history M p i = Some (v, c) \<Longrightarrow> value_at M p i = v"
  by (simp add: value_at_def)

lemma message_simps [simp]:
  "value_at (note_load t a K M) = value_at M" "value_at (put_byte t a b K M) = value_at M"
  "value_at (put_message p i v c M) p' j = (if p' = p \<and> j = i then v else value_at M p' j)"
  by (auto simp: value_at_def fun_eq_iff)

text \<open>Memory that all threads know as it is in \<open>h\<close>, and a thread that knows that.\<close>

definition settled :: "heap \<Rightarrow> 't shared" where
  "settled h = \<lparr>history = (\<lambda>p i. if i = 0 then Some (words64 h p, bare p 0) else None),
     plain = bytes h, stored = (\<lambda>a u. 0), loaded = (\<lambda>a u. 0)\<rparr>"

definition newcomer :: "'t \<Rightarrow> 't knowledge" where
  "newcomer t = \<lparr>seen = (\<lambda>p. 0), clock = (\<lambda>u. if u = t then 1 else 0)\<rparr>"

lemma settled_safe [simp]: "load_safe t K (settled h) a" "store_safe t K (settled h) a"
  by (simp_all add: load_safe_def store_safe_def settled_def)

end
