(* ===== verification/Queue_Weak.thy ===== *)
theory Queue_Weak
  imports Queue_Fine Weak_Memory
begin

text \<open>
  One writer and one reader on a synchronized queue under the memory model of C++, with the orders
  that the code gives to its accesses: each side may find the counter of the other side as it was
  some time ago, and no byte may be touched by both without an order between them.
\<close>

section \<open>The system\<close>

record weak =
  wmem :: "role shared"
  knows :: "role \<Rightarrow> role knowledge"
  calls :: "role \<Rightarrow> side"

text \<open>
  The memory of a queue as far as it matters, from its bytes and two values of its counters. A
  thread sees the values of the modifications that it has seen; \<open>newest\<close> has the last store to
  each counter, which is its owner's.
\<close>

definition snap :: "MessageQueue \<Rightarrow> (ptr \<Rightarrow> u8) \<Rightarrow> u64 \<Rightarrow> u64 \<Rightarrow> heap" where
  "snap q B r w = \<lparr>bytes = B,
     words64 = (\<lambda>p. if p = mReadPtr q then r else if p = mWritePtr q then w else 0),
     words32 = (\<lambda>p. 0)\<rparr>"

definition read_at :: "MessageQueue \<Rightarrow> role shared \<Rightarrow> role knowledge \<Rightarrow> u64" where
  "read_at q M K = value_at M (mReadPtr q) (seen K (mReadPtr q))"

definition written_at :: "MessageQueue \<Rightarrow> role shared \<Rightarrow> role knowledge \<Rightarrow> u64" where
  "written_at q M K = value_at M (mWritePtr q) (seen K (mWritePtr q))"

definition view :: "MessageQueue \<Rightarrow> role shared \<Rightarrow> role knowledge \<Rightarrow> heap" where
  "view q M K = snap q (plain M) (read_at q M K) (written_at q M K)"

definition newest :: "MessageQueue \<Rightarrow> weak \<Rightarrow> heap" where
  "newest q s = snap q (plain (wmem s)) (read_at q (wmem s) (knows s Reader))
     (written_at q (wmem s) (knows s Writer))"

abbreviation ring_range :: "MessageQueue \<Rightarrow> ptr set" where
  "ring_range q \<equiv> byte_range (mRing q) (unat (ring_size q))"

fun call_buffer :: "MessageQueue \<Rightarrow> side \<Rightarrow> ptr set" where
  "call_buffer q Idle = {}"
| "call_buffer q (Running data n b p) = byte_range data (buf_len q n)"

definition weak_start :: "heap \<Rightarrow> weak" where
  "weak_start h = \<lparr>wmem = settled h, knows = newcomer, calls = (\<lambda>r. Idle)\<rparr>"

text \<open>
  The labels are as in \<open>fine_step\<close>. A caller owes that its buffer is in its hands: what the other
  thread did with it is known to it. Between calls a thread may touch all other memory, without a
  race, and the two may synchronize by other means.
\<close>

inductive weak_step :: "MessageQueue \<Rightarrow> weak \<Rightarrow> u8 list \<Rightarrow> u8 list \<Rightarrow> weak \<Rightarrow> bool" for q where
  weak_start_write: "calls s Writer = Idle \<Longrightarrow> buffer_ok q data n \<Longrightarrow>
    write_room q (view q (wmem s) (knows s Writer)) n \<Longrightarrow> clear_of q data n (calls s Reader) \<Longrightarrow>
    \<forall>a\<in>byte_range data (buf_len q n). load_safe Writer (knows s Writer) (wmem s) a \<Longrightarrow>
    weak_step q s [] [] (s\<lparr>calls := (calls s)
      (Writer := Running data n False (fmq_write_prog q data n))\<rparr>)"
| weak_write_access: "calls s Writer = Running data n b p \<Longrightarrow>
    weak_access Writer p (knows s Writer) (wmem s) p' K M \<Longrightarrow>
    weak_step q s (if stores p = None then []
        else mem_bytes (view q (wmem s) (knows s Writer)) data (msg_bytes q n)) []
      (s\<lparr>wmem := M, knows := (knows s)(Writer := K),
        calls := (calls s)(Writer := Running data n (b \<or> stores p \<noteq> None) p')\<rparr>)"
| weak_write_return: "calls s Writer = Running data n b (Ret ok) \<Longrightarrow>
    weak_step q s [] [] (s\<lparr>calls := (calls s)(Writer := Idle)\<rparr>)"
| weak_start_read: "calls s Reader = Idle \<Longrightarrow> buffer_ok q data n \<Longrightarrow> msg_bytes q n < 2 ^ 64 \<Longrightarrow>
    clear_of q data n (calls s Writer) \<Longrightarrow>
    \<forall>a\<in>byte_range data (buf_len q n). store_safe Reader (knows s Reader) (wmem s) a \<Longrightarrow>
    weak_step q s [] [] (s\<lparr>calls := (calls s)
      (Reader := Running data n False (fmq_read_prog q data n))\<rparr>)"
| weak_read_access: "calls s Reader = Running data n b p \<Longrightarrow>
    weak_access Reader p (knows s Reader) (wmem s) p' K M \<Longrightarrow>
    weak_step q s [] (if stores p = None then []
        else mem_bytes (view q (wmem s) (knows s Reader)) data (msg_bytes q n))
      (s\<lparr>wmem := M, knows := (knows s)(Reader := K),
        calls := (calls s)(Reader := Running data n (b \<or> stores p \<noteq> None) p')\<rparr>)"
| weak_read_return: "calls s Reader = Running data n b (Ret ok) \<Longrightarrow>
    weak_step q s [] [] (s\<lparr>calls := (calls s)(Reader := Idle)\<rparr>)"
| weak_client: "calls s r = Idle \<Longrightarrow>
    weak_access r (p :: unit prog) (knows s r) (wmem s) p' K M \<Longrightarrow>
    next_access p \<in> {Some (ByteLoad a), Some (ByteStore a)} \<Longrightarrow>
    a \<notin> ring_range q \<union> call_buffer q (calls s (other r)) \<Longrightarrow>
    weak_step q s [] [] (s\<lparr>wmem := M, knows := (knows s)(r := K)\<rparr>)"
| weak_sync: "calls s r = Idle \<Longrightarrow> calls s (other r) = Idle \<Longrightarrow>
    weak_step q s [] [] (s\<lparr>knows := (knows s)
      (r := learn (knows s (other r)) (knows s r),
       other r := tick (other r) (knows s (other r)))\<rparr>)"

lemma all_roles: "(\<forall>r. P r) \<longleftrightarrow> P Writer \<and> P Reader"
  by (metis role.exhaust)

inductive_cases weak_stepE: "weak_step q s sent recv s'"

section \<open>Snapshots\<close>

definition stretch :: "MessageQueue \<Rightarrow> u64 \<Rightarrow> u64 \<Rightarrow> ptr set" where
  "stretch q r w = ring_addr (mRing q) (ring_size q) r ` {..<unat (w - r)}"

lemma snap_parts [simp]:
  "bytes (snap q B r w) = B" "readCtr q (snap q B r w) = r"
  "mReadPtr q \<noteq> mWritePtr q \<Longrightarrow> writeCtr q (snap q B r w) = w"
  by (simp_all add: snap_def)

lemma snap_changes [simp]:
  "set_byte a b (snap q B r w) = snap q (B(a := b)) r w"
  "set_word64 (mReadPtr q) v (snap q B r w) = snap q B v w"
  "mReadPtr q \<noteq> mWritePtr q \<Longrightarrow> set_word64 (mWritePtr q) v (snap q B r w) = snap q B r v"
  by (auto simp: snap_def set_byte_def set_word64_def fun_eq_iff)

lemma snap_used:
  "mReadPtr q \<noteq> mWritePtr q \<Longrightarrow> used q (snap q B r w) = unat (w - r)"
  by (simp add: used_def)

lemma snap_held: "mReadPtr q \<noteq> mWritePtr q \<Longrightarrow> held q (snap q B r w) = stretch q r w"
  by (simp add: held_def stretch_def snap_used)

text \<open>A part of the stretch between the counters.\<close>

lemma part_of_stretch:
  assumes "unat (w - r') \<le> unat (w - r)"
  shows "r' = r + of_nat (unat (w - r) - unat ((w :: u64) - r'))"
  using assms by (simp add: of_nat_diff)

lemma stretch_part:
  assumes "unat (w - r') \<le> unat (w - r)" and "unat (w' - r') \<le> unat (w - r')"
  shows "stretch q r' w' \<subseteq> stretch q r w"
proof
  fix a assume "a \<in> stretch q r' w'"
  then obtain i where "a = ring_addr (mRing q) (ring_size q) r' i" "i < unat (w' - r')"
    by (auto simp: stretch_def)
  moreover note part_of_stretch [OF assms(1)]
  ultimately have "a = ring_addr (mRing q) (ring_size q) r (unat (w - r) - unat (w - r') + i)"
    by (metis ring_addr_shift)
  moreover have "unat (w - r) - unat (w - r') + i < unat (w - r)"
    using \<open>i < unat (w' - r')\<close> assms by linarith
  ultimately show "a \<in> stretch q r w" by (auto simp: stretch_def)
qed

lemma snap_part:
  assumes inv: "mq_inv q (snap q B r w)"
    and al: "unat (sizeofT q) dvd unat r'" "unat (sizeofT q) dvd unat w'"
    and sub: "unat (w - r') \<le> unat (w - r)" "unat (w' - r') \<le> unat (w - r')"
  shows "mq_inv q (snap q B r' w')"
    and "contents q (snap q B r' w') =
      take (unat (w' - r')) (drop (unat (w - r) - unat (w - r')) (contents q (snap q B r w)))"
proof -
  define k where "k = unat (w - r) - unat (w - r')"
  have wf: "queue_wf q" using inv by (rule mq_invD)
  then have ne [simp]: "mReadPtr q \<noteq> mWritePtr q" by (auto elim: queue_wfD)
  have M: "unat (w - r) \<le> unat (ring_size q)" "no_seam (ring_size q) r (unat (w - r))"
    using mq_invD(4,5) [OF inv] by (simp_all add: snap_used)
  have r': "r' = r + of_nat k" unfolding k_def by (rule part_of_stretch [OF sub(1)])
  have k: "k + unat (w' - r') \<le> unat (w - r)" using sub by (simp add: k_def)
  have "no_seam (ring_size q) r (k + unat (w' - r'))" using M(2) k by (rule no_seam_mono)
  then have "no_seam (ring_size q) r' (unat (w' - r'))" unfolding r' by (rule no_seam_shift)
  then show "mq_inv q (snap q B r' w')"
    using wf al M(1) k by (simp add: mq_inv_def snap_used)
  have "ring_addr (mRing q) (ring_size q) r' i = ring_addr (mRing q) (ring_size q) r (k + i)" for i
    unfolding r' by (rule ring_addr_shift)
  then show "contents q (snap q B r' w') =
      take (unat (w' - r')) (drop (unat (w - r) - unat (w - r')) (contents q (snap q B r w)))"
    unfolding k_def [symmetric] using k
    by (intro nth_equalityI) (simp_all add: contents_def snap_used)
qed

lemma take_prefix: "j \<le> k \<Longrightarrow> \<exists>ys. take k xs = take j xs @ ys"
  by (metis le_add_diff_inverse take_add)

text \<open>A store moves one end of every stretch by the same length.\<close>

lemma stretch_grows:
  assumes "unat ((v :: u64) - r) = unat (w - r) + m" and "unat (w - r') \<le> unat (w - r)"
  shows "unat (v - r') = unat (w - r') + m"
proof -
  have "(of_nat m :: u64) = (v - r) - (w - r)"
    using assms(1) by (metis add_diff_cancel_left' of_nat_add word_of_nat_unat)
  then have v: "v - r' = (w - r') + of_nat m" by simp
  have "unat (w - r') + m < 18446744073709551616"
    using assms unat_u64_less [of "v - r"] by linarith
  then show ?thesis unfolding v by (simp only: unat_add_of_nat mod_less)
qed

lemma stretch_shrinks:
  assumes "unat (w - r) = m + unat ((w :: u64) - v)" and "unat (w - r) \<le> unat (x - r)"
  shows "unat (x - v) + m = unat (x - r)"
proof -
  have "(of_nat m :: u64) = (w - r) - (w - v)"
    using assms(1) by (metis add_diff_cancel_right' of_nat_add word_of_nat_unat)
  then have v: "x - v = (x - r) - of_nat m" by simp
  have m: "unat (of_nat m :: u64) = m"
    using assms unat_u64_less [of "x - r"] by (intro unat_of_nat_u64) linarith
  then have le: "(of_nat m :: u64) \<le> x - r" using assms by (simp only: word_le_nat_alt)
  show ?thesis unfolding v unat_diff_le [OF le] m using assms by linarith
qed

section \<open>The invariant\<close>

text \<open>
  The counters. Of its own counter a side has seen the last modification. The modifications that
  a side may still load of the other's counter are in the order in which they were made: the
  values of the read counter lie between what the writer has seen and the newest, and those of the
  write counter between what the reader has seen and the newest.
\<close>

definition counters_ok ::
  "MessageQueue \<Rightarrow> role shared \<Rightarrow> role knowledge \<Rightarrow> role knowledge \<Rightarrow> bool" where
  "counters_ok q M Kw Kr \<longleftrightarrow> mq_inv q (view q M Kw) \<and>
     (\<forall>K\<in>{Kw, Kr}. \<forall>p\<in>{mReadPtr q, mWritePtr q}. history M p (seen K p) \<noteq> None) \<and>
     (\<forall>i. history M (mWritePtr q) i \<noteq> None \<longrightarrow> i \<le> seen Kw (mWritePtr q)) \<and>
     (\<forall>i. history M (mReadPtr q) i \<noteq> None \<longrightarrow> i \<le> seen Kr (mReadPtr q)) \<and>
     (\<forall>i. unat (sizeofT q) dvd unat (value_at M (mReadPtr q) i) \<and>
       unat (sizeofT q) dvd unat (value_at M (mWritePtr q) i)) \<and>
     (\<forall>i j. seen Kw (mReadPtr q) \<le> i \<longrightarrow> i \<le> j \<longrightarrow>
       history M (mReadPtr q) i \<noteq> None \<longrightarrow> history M (mReadPtr q) j \<noteq> None \<longrightarrow>
       unat (written_at q M Kw - value_at M (mReadPtr q) j) \<le>
       unat (written_at q M Kw - value_at M (mReadPtr q) i)) \<and>
     (\<forall>i j. seen Kr (mWritePtr q) \<le> i \<longrightarrow> i \<le> j \<longrightarrow>
       history M (mWritePtr q) i \<noteq> None \<longrightarrow> history M (mWritePtr q) j \<noteq> None \<longrightarrow>
       unat (value_at M (mWritePtr q) i - read_at q M Kr) \<le>
       unat (value_at M (mWritePtr q) j - read_at q M Kr))"

text \<open>
  The clocks. Knowledge of what the counters were is also knowledge of what was done before: with
  a value of the read counter, that the reader has made its loads of the bytes that are free at
  that value, and with a value of the write counter, that the writer has made its stores to the
  bytes that wait at that value.
\<close>

definition fits ::
  "MessageQueue \<Rightarrow> role shared \<Rightarrow> role knowledge \<Rightarrow> role knowledge \<Rightarrow> role knowledge \<Rightarrow> bool" where
  "fits q M Kw Kr k \<longleftrightarrow>
     history M (mReadPtr q) (seen k (mReadPtr q)) \<noteq> None \<and>
     history M (mWritePtr q) (seen k (mWritePtr q)) \<noteq> None \<and>
     (seen Kw (mReadPtr q) \<le> seen k (mReadPtr q) \<longrightarrow>
       (\<forall>a\<in>ring_range q - stretch q (read_at q M k) (written_at q M Kw).
          loaded M a Reader \<le> clock k Reader)) \<and>
     (seen Kr (mWritePtr q) \<le> seen k (mWritePtr q) \<longrightarrow>
       (\<forall>a\<in>stretch q (read_at q M Kr) (written_at q M k). stored M a Writer \<le> clock k Writer))"

text \<open>Nobody but the writer stores in the ring; and a side knows what it has handed on.\<close>

definition clocks_ok ::
  "MessageQueue \<Rightarrow> role shared \<Rightarrow> role knowledge \<Rightarrow> role knowledge \<Rightarrow> bool" where
  "clocks_ok q M Kw Kr \<longleftrightarrow>
     (\<forall>a. stored M a Writer \<le> clock Kw Writer \<and> loaded M a Reader \<le> clock Kr Reader) \<and>
     (\<forall>a\<in>ring_range q. stored M a Reader = 0) \<and> fits q M Kw Kr Kw \<and> fits q M Kw Kr Kr \<and>
     (\<forall>p\<in>{mReadPtr q, mWritePtr q}. \<forall>i v k. history M p i = Some (v, k) \<longrightarrow>
        seen k p = i \<and> fits q M Kw Kr k) \<and>
     (\<forall>i v k. history M (mWritePtr q) i = Some (v, k) \<longrightarrow> seen k \<le> seen Kw) \<and>
     (\<forall>i v k. history M (mReadPtr q) i = Some (v, k) \<longrightarrow> seen k \<le> seen Kr)"

lemma counters_okD:
  assumes "counters_ok q M Kw Kr"
  shows "mq_inv q (view q M Kw)" and "queue_wf q" and "mReadPtr q \<noteq> mWritePtr q"
    and "K \<in> {Kw, Kr} \<Longrightarrow> p \<in> {mReadPtr q, mWritePtr q} \<Longrightarrow> history M p (seen K p) \<noteq> None"
    and "history M (mWritePtr q) i \<noteq> None \<Longrightarrow> i \<le> seen Kw (mWritePtr q)"
    and "history M (mReadPtr q) i \<noteq> None \<Longrightarrow> i \<le> seen Kr (mReadPtr q)"
    and "p \<in> {mReadPtr q, mWritePtr q} \<Longrightarrow> unat (sizeofT q) dvd unat (value_at M p i)"
    and "seen Kw (mReadPtr q) \<le> i \<Longrightarrow> i \<le> j \<Longrightarrow>
      history M (mReadPtr q) i \<noteq> None \<Longrightarrow> history M (mReadPtr q) j \<noteq> None \<Longrightarrow>
      unat (written_at q M Kw - value_at M (mReadPtr q) j) \<le>
      unat (written_at q M Kw - value_at M (mReadPtr q) i)"
    and "seen Kr (mWritePtr q) \<le> i \<Longrightarrow> i \<le> j \<Longrightarrow>
      history M (mWritePtr q) i \<noteq> None \<Longrightarrow> history M (mWritePtr q) j \<noteq> None \<Longrightarrow>
      unat (value_at M (mWritePtr q) i - read_at q M Kr) \<le>
      unat (value_at M (mWritePtr q) j - read_at q M Kr)"
proof -
  show inv: "mq_inv q (view q M Kw)" using assms by (simp add: counters_ok_def)
  show "queue_wf q" using inv by (rule mq_invD)
  then show "mReadPtr q \<noteq> mWritePtr q" by (auto elim: queue_wfD)
qed (use assms in \<open>simp_all add: counters_ok_def, auto\<close>)

lemma fitsD:
  assumes "fits q M Kw Kr k"
  shows "history M (mReadPtr q) (seen k (mReadPtr q)) \<noteq> None"
    and "history M (mWritePtr q) (seen k (mWritePtr q)) \<noteq> None"
    and "seen Kw (mReadPtr q) \<le> seen k (mReadPtr q) \<Longrightarrow> a \<in> ring_range q \<Longrightarrow>
      a \<notin> stretch q (read_at q M k) (written_at q M Kw) \<Longrightarrow> loaded M a Reader \<le> clock k Reader"
    and "seen Kr (mWritePtr q) \<le> seen k (mWritePtr q) \<Longrightarrow>
      a \<in> stretch q (read_at q M Kr) (written_at q M k) \<Longrightarrow> stored M a Writer \<le> clock k Writer"
  using assms by (simp_all add: fits_def)

lemma clocks_okI:
  assumes "\<And>a. stored M a Writer \<le> clock Kw Writer" and "\<And>a. loaded M a Reader \<le> clock Kr Reader"
    and "\<And>a. a \<in> ring_range q \<Longrightarrow> stored M a Reader = 0"
    and "fits q M Kw Kr Kw" and "fits q M Kw Kr Kr"
    and "\<And>p i v k. p \<in> {mReadPtr q, mWritePtr q} \<Longrightarrow> history M p i = Some (v, k) \<Longrightarrow>
      seen k p = i \<and> fits q M Kw Kr k"
    and "\<And>i v k. history M (mWritePtr q) i = Some (v, k) \<Longrightarrow> seen k \<le> seen Kw"
    and "\<And>i v k. history M (mReadPtr q) i = Some (v, k) \<Longrightarrow> seen k \<le> seen Kr"
  shows "clocks_ok q M Kw Kr"
  unfolding clocks_ok_def by (intro conjI allI ballI impI assms)

lemma clocks_okD:
  assumes "clocks_ok q M Kw Kr"
  shows "stored M a Writer \<le> clock Kw Writer \<and> loaded M a Reader \<le> clock Kr Reader"
    and "a \<in> ring_range q \<Longrightarrow> stored M a Reader = 0"
    and "fits q M Kw Kr Kw" and "fits q M Kw Kr Kr"
    and "p \<in> {mReadPtr q, mWritePtr q} \<Longrightarrow> history M p i = Some (v, k) \<Longrightarrow>
      seen k p = i \<and> fits q M Kw Kr k"
    and "history M (mWritePtr q) i = Some (v, k) \<Longrightarrow> seen k \<le> seen Kw"
    and "history M (mReadPtr q) i = Some (v, k) \<Longrightarrow> seen k \<le> seen Kr"
  using assms by (auto simp: clocks_ok_def)

text \<open>A modification of a counter that a side may load lies between its view and the newest.\<close>

lemma loadable:
  assumes ok: "counters_ok q M Kw Kr"
  shows "seen Kw (mReadPtr q) \<le> i \<Longrightarrow> history M (mReadPtr q) i \<noteq> None \<Longrightarrow>
      unat (written_at q M Kw - value_at M (mReadPtr q) i) \<le> unat (written_at q M Kw - read_at q M Kw) \<and>
      unat (written_at q M Kw - read_at q M Kr) \<le> unat (written_at q M Kw - value_at M (mReadPtr q) i)"
    and "seen Kr (mWritePtr q) \<le> i \<Longrightarrow> history M (mWritePtr q) i \<noteq> None \<Longrightarrow>
      unat (written_at q M Kr - read_at q M Kr) \<le> unat (value_at M (mWritePtr q) i - read_at q M Kr) \<and>
      unat (value_at M (mWritePtr q) i - read_at q M Kr) \<le> unat (written_at q M Kw - read_at q M Kr)"
  using counters_okD(4-9) [OF ok] unfolding read_at_def written_at_def by auto

lemma views_nested:
  assumes ok: "counters_ok q M Kw Kr"
  shows "unat (written_at q M Kw - read_at q M Kr) \<le> unat (written_at q M Kw - read_at q M Kw)"
    and "unat (written_at q M Kr - read_at q M Kr) \<le> unat (written_at q M Kw - read_at q M Kr)"
  using loadable(1) [OF ok, of "seen Kw (mReadPtr q)"] loadable(2) [OF ok, of "seen Kr (mWritePtr q)"]
    counters_okD(4) [OF ok] unfolding read_at_def written_at_def by auto

text \<open>What is known may be put together, and more of the clock does no harm.\<close>

lemma fits_learn:
  assumes "fits q M Kw Kr c" and "fits q M Kw Kr d"
  shows "fits q M Kw Kr (learn c d)"
  using assms unfolding fits_def read_at_def written_at_def
  by (cases "seen c (mReadPtr q) \<le> seen d (mReadPtr q)"; cases "seen c (mWritePtr q) \<le> seen d (mWritePtr q)")
    (simp_all add: max_absorb1 max_absorb2 le_max_iff_disj)

lemma fits_clock:
  assumes "fits q M Kw Kr c" and "seen d = seen c" and "\<And>u. clock c u \<le> clock d u"
  shows "fits q M Kw Kr d"
  using assms(1,2) le_trans [OF _ assms(3)] by (auto simp: fits_def read_at_def written_at_def)

section \<open>Accesses of the two sides\<close>

lemma at_simps [simp]:
  "read_at q M (tick t K) = read_at q M K" "written_at q M (tick t K) = written_at q M K"
  "read_at q (note_load t a K M) K' = read_at q M K'" "read_at q (put_byte t a b K M) K' = read_at q M K'"
  "written_at q (note_load t a K M) K' = written_at q M K'"
  "written_at q (put_byte t a b K M) K' = written_at q M K'"
  "read_at q M (saw (mReadPtr q) i K) = value_at M (mReadPtr q) i"
  "written_at q M (saw (mWritePtr q) i K) = value_at M (mWritePtr q) i"
  by (simp_all add: read_at_def written_at_def)

lemma at_other [simp]:
  assumes "mReadPtr q \<noteq> mWritePtr q"
  shows "written_at q M (saw (mReadPtr q) i K) = written_at q M K"
    and "read_at q M (saw (mWritePtr q) i K) = read_at q M K"
    and "written_at q (put_message (mReadPtr q) i v c M) K = written_at q M K"
    and "read_at q (put_message (mWritePtr q) i v c M) K = read_at q M K"
  using assms by (auto simp: read_at_def written_at_def)

lemma view_simps [simp]:
  "view q M (tick t K) = view q M K" "view q (note_load t a K M) K' = view q M K'"
  "view q (put_byte t a b K M) K' = set_byte a b (view q M K')"
  by (simp_all add: view_def)

text \<open>A new epoch changes nothing.\<close>

lemma fits_tick [simp]:
  "fits q M (tick t Kw) Kr k = fits q M Kw Kr k" "fits q M Kw (tick t Kr) k = fits q M Kw Kr k"
  by (simp_all add: fits_def)

lemma ok_tick:
  assumes "counters_ok q M Kw Kr" and "clocks_ok q M Kw Kr"
  shows "counters_ok q M (tick Writer Kw) Kr" and "counters_ok q M Kw (tick Reader Kr)"
    and "clocks_ok q M (tick Writer Kw) Kr" and "clocks_ok q M Kw (tick Reader Kr)"
proof -
  show "counters_ok q M (tick Writer Kw) Kr" and "counters_ok q M Kw (tick Reader Kr)"
    using assms(1) by (simp_all add: counters_ok_def)
  have "fits q M Kw Kr (tick t K)" if "fits q M Kw Kr K" for t K
    using that by (rule fits_clock) simp_all
  then show "clocks_ok q M (tick Writer Kw) Kr" and "clocks_ok q M Kw (tick Reader Kr)"
    using assms(2) by (simp_all add: clocks_ok_def le_SucI)
qed

text \<open>A side that learns something: its own counter it knows already.\<close>

lemma writer_learns:
  assumes ok: "counters_ok q M Kw Kr" "clocks_ok q M Kw Kr" and c: "fits q M Kw Kr c"
  defines "K \<equiv> learn c Kw"
  shows "counters_ok q M K Kr" and "clocks_ok q M K Kr"
    and "fits q M Kw Kr k \<Longrightarrow> fits q M K Kr k"
    and "written_at q M K = written_at q M Kw"
    and "env_writer q data m (view q M Kw) (view q M K)"
proof -
  note D = counters_okD [OF ok(1)] and T = clocks_okD [OF ok(2)] and C = fitsD [OF c]
  note ne [simp] = D(3) D(3) [symmetric]
  have w: "seen K (mWritePtr q) = seen Kw (mWritePtr q)" using D(5) [OF C(2)] by (simp add: K_def)
  then show at: "written_at q M K = written_at q M Kw" by (simp add: written_at_def)
  have le: "seen Kw (mReadPtr q) \<le> seen K (mReadPtr q)" by (simp add: K_def)
  have hist: "history M (mReadPtr q) (seen K (mReadPtr q)) \<noteq> None"
    using C(1) D(4) [of Kw "mReadPtr q"] by (simp add: K_def max_def)
  have len: "unat (written_at q M Kw - read_at q M K) \<le> unat (written_at q M Kw - read_at q M Kw)"
    using loadable(1) [OF ok(1) le hist] by (simp add: read_at_def)
  have al: "unat (sizeofT q) dvd unat (read_at q M K)" "unat (sizeofT q) dvd unat (written_at q M Kw)"
    using D(7) by (simp_all add: written_at_def read_at_def)
  have inv: "mq_inv q (view q M K)"
    unfolding view_def at by (rule snap_part(1) [OF D(1) [unfolded view_def] al len order.refl])
  show "counters_ok q M K Kr"
    using ok(1) inv hist le w unfolding counters_ok_def at by (auto simp: w)
  show mono: "fits q M K Kr k" if "fits q M Kw Kr k" for k
    using that le by (auto simp: fits_def at)
  have own: "fits q M K Kr K" unfolding K_def by (intro mono [unfolded K_def] fits_learn c T(3))
  have more: "seen Kw \<le> seen K" "clock Kw Writer \<le> clock K Writer" by (simp_all add: K_def le_fun_def)
  show "clocks_ok q M K Kr"
  proof (rule clocks_okI)
    show "stored M a Writer \<le> clock K Writer" for a using T(1) [of a] more(2) by simp
    show "seen k \<le> seen K" if "history M (mWritePtr q) i = Some (v, k)" for i v k
      using T(6) [OF that] more(1) by (rule order.trans)
  qed (use T mono own in \<open>simp_all\<close>)
  show "env_writer q data m (view q M Kw) (view q M K)"
    using inv len by (simp add: env_writer_def view_def at snap_used)
qed

text \<open>So it is with a load: of its own counter a side finds its last store.\<close>

lemma load_learns: "seen c p = i \<Longrightarrow> seen K p \<le> i \<Longrightarrow> learn c (saw p i K) = learn c K"
  by (simp add: learn_def fun_eq_iff)

lemma load_again: "saw p (seen K p) K = K"
  by (simp add: saw_def)

lemma writer_loads:
  assumes ok: "counters_ok q M Kw Kr" "clocks_ok q M Kw Kr"
    and msg: "history M p i = Some (v, c)" and le: "seen Kw p \<le> i"
    and touch: "p = mWritePtr q \<or> p = mReadPtr q \<and> mo = Acquire"
  defines "K \<equiv> took mo c (saw p i Kw)"
  shows "counters_ok q M K Kr \<and> clocks_ok q M K Kr \<and> words64 (view q M K) p = v \<and>
    written_at q M K = written_at q M Kw \<and> env_writer q data m (view q M Kw) (view q M K) \<and>
    (\<forall>k. fits q M Kw Kr k \<longrightarrow> fits q M K Kr k)"
proof -
  have c: "seen c p = i" "fits q M Kw Kr c" using clocks_okD(5) [OF ok(2) _ msg] touch by auto
  note L = writer_learns [OF ok c(2)]
  note ne [simp] = counters_okD(3) [OF ok(1)]
  have own: "p = mWritePtr q \<Longrightarrow> i = seen Kw p" using counters_okD(5) [OF ok(1), of i] msg le by simp
  have K: "K = (if mo = Acquire then learn c Kw else Kw)"
    using load_learns [OF c(1) le] touch own load_again [of "mWritePtr q" Kw]
    by (auto simp: K_def took_def)
  have "words64 (view q M K) p = v"
  proof (cases "p = mWritePtr q")
    case True
    with own message_at [OF msg] L(4) show ?thesis by (simp add: view_def K, simp add: written_at_def)
  next
    case False
    with touch c(1) le message_at [OF msg] show ?thesis by (auto simp: view_def K read_at_def max_def)
  qed
  with L(1,2,4,5) L(3) ok env_writer_order(1) show ?thesis by (simp add: K reflpD)
qed

text \<open>The writer stores its counter.\<close>

lemma writer_stores_counter:
  assumes ok: "counters_ok q M Kw Kr" "clocks_ok q M Kw Kr"
    and new: "seen Kw (mWritePtr q) < i"
    and inv: "mq_inv q (snap q (plain M) (read_at q M Kw) v)"
    and grows: "unat (v - read_at q M Kw) = unat (written_at q M Kw - read_at q M Kw) + m"
  defines "c \<equiv> saw (mWritePtr q) i Kw"
  defines "K \<equiv> tick Writer c" and "M' \<equiv> put_message (mWritePtr q) i v c M"
  shows "counters_ok q M' K Kr" and "clocks_ok q M' K Kr" and "fits q M Kw Kr k \<Longrightarrow> fits q M' K Kr k"
    and "view q M' K = snap q (plain M) (read_at q M Kw) v" and "view q M' Kr = view q M Kr"
proof -
  note D = counters_okD [OF ok(1)] and T = clocks_okD [OF ok(2)]
  note ne [simp] = D(3) D(3) [symmetric]
  have fresh: "seen k (mWritePtr q) \<noteq> i" if "history M (mWritePtr q) (seen k (mWritePtr q)) \<noteq> None" for k :: "role knowledge"
    using D(5) [OF that] new by simp
  note freshr = fresh [OF D(4) [of Kr "mWritePtr q"]]
  have at: "read_at q M' K = read_at q M Kw" "written_at q M' K = v"
    "read_at q M' Kr = read_at q M Kr" "written_at q M' Kr = written_at q M Kr"
    using freshr by (simp_all add: K_def c_def M'_def read_at_def written_at_def)
  show view: "view q M' K = snap q (plain M) (read_at q M Kw) v" "view q M' Kr = view q M Kr"
    unfolding view_def at by (simp_all add: M'_def)
  have more: "unat (v - value_at M (mReadPtr q) j) = unat (written_at q M Kw - value_at M (mReadPtr q) j) + m"
    if "seen Kw (mReadPtr q) \<le> j" "history M (mReadPtr q) j \<noteq> None" for j
    using loadable(1) [OF ok(1) that] by (intro stretch_grows [OF grows]) simp
  have last: "unat (value_at M (mWritePtr q) j - read_at q M Kr) \<le> unat (v - read_at q M Kr)"
    if "seen Kr (mWritePtr q) \<le> j" "history M (mWritePtr q) j \<noteq> None" for j
    using loadable(2) [OF ok(1) that] views_nested [OF ok(1)]
      stretch_grows [OF grows views_nested(1) [OF ok(1)]] by simp
  have hist: "history M' p j = (if p = mWritePtr q \<and> j = i then Some (v, c) else history M p j)"
    "value_at M' p j = (if p = mWritePtr q \<and> j = i then v else value_at M p j)" for p j
    by (simp_all add: M'_def)
  have below: "j < i" if "history M (mWritePtr q) j \<noteq> None" for j using D(5) [OF that] new by simp
  have al: "unat (sizeofT q) dvd unat v" using mq_invD(3) [OF inv] by simp
  show "counters_ok q M' K Kr"
    unfolding counters_ok_def view at
  proof (intro conjI)
    show "mq_inv q (snap q (plain M) (read_at q M Kw) v)" by (rule inv)
    show "\<forall>K\<in>{K, Kr}. \<forall>p\<in>{mReadPtr q, mWritePtr q}. history M' p (seen K p) \<noteq> None"
      using D(4) by (auto simp: hist K_def c_def)
    show "\<forall>j. history M' (mWritePtr q) j \<noteq> None \<longrightarrow> j \<le> seen K (mWritePtr q)"
      using below by (auto simp: hist K_def c_def intro: less_imp_le)
    show "\<forall>j. history M' (mReadPtr q) j \<noteq> None \<longrightarrow> j \<le> seen Kr (mReadPtr q)"
      using D(6) by (simp add: hist)
    show "\<forall>j. unat (sizeofT q) dvd unat (value_at M' (mReadPtr q) j) \<and>
        unat (sizeofT q) dvd unat (value_at M' (mWritePtr q) j)"
      using D(7) al by (simp add: hist)
    show "\<forall>j l. seen K (mReadPtr q) \<le> j \<longrightarrow> j \<le> l \<longrightarrow>
        history M' (mReadPtr q) j \<noteq> None \<longrightarrow> history M' (mReadPtr q) l \<noteq> None \<longrightarrow>
        unat (v - value_at M' (mReadPtr q) l) \<le> unat (v - value_at M' (mReadPtr q) j)"
      using D(8) more by (simp add: hist K_def c_def)
    show "\<forall>j l. seen Kr (mWritePtr q) \<le> j \<longrightarrow> j \<le> l \<longrightarrow>
        history M' (mWritePtr q) j \<noteq> None \<longrightarrow> history M' (mWritePtr q) l \<noteq> None \<longrightarrow>
        unat (value_at M' (mWritePtr q) j - read_at q M Kr) \<le>
        unat (value_at M' (mWritePtr q) l - read_at q M Kr)"
      using D(9) last below by (fastforce simp: hist)
  qed
  have part: "stretch q r (written_at q M Kw) \<subseteq> stretch q r v"
    if "unat (written_at q M Kw - r) \<le> unat (written_at q M Kw - read_at q M Kw)" for r
    using stretch_grows [OF grows that] by (auto simp: stretch_def)
  have marks: "stored M' = stored M" "loaded M' = loaded M" by (simp_all add: M'_def)
  have mono: "fits q M' K Kr k" if k: "fits q M Kw Kr k" for k
  proof -
    note F = fitsD [OF k]
    have atk: "read_at q M' k = read_at q M k" "written_at q M' k = written_at q M k"
      using fresh [OF F(2)] by (simp_all add: M'_def read_at_def written_at_def)
    have "loaded M a Reader \<le> clock k Reader"
      if "seen Kw (mReadPtr q) \<le> seen k (mReadPtr q)" "a \<in> ring_range q - stretch q (read_at q M k) v" for a
      using F(3) [OF that(1), of a] part [of "read_at q M k"] loadable(1) [OF ok(1) that(1) F(1)] that(2)
      by (auto simp: read_at_def)
    then show ?thesis
      using F(1,2,4) unfolding fits_def at atk marks by (auto simp: hist K_def c_def)
  qed
  then show "fits q M Kw Kr k \<Longrightarrow> fits q M' K Kr k" .
  have "fits q M' K Kr c"
  proof -
    have atc: "read_at q M' c = read_at q M Kw" "written_at q M' c = v"
      using at by (simp_all add: K_def)
    have "loaded M a Reader \<le> clock c Reader" if "a \<in> ring_range q - stretch q (read_at q M Kw) v" for a
      using fitsD(3) [OF T(3), of a] part [of "read_at q M Kw"] that by (auto simp: c_def)
    moreover have "stored M a Writer \<le> clock c Writer" for a using T(1) by (simp add: c_def)
    ultimately show ?thesis
      using D(4) [of Kw "mReadPtr q"] unfolding fits_def at atc marks by (auto simp: hist K_def c_def)
  qed
  note fc = this
  show "clocks_ok q M' K Kr"
  proof (rule clocks_okI)
    show "fits q M' K Kr K" using fc by (rule fits_clock) (simp_all add: K_def)
    show "stored M' a Writer \<le> clock K Writer" for a using T(1) [of a] by (simp add: marks K_def c_def le_SucI)
    show "seen k p = j \<and> fits q M' K Kr k"
      if "p \<in> {mReadPtr q, mWritePtr q}" "history M' p j = Some (u, k)" for p j u k
    proof (cases "p = mWritePtr q \<and> j = i")
      case True
      with that(2) fc show ?thesis by (auto simp: hist c_def)
    next
      case False
      with T(5) [OF that(1)] that(2) mono show ?thesis by (auto simp: hist split: if_splits)
    qed
    have more: "seen Kw \<le> seen K" using new by (simp add: K_def c_def le_fun_def)
    show "seen k \<le> seen K" if "history M' (mWritePtr q) j = Some (u, k)" for j u k
    proof (cases "j = i")
      case True
      with that show ?thesis by (simp add: hist K_def)
    next
      case False
      with that have "seen k \<le> seen Kw" using T(6) by (simp add: hist)
      then show ?thesis using more by (rule order.trans)
    qed
  qed (use T mono in \<open>simp_all add: hist marks\<close>)
qed

text \<open>What the reader sees, and what waits.\<close>

lemma reader_view:
  assumes ok: "counters_ok q M Kw Kr"
  shows "mq_inv q (view q M Kr)"
  unfolding view_def
  by (rule snap_part(1) [OF counters_okD(1) [OF ok, unfolded view_def] _ _ views_nested [OF ok]])
    (use counters_okD(7) [OF ok] in \<open>simp_all add: read_at_def written_at_def\<close>)

lemma newest_inv:
  assumes ok: "counters_ok q M Kw Kr"
  shows "mq_inv q (snap q (plain M) (read_at q M Kr) (written_at q M Kw))"
  by (rule snap_part(1) [OF counters_okD(1) [OF ok, unfolded view_def] _ _ views_nested(1) [OF ok] order.refl])
    (use counters_okD(7) [OF ok] in \<open>simp_all add: read_at_def written_at_def\<close>)

text \<open>What the reader sees, or may come to see, is the front of what waits.\<close>

lemma front_of_newest:
  assumes ok: "counters_ok q M Kw Kr"
    and al: "unat (sizeofT q) dvd unat v"
    and le: "unat (v - read_at q M Kr) \<le> unat (written_at q M Kw - read_at q M Kr)"
  shows "mq_inv q (snap q (plain M) (read_at q M Kr) v)"
    and "contents q (snap q (plain M) (read_at q M Kr) v) = take (unat (v - read_at q M Kr))
      (contents q (snap q (plain M) (read_at q M Kr) (written_at q M Kw)))"
proof -
  have "unat (sizeofT q) dvd unat (read_at q M Kr)"
    using counters_okD(7) [OF ok, of "mReadPtr q"] by (simp add: read_at_def)
  note snap_part [OF newest_inv [OF ok] this al order.refl le]
  then show "mq_inv q (snap q (plain M) (read_at q M Kr) v)"
    and "contents q (snap q (plain M) (read_at q M Kr) v) = take (unat (v - read_at q M Kr))
      (contents q (snap q (plain M) (read_at q M Kr) (written_at q M Kw)))"
    by simp_all
qed

lemma reader_learns:
  assumes ok: "counters_ok q M Kw Kr" "clocks_ok q M Kw Kr" and c: "fits q M Kw Kr c"
  defines "K \<equiv> learn c Kr"
  shows "counters_ok q M Kw K" and "clocks_ok q M Kw K"
    and "fits q M Kw Kr k \<Longrightarrow> fits q M Kw K k"
    and "read_at q M K = read_at q M Kr"
    and "env_reader q data m (view q M Kr) (view q M K)"
proof -
  note D = counters_okD [OF ok(1)] and T = clocks_okD [OF ok(2)] and C = fitsD [OF c]
  note ne [simp] = D(3) D(3) [symmetric]
  have r: "seen K (mReadPtr q) = seen Kr (mReadPtr q)" using D(6) [OF C(1)] by (simp add: K_def)
  then show at: "read_at q M K = read_at q M Kr" by (simp add: read_at_def)
  have le: "seen Kr (mWritePtr q) \<le> seen K (mWritePtr q)" by (simp add: K_def)
  have hist: "history M (mWritePtr q) (seen K (mWritePtr q)) \<noteq> None"
    using C(2) D(4) [of Kr "mWritePtr q"] by (simp add: K_def max_def)
  have len: "unat (written_at q M Kr - read_at q M Kr) \<le> unat (written_at q M K - read_at q M Kr)"
    "unat (written_at q M K - read_at q M Kr) \<le> unat (written_at q M Kw - read_at q M Kr)"
    using loadable(2) [OF ok(1) le hist] by (simp_all add: written_at_def)
  have al: "unat (sizeofT q) dvd unat (written_at q M K)" "unat (sizeofT q) dvd unat (written_at q M Kr)"
    using D(7) by (simp_all add: written_at_def)
  note F = front_of_newest [OF ok(1) al(1) len(2)]
    and F0 = front_of_newest [OF ok(1) al(2) views_nested(2) [OF ok(1)]]
  show "counters_ok q M Kw K"
    using ok(1) hist le r unfolding counters_ok_def at by (auto simp: r)
  show mono: "fits q M Kw K k" if "fits q M Kw Kr k" for k
    using that le by (auto simp: fits_def at)
  have own: "fits q M Kw K K" unfolding K_def by (intro mono [unfolded K_def] fits_learn c T(4))
  have more: "seen Kr \<le> seen K" "clock Kr Reader \<le> clock K Reader" by (simp_all add: K_def le_fun_def)
  show "clocks_ok q M Kw K"
  proof (rule clocks_okI)
    show "loaded M a Reader \<le> clock K Reader" for a using T(1) [of a] more(2) by simp
    show "seen k \<le> seen K" if "history M (mReadPtr q) i = Some (v, k)" for i v k
      using T(7) [OF that] more(1) by (rule order.trans)
  qed (use T mono own in \<open>simp_all\<close>)
  have "\<exists>xs. contents q (snap q (plain M) (read_at q M Kr) (written_at q M K)) = contents q (view q M Kr) @ xs"
    unfolding view_def F(2) F0(2) by (rule take_prefix [OF len(1)])
  then show "env_reader q data m (view q M Kr) (view q M K)"
    unfolding view_def at using F(1) by (simp add: env_reader_def)
qed

lemma reader_loads:
  assumes ok: "counters_ok q M Kw Kr" "clocks_ok q M Kw Kr"
    and msg: "history M p i = Some (v, c)" and le: "seen Kr p \<le> i"
    and touch: "p = mReadPtr q \<or> p = mWritePtr q \<and> mo = Acquire"
  defines "K \<equiv> took mo c (saw p i Kr)"
  shows "counters_ok q M Kw K \<and> clocks_ok q M Kw K \<and> words64 (view q M K) p = v \<and>
    read_at q M K = read_at q M Kr \<and> env_reader q data m (view q M Kr) (view q M K) \<and>
    (\<forall>k. fits q M Kw Kr k \<longrightarrow> fits q M Kw K k)"
proof -
  have c: "seen c p = i" "fits q M Kw Kr c" using clocks_okD(5) [OF ok(2) _ msg] touch by auto
  note L = reader_learns [OF ok c(2)]
  note ne [simp] = counters_okD(3) [OF ok(1)]
  have own: "p = mReadPtr q \<Longrightarrow> i = seen Kr p" using counters_okD(6) [OF ok(1), of i] msg le by simp
  have K: "K = (if mo = Acquire then learn c Kr else Kr)"
    using load_learns [OF c(1) le] touch own load_again [of "mReadPtr q" Kr]
    by (auto simp: K_def took_def)
  have "words64 (view q M K) p = v"
  proof (cases "p = mReadPtr q")
    case True
    with own message_at [OF msg] L(4) show ?thesis by (simp add: view_def K, simp add: read_at_def)
  next
    case False
    with touch c(1) le message_at [OF msg] show ?thesis by (auto simp: view_def K written_at_def max_def)
  qed
  with L(1,2,4,5) L(3) ok env_reader_order(1) show ?thesis by (simp add: K reflpD)
qed

text \<open>The reader stores its counter.\<close>

lemma reader_stores_counter:
  assumes ok: "counters_ok q M Kw Kr" "clocks_ok q M Kw Kr"
    and new: "seen Kr (mReadPtr q) < i"
    and inv: "mq_inv q (snap q (plain M) v (written_at q M Kr))"
    and shrinks: "unat (written_at q M Kr - read_at q M Kr) = m + unat (written_at q M Kr - v)"
  defines "c \<equiv> saw (mReadPtr q) i Kr"
  defines "K \<equiv> tick Reader c" and "M' \<equiv> put_message (mReadPtr q) i v c M"
  shows "counters_ok q M' Kw K" and "clocks_ok q M' Kw K" and "fits q M Kw Kr k \<Longrightarrow> fits q M' Kw K k"
    and "view q M' K = snap q (plain M) v (written_at q M Kr)" and "view q M' Kw = view q M Kw"
proof -
  note D = counters_okD [OF ok(1)] and T = clocks_okD [OF ok(2)]
  note ne [simp] = D(3) D(3) [symmetric]
  have fresh: "seen k (mReadPtr q) \<noteq> i" if "history M (mReadPtr q) (seen k (mReadPtr q)) \<noteq> None" for k :: "role knowledge"
    using D(6) [OF that] new by simp
  note freshw = fresh [OF D(4) [of Kw "mReadPtr q"]]
  have at: "read_at q M' K = v" "written_at q M' K = written_at q M Kr"
    "read_at q M' Kw = read_at q M Kw" "written_at q M' Kw = written_at q M Kw"
    using freshw by (simp_all add: K_def c_def M'_def read_at_def written_at_def)
  show view: "view q M' K = snap q (plain M) v (written_at q M Kr)" "view q M' Kw = view q M Kw"
    unfolding view_def at by (simp_all add: M'_def)
  have less: "unat (value_at M (mWritePtr q) j - v) + m = unat (value_at M (mWritePtr q) j - read_at q M Kr)"
    if "seen Kr (mWritePtr q) \<le> j" "history M (mWritePtr q) j \<noteq> None" for j
    using loadable(2) [OF ok(1) that] by (intro stretch_shrinks [OF shrinks]) simp
  have top: "unat (written_at q M Kw - v) + m = unat (written_at q M Kw - read_at q M Kr)"
    by (rule stretch_shrinks [OF shrinks views_nested(2) [OF ok(1)]])
  have last: "unat (written_at q M Kw - v) \<le> unat (written_at q M Kw - value_at M (mReadPtr q) j)"
    if "seen Kw (mReadPtr q) \<le> j" "history M (mReadPtr q) j \<noteq> None" for j
    using loadable(1) [OF ok(1) that] top by simp
  have hist: "history M' p j = (if p = mReadPtr q \<and> j = i then Some (v, c) else history M p j)"
    "value_at M' p j = (if p = mReadPtr q \<and> j = i then v else value_at M p j)" for p j
    by (simp_all add: M'_def)
  have below: "j < i" if "history M (mReadPtr q) j \<noteq> None" for j using D(6) [OF that] new by simp
  have al: "unat (sizeofT q) dvd unat v" using mq_invD(2) [OF inv] by simp
  show "counters_ok q M' Kw K"
    unfolding counters_ok_def view at
  proof (intro conjI)
    show "mq_inv q (view q M Kw)" by (rule D)
    show "\<forall>K\<in>{Kw, K}. \<forall>p\<in>{mReadPtr q, mWritePtr q}. history M' p (seen K p) \<noteq> None"
      using D(4) by (auto simp: hist K_def c_def)
    show "\<forall>j. history M' (mWritePtr q) j \<noteq> None \<longrightarrow> j \<le> seen Kw (mWritePtr q)"
      using D(5) by (simp add: hist)
    show "\<forall>j. history M' (mReadPtr q) j \<noteq> None \<longrightarrow> j \<le> seen K (mReadPtr q)"
      using below by (auto simp: hist K_def c_def intro: less_imp_le)
    show "\<forall>j. unat (sizeofT q) dvd unat (value_at M' (mReadPtr q) j) \<and>
        unat (sizeofT q) dvd unat (value_at M' (mWritePtr q) j)"
      using D(7) al by (simp add: hist)
    show "\<forall>j l. seen Kw (mReadPtr q) \<le> j \<longrightarrow> j \<le> l \<longrightarrow>
        history M' (mReadPtr q) j \<noteq> None \<longrightarrow> history M' (mReadPtr q) l \<noteq> None \<longrightarrow>
        unat (written_at q M Kw - value_at M' (mReadPtr q) l) \<le>
        unat (written_at q M Kw - value_at M' (mReadPtr q) j)"
      using D(8) last below by (fastforce simp: hist)
    show "\<forall>j l. seen K (mWritePtr q) \<le> j \<longrightarrow> j \<le> l \<longrightarrow>
        history M' (mWritePtr q) j \<noteq> None \<longrightarrow> history M' (mWritePtr q) l \<noteq> None \<longrightarrow>
        unat (value_at M' (mWritePtr q) j - v) \<le> unat (value_at M' (mWritePtr q) l - v)"
    proof (intro allI impI)
      fix j l
      assume "seen K (mWritePtr q) \<le> j" and jl: "j \<le> l"
        and "history M' (mWritePtr q) j \<noteq> None" "history M' (mWritePtr q) l \<noteq> None"
      then have j: "seen Kr (mWritePtr q) \<le> j" "history M (mWritePtr q) j \<noteq> None"
        and l: "seen Kr (mWritePtr q) \<le> l" "history M (mWritePtr q) l \<noteq> None"
        by (simp_all add: hist K_def c_def)
      from less [OF j] less [OF l] D(9) [OF j(1) jl j(2) l(2)]
      show "unat (value_at M' (mWritePtr q) j - v) \<le> unat (value_at M' (mWritePtr q) l - v)"
        by (simp add: hist)
    qed
  qed
  have part: "stretch q v w \<subseteq> stretch q (read_at q M Kr) w"
    if "unat (written_at q M Kr - read_at q M Kr) \<le> unat (w - read_at q M Kr)" for w
    using stretch_shrinks [OF shrinks that] by (intro stretch_part) simp_all
  have marks: "stored M' = stored M" "loaded M' = loaded M" by (simp_all add: M'_def)
  have mono: "fits q M' Kw K k" if k: "fits q M Kw Kr k" for k
  proof -
    note F = fitsD [OF k]
    have atk: "read_at q M' k = read_at q M k" "written_at q M' k = written_at q M k"
      using fresh [OF F(1)] by (simp_all add: M'_def read_at_def written_at_def)
    have "stored M a Writer \<le> clock k Writer"
      if "seen Kr (mWritePtr q) \<le> seen k (mWritePtr q)" "a \<in> stretch q v (written_at q M k)" for a
      using F(4) [OF that(1), of a] part [of "written_at q M k"] loadable(2) [OF ok(1) that(1) F(2)] that(2)
      by (auto simp: written_at_def)
    then show ?thesis
      using F(1,2,3) unfolding fits_def at atk marks by (auto simp: hist K_def c_def)
  qed
  then show "fits q M Kw Kr k \<Longrightarrow> fits q M' Kw K k" .
  have "fits q M' Kw K c"
  proof -
    have atc: "read_at q M' c = v" "written_at q M' c = written_at q M Kr"
      using at by (simp_all add: K_def)
    have "stored M a Writer \<le> clock c Writer" if "a \<in> stretch q v (written_at q M Kr)" for a
      using fitsD(4) [OF T(4), of a] part [of "written_at q M Kr"] that by (auto simp: c_def)
    moreover have "loaded M a Reader \<le> clock c Reader" for a using T(1) by (simp add: c_def)
    ultimately show ?thesis
      using D(4) [of Kr "mWritePtr q"] unfolding fits_def at atc marks by (auto simp: hist K_def c_def)
  qed
  note fc = this
  show "clocks_ok q M' Kw K"
  proof (rule clocks_okI)
    show "fits q M' Kw K K" using fc by (rule fits_clock) (simp_all add: K_def)
    show "loaded M' a Reader \<le> clock K Reader" for a using T(1) [of a] by (simp add: marks K_def c_def le_SucI)
    show "seen k p = j \<and> fits q M' Kw K k"
      if "p \<in> {mReadPtr q, mWritePtr q}" "history M' p j = Some (u, k)" for p j u k
    proof (cases "p = mReadPtr q \<and> j = i")
      case True
      with that(2) fc show ?thesis by (auto simp: hist c_def)
    next
      case False
      with T(5) [OF that(1)] that(2) mono show ?thesis by (auto simp: hist split: if_splits)
    qed
    have more: "seen Kr \<le> seen K" using new by (simp add: K_def c_def le_fun_def)
    show "seen k \<le> seen K" if "history M' (mReadPtr q) j = Some (u, k)" for j u k
    proof (cases "j = i")
      case True
      with that show ?thesis by (simp add: hist K_def)
    next
      case False
      with that have "seen k \<le> seen Kr" using T(7) by (simp add: hist)
      then show ?thesis using more by (rule order.trans)
    qed
  qed (use T mono in \<open>simp_all add: hist marks\<close>)
qed

text \<open>Accesses to bytes: by the writer where nothing waits, by the reader where something does, by either outside the ring.\<close>

lemma stretch_ring: "ring_size q \<noteq> 0 \<Longrightarrow> stretch q r w \<subseteq> ring_range q"
proof
  fix a assume S: "ring_size q \<noteq> 0" and "a \<in> stretch q r w"
  then obtain i where "a = ring_addr (mRing q) (ring_size q) r i" by (auto simp: stretch_def)
  moreover obtain j where "ring_addr (mRing q) (ring_size q) r i = mRing q + of_nat j"
    "j < unat (ring_size q)"
    using S by (rule ring_addr_range)
  ultimately show "a \<in> ring_range q" by (simp add: byte_rangeI)
qed

lemma byte_loads:
  assumes ok: "counters_ok q M Kw Kr" "clocks_ok q M Kw Kr"
  shows "counters_ok q (note_load t a K M) Kw Kr"
    and "clocks_ok q (note_load Writer a Kw M) Kw Kr"
    and "fits q M Kw Kr k \<Longrightarrow> fits q (note_load Writer a Kw M) Kw Kr k"
    and "a \<notin> ring_range q \<or> a \<in> stretch q (read_at q M Kr) (written_at q M Kr) \<Longrightarrow>
      clocks_ok q (note_load Reader a Kr M) Kw Kr"
    and "a \<notin> ring_range q \<or> a \<in> stretch q (read_at q M Kr) (written_at q M Kr) \<Longrightarrow>
      fits q M Kw Kr k \<Longrightarrow> fits q (note_load Reader a Kr M) Kw Kr k"
proof -
  show "counters_ok q (note_load t a K M) Kw Kr" using ok(1) by (simp add: counters_ok_def)
  show wmono: "fits q M Kw Kr k \<Longrightarrow> fits q (note_load Writer a Kw M) Kw Kr k" for k
    by (simp add: fits_def)
  then show "clocks_ok q (note_load Writer a Kw M) Kw Kr" using ok(2) by (simp add: clocks_ok_def)
  show rmono: "fits q (note_load Reader a Kr M) Kw Kr k"
    if a: "a \<notin> ring_range q \<or> a \<in> stretch q (read_at q M Kr) (written_at q M Kr)"
      and k: "fits q M Kw Kr k" for k
  proof -
    note F = fitsD [OF k]
    have "a \<in> stretch q (read_at q M k) (written_at q M Kw)"
      if "a \<in> ring_range q" "seen Kw (mReadPtr q) \<le> seen k (mReadPtr q)"
      using stretch_part [OF loadable(1) [OF ok(1) that(2) F(1), THEN conjunct2] views_nested(2) [OF ok(1)]]
        a that(1) by (auto simp: read_at_def)
    then show ?thesis using k by (auto simp: fits_def)
  qed
  show "clocks_ok q (note_load Reader a Kr M) Kw Kr"
    if "a \<notin> ring_range q \<or> a \<in> stretch q (read_at q M Kr) (written_at q M Kr)"
    using ok(2) rmono [OF that] by (simp add: clocks_ok_def)
qed

lemma byte_stores:
  assumes ok: "counters_ok q M Kw Kr" "clocks_ok q M Kw Kr"
  shows "counters_ok q (put_byte t a b K M) Kw Kr"
    and "a \<notin> stretch q (read_at q M Kw) (written_at q M Kw) \<Longrightarrow>
      clocks_ok q (put_byte Writer a b Kw M) Kw Kr"
    and "a \<notin> stretch q (read_at q M Kw) (written_at q M Kw) \<Longrightarrow> fits q M Kw Kr k \<Longrightarrow>
      fits q (put_byte Writer a b Kw M) Kw Kr k"
    and "a \<notin> ring_range q \<Longrightarrow> clocks_ok q (put_byte Reader a b Kr M) Kw Kr"
    and "fits q M Kw Kr k \<Longrightarrow> fits q (put_byte Reader a b Kr M) Kw Kr k"
proof -
  have "mq_inv q (set_byte a b (view q M Kw))"
    using counters_okD(1,3) [OF ok(1)] by (simp add: view_def mq_inv_def snap_used)
  then show "counters_ok q (put_byte t a b K M) Kw Kr" using ok(1) by (simp add: counters_ok_def)
  show rmono: "fits q M Kw Kr k \<Longrightarrow> fits q (put_byte Reader a b Kr M) Kw Kr k" for k
    by (simp add: fits_def)
  then show "clocks_ok q (put_byte Reader a b Kr M) Kw Kr" if "a \<notin> ring_range q"
    using ok(2) that by (auto simp: clocks_ok_def)
  show wmono: "fits q (put_byte Writer a b Kw M) Kw Kr k"
    if a: "a \<notin> stretch q (read_at q M Kw) (written_at q M Kw)" and k: "fits q M Kw Kr k" for k
  proof -
    note F = fitsD [OF k]
    have "a \<notin> stretch q (read_at q M Kr) (written_at q M k)"
      if "seen Kr (mWritePtr q) \<le> seen k (mWritePtr q)"
      using stretch_part [OF views_nested(1) [OF ok(1)] loadable(2) [OF ok(1) that F(2), THEN conjunct2]] a
      by (auto simp: written_at_def)
    then show ?thesis using k by (auto simp: fits_def)
  qed
  show "clocks_ok q (put_byte Writer a b Kw M) Kw Kr"
    if "a \<notin> stretch q (read_at q M Kw) (written_at q M Kw)"
    using ok(2) wmono [OF that] by (simp add: clocks_ok_def)
qed

end
