(* ===== verification/Weak_Channel.thy ===== *)
theory Weak_Channel
  imports Queue_Weak
begin

text \<open>
  The calls of one writer and one reader under the memory model of C++ step by step: the queue
  stays a FIFO, and no access of a call is a data race.
\<close>

section \<open>One access of a call\<close>

lemma newest_appends:
  assumes ok: "counters_ok q M Kw Kr"
    and inv: "mq_inv q (snap q (plain M) (read_at q M Kw) v)"
    and new: "contents q (snap q (plain M) (read_at q M Kw) v) = contents q (view q M Kw) @ xs"
  shows "unat (v - read_at q M Kw) = unat (written_at q M Kw - read_at q M Kw) + length xs"
    and "contents q (snap q (plain M) (read_at q M Kr) v) =
      contents q (snap q (plain M) (read_at q M Kr) (written_at q M Kw)) @ xs"
proof -
  note D = counters_okD [OF ok]
  note ne [simp] = D(3)
  from arg_cong [OF new, of length]
  show grows: "unat (v - read_at q M Kw) = unat (written_at q M Kw - read_at q M Kw) + length xs"
    by (simp add: view_def snap_used)
  note grow = stretch_grows [OF grows views_nested(1) [OF ok]]
  have al: "unat (sizeofT q) dvd unat (read_at q M Kr)" "unat (sizeofT q) dvd unat (written_at q M Kw)"
    "unat (sizeofT q) dvd unat v"
    using D(7) mq_invD(3) [OF inv] by (simp_all add: read_at_def written_at_def)
  note old = snap_part(2) [OF D(1) [unfolded view_def] al(1,2) views_nested(1) [OF ok] order.refl]
  have "unat (v - read_at q M Kr) \<le> unat (v - read_at q M Kw)"
    using grows grow views_nested(1) [OF ok] by simp
  from snap_part(2) [OF inv al(1,3) this order.refl] old new
  show "contents q (snap q (plain M) (read_at q M Kr) v) =
      contents q (snap q (plain M) (read_at q M Kr) (written_at q M Kw)) @ xs"
    using grows grow by (simp add: view_def snap_used)
qed

lemma newest_drops:
  assumes ok: "counters_ok q M Kw Kr"
    and inv: "mq_inv q (snap q (plain M) v (written_at q M Kr))"
    and old: "contents q (view q M Kr) = xs @ contents q (snap q (plain M) v (written_at q M Kr))"
  shows "unat (written_at q M Kr - read_at q M Kr) = length xs + unat (written_at q M Kr - v)"
    and "contents q (snap q (plain M) (read_at q M Kr) (written_at q M Kw)) =
      xs @ contents q (snap q (plain M) v (written_at q M Kw))"
proof -
  note D = counters_okD [OF ok]
  note ne [simp] = D(3)
  let ?N = "contents q (snap q (plain M) (read_at q M Kr) (written_at q M Kw))"
  from arg_cong [OF old, of length]
  show shrinks: "unat (written_at q M Kr - read_at q M Kr) = length xs + unat (written_at q M Kr - v)"
    by (simp add: view_def snap_used)
  note less = stretch_shrinks [OF shrinks views_nested(2) [OF ok]]
  have al: "unat (sizeofT q) dvd unat (written_at q M Kr)" "unat (sizeofT q) dvd unat (written_at q M Kw)"
    "unat (sizeofT q) dvd unat v"
    using D(7) mq_invD(2) [OF inv] by (simp_all add: written_at_def)
  have "contents q (view q M Kr) = take (unat (written_at q M Kr - read_at q M Kr)) ?N"
    unfolding view_def by (rule front_of_newest(2) [OF ok al(1) views_nested(2) [OF ok]])
  with old have "take (unat (written_at q M Kr - read_at q M Kr)) ?N =
      xs @ contents q (snap q (plain M) v (written_at q M Kr))" by simp
  from arg_cong [OF this, of "take (length xs)"] have prefix: "take (length xs) ?N = xs"
    using shrinks by (simp add: take_take)
  have "unat (written_at q M Kw - v) \<le> unat (written_at q M Kw - read_at q M Kr)"
    using less by simp
  from snap_part(2) [OF newest_inv [OF ok] al(3,2) this order.refl]
  moreover have "unat (written_at q M Kw - read_at q M Kr) - unat (written_at q M Kw - v) = length xs"
    using less by linarith
  ultimately have "contents q (snap q (plain M) v (written_at q M Kw)) = drop (length xs) ?N"
    by (simp add: snap_used)
  with prefix show "?N = xs @ contents q (snap q (plain M) v (written_at q M Kw))"
    by (metis append_take_drop_id)
qed

text \<open>A byte in no stretch changes no contents; a side notices no change but of what it counts on.\<close>

lemma contents_same:
  assumes "mReadPtr q \<noteq> mWritePtr q" and "\<And>a. a \<in> stretch q r w \<Longrightarrow> B' a = B a"
  shows "contents q (snap q B' r w) = contents q (snap q B r w)"
proof (rule nth_equalityI)
  fix i assume "i < length (contents q (snap q B' r w))"
  then have i: "i < unat (w - r)" by (simp add: snap_used [OF assms(1)])
  then have "ring_addr (mRing q) (ring_size q) r i \<in> stretch q r w" by (auto simp: stretch_def)
  with i show "contents q (snap q B' r w) ! i = contents q (snap q B r w) ! i"
    by (simp add: contents_def snap_used [OF assms(1)] assms(2))
qed (simp add: snap_used [OF assms(1)])

lemma contents_elsewhere:
  assumes "mReadPtr q \<noteq> mWritePtr q" and "a \<notin> stretch q r w"
  shows "contents q (snap q (B(a := b)) r w) = contents q (snap q B r w)"
  by (rule contents_same [OF assms(1)]) (use assms(2) in auto)

lemma unnoticed:
  assumes ne: "mReadPtr q \<noteq> mWritePtr q" and buf: "\<And>a. a \<in> byte_range data m \<Longrightarrow> B' a = B a"
  shows "(\<And>a. a \<in> ring_range q \<Longrightarrow> B' a = B a) \<Longrightarrow>
      env_writer q data m (snap q B r w) (snap q B' r w)"
    and "(\<And>a. a \<in> stretch q r w \<Longrightarrow> B' a = B a) \<Longrightarrow>
      env_reader q data m (snap q B r w) (snap q B' r w)"
proof -
  have inv: "mq_inv q (snap q B' r w) = mq_inv q (snap q B r w)"
    by (simp add: mq_inv_def ne snap_used)
  show "env_writer q data m (snap q B r w) (snap q B' r w)"
    if "\<And>a. a \<in> ring_range q \<Longrightarrow> B' a = B a"
    using inv that buf by (simp add: env_writer_def ne snap_used byte_rangeI)
  show "env_reader q data m (snap q B r w) (snap q B' r w)"
    if "\<And>a. a \<in> stretch q r w \<Longrightarrow> B' a = B a"
    using inv buf contents_same [where B = B and B' = B', OF ne that]
    by (simp add: env_reader_def byte_rangeI)
qed

text \<open>The condition of a program where nobody else acts before its next access.\<close>

lemma rg_here:
  assumes "reflp R"
  shows "rg R G (Ret x) Q b h \<Longrightarrow> Q x b h"
    and "rg R G (LoadC mo p k) Q b h \<Longrightarrow> p \<noteq> nullptr \<and> G (CounterLoad mo p) h h"
    and "rg R G (StoreC mo p v l) Q b h \<Longrightarrow> p \<noteq> nullptr \<and>
      G (CounterStore mo p) h (set_word64 p v h) \<and> rg R G l Q True (set_word64 p v h)"
    and "rg R G (LoadB p m) Q b h \<Longrightarrow> G (ByteLoad p) h h \<and> rg R G (m (bytes h p)) Q b h"
    and "rg R G (StoreB p c l) Q b h \<Longrightarrow> G (ByteStore p) h (set_byte p c h) \<and>
      rg R G l Q b (set_byte p c h)"
  using reflpD [OF assms] by auto

lemmas writer_here = rg_here [OF env_writer_order(1)]
lemmas reader_here = rg_here [OF env_reader_order(1)]

lemma published:
  assumes "write_acts q data n (CounterStore mo p) h h'"
  shows "mq_inv q h'" and "contents q h' = contents q h @ mem_bytes h data (msg_bytes q n)"
  using assms by (simp_all add: write_acts_def by_writer_def)

lemma retired:
  assumes "read_acts q data n (CounterStore mo p) h h'"
  shows "mq_inv q h'" and "contents q h = mem_bytes h data (msg_bytes q n) @ contents q h'"
  using assms by (simp_all add: read_acts_def by_reader_def)

lemma writer_access:
  assumes ok: "counters_ok q M Kw Kr" "clocks_ok q M Kw Kr"
    and rg: "rg (env_writer q data (buf_len q n)) (write_acts q data n) p Q b (view q M Kw)"
    and acc: "weak_access Writer p Kw M p' K M'"
  shows "counters_ok q M' K Kr \<and> clocks_ok q M' K Kr \<and>
    rg (env_writer q data (buf_len q n)) (write_acts q data n) p' Q (b \<or> stores p \<noteq> None) (view q M' K) \<and>
    contents q (snap q (plain M') (read_at q M' Kr) (written_at q M' K)) =
      contents q (snap q (plain M) (read_at q M Kr) (written_at q M Kw)) @
      (if stores p = None then [] else mem_bytes (view q M Kw) data (msg_bytes q n)) \<and>
    view q M' Kr = snap q (plain M') (read_at q M Kr) (written_at q M Kr) \<and>
    touched p \<subseteq> ring_range q \<union> byte_range data (buf_len q n) \<and>
    (\<forall>a\<in>stretch q (read_at q M Kr) (written_at q M Kr). plain M' a = plain M a) \<and>
    (\<forall>a. a \<notin> ring_range q \<longrightarrow> plain M' a = plain M a) \<and>
    (\<forall>k. fits q M Kw Kr k \<longrightarrow> fits q M' K Kr k)"
  using acc
proof cases
  case (counter_load a i v c mo k)
  have touch: "a = mWritePtr q \<or> a = mReadPtr q \<and> mo = Acquire"
    using writer_here(2) [OF rg [unfolded counter_load(1)]] by (simp add: write_acts_def)
  note L = writer_loads [OF ok counter_load(6,7) touch, where data = data and m = "buf_len q n"]
  have "rg (env_writer q data (buf_len q n)) (write_acts q data n) p' Q b (view q M' K)"
    using rg L by (auto simp: counter_load)
  then show ?thesis using L by (simp add: counter_load stores_def view_def)
next
  case (counter_store a i mo v)
  have did: "write_acts q data n (CounterStore mo a) (view q M Kw) (set_word64 a v (view q M Kw))"
    and rest: "rg (env_writer q data (buf_len q n)) (write_acts q data n) p' Q True
      (set_word64 a v (view q M Kw))"
    using writer_here(3) [OF rg [unfolded counter_store(1)]] by simp_all
  then have a: "a = mWritePtr q" "mo = Release" by (simp_all add: write_acts_def)
  have set: "set_word64 a v (view q M Kw) = snap q (plain M) (read_at q M Kw) v"
    using counters_okD(3) [OF ok(1)] by (simp add: a view_def)
  have inv: "mq_inv q (snap q (plain M) (read_at q M Kw) v)"
    and new: "contents q (snap q (plain M) (read_at q M Kw) v) =
      contents q (view q M Kw) @ mem_bytes (view q M Kw) data (msg_bytes q n)"
    by (rule published [OF did [unfolded set]])+
  note N = newest_appends [OF ok(1) inv new]
  note S = writer_stores_counter [OF ok counter_store(6) [unfolded a(1)] inv N(1)]
  show ?thesis
    using S N(2) rest unfolding set
    using counters_okD(3) [OF ok(1)] by (simp add: counter_store(1-3) a given_def stores_def view_def)
next
  case (byte_load a k)
  have "a \<in> byte_range data (buf_len q n)"
    and rest: "rg (env_writer q data (buf_len q n)) (write_acts q data n) p' Q b (view q M Kw)"
    using writer_here(4) [OF rg [unfolded byte_load(1)]]
    by (simp_all add: byte_load write_acts_def view_def)
  with byte_loads [OF ok] show ?thesis by (simp add: byte_load stores_def, simp add: view_def)
next
  case (byte_store a v)
  have did: "write_acts q data n (ByteStore a) (view q M Kw) (set_byte a v (view q M Kw))"
    and rest: "rg (env_writer q data (buf_len q n)) (write_acts q data n) p' Q b
      (set_byte a v (view q M Kw))"
    using writer_here(5) [OF rg [unfolded byte_store(1)]] by simp_all
  then have a: "a \<in> ring_range q" "a \<notin> stretch q (read_at q M Kw) (written_at q M Kw)"
    using counters_okD(3) [OF ok(1)] by (simp_all add: write_acts_def view_def snap_held)
  then have new: "a \<notin> stretch q (read_at q M Kr) (written_at q M Kw)"
    using stretch_part [OF views_nested(1) [OF ok(1)] order.refl, of q] by blast
  then have "a \<notin> stretch q (read_at q M Kr) (written_at q M Kr)"
    using stretch_part [OF order.refl views_nested(2) [OF ok(1)], of q] by blast
  with a rest byte_stores [OF ok] contents_elsewhere [OF counters_okD(3) [OF ok(1)] new]
  show ?thesis by (simp add: byte_store stores_def, auto simp: view_def)
qed

lemma ranges_apart:
  "disjoint_ranges a n b m \<Longrightarrow> x \<in> byte_range a n \<Longrightarrow> x \<notin> byte_range b m"
  using disjoint_ranges_neq by (auto simp: byte_range_def)

lemma buffer_not_ring:
  "buffer_ok q data n \<Longrightarrow> a \<in> byte_range data (buf_len q n) \<Longrightarrow> a \<notin> ring_range q"
  using buffer_outside_ring by (auto simp: byte_range_def)

lemma reader_access:
  assumes ok: "counters_ok q M Kw Kr" "clocks_ok q M Kw Kr" and buf: "buffer_ok q data n"
    and rg: "rg (env_reader q data (buf_len q n)) (read_acts q data n) p Q b (view q M Kr)"
    and acc: "weak_access Reader p Kr M p' K M'"
  shows "counters_ok q M' Kw K \<and> clocks_ok q M' Kw K \<and>
    rg (env_reader q data (buf_len q n)) (read_acts q data n) p' Q (b \<or> stores p \<noteq> None) (view q M' K) \<and>
    contents q (snap q (plain M) (read_at q M Kr) (written_at q M Kw)) =
      (if stores p = None then [] else mem_bytes (view q M Kr) data (msg_bytes q n)) @
      contents q (snap q (plain M') (read_at q M' K) (written_at q M' Kw)) \<and>
    view q M' Kw = snap q (plain M') (read_at q M Kw) (written_at q M Kw) \<and>
    touched p \<subseteq> ring_range q \<union> byte_range data (buf_len q n) \<and>
    (\<forall>a. a \<notin> byte_range data (buf_len q n) \<longrightarrow> plain M' a = plain M a) \<and>
    (\<forall>k. fits q M Kw Kr k \<longrightarrow> fits q M' Kw K k)"
  using acc
proof cases
  case (counter_load a i v c mo k)
  have touch: "a = mReadPtr q \<or> a = mWritePtr q \<and> mo = Acquire"
    using reader_here(2) [OF rg [unfolded counter_load(1)]] by (simp add: read_acts_def)
  note L = reader_loads [OF ok counter_load(6,7) touch, where data = data and m = "buf_len q n"]
  have "rg (env_reader q data (buf_len q n)) (read_acts q data n) p' Q b (view q M' K)"
    using rg L by (auto simp: counter_load)
  then show ?thesis using L by (simp add: counter_load stores_def view_def)
next
  case (counter_store a i mo v)
  note ne [simp] = counters_okD(3) [OF ok(1)] counters_okD(3) [OF ok(1), symmetric]
  have did: "read_acts q data n (CounterStore mo a) (view q M Kr) (set_word64 a v (view q M Kr))"
    and rest: "rg (env_reader q data (buf_len q n)) (read_acts q data n) p' Q True
      (set_word64 a v (view q M Kr))"
    using reader_here(3) [OF rg [unfolded counter_store(1)]] by simp_all
  then have a: "a = mReadPtr q" "mo = Release" by (simp_all add: read_acts_def)
  have set: "set_word64 a v (view q M Kr) = snap q (plain M) v (written_at q M Kr)"
    by (simp add: a view_def)
  have inv: "mq_inv q (snap q (plain M) v (written_at q M Kr))"
    and old: "contents q (view q M Kr) = mem_bytes (view q M Kr) data (msg_bytes q n) @
      contents q (snap q (plain M) v (written_at q M Kr))"
    by (rule retired [OF did [unfolded set]])+
  note N = newest_drops [OF ok(1) inv old]
  note S = reader_stores_counter [OF ok counter_store(6) [unfolded a(1)] inv N(1)]
  show ?thesis
    using S N(2) rest unfolding set by (simp add: counter_store(1-3) a given_def stores_def view_def)
next
  case (byte_load a k)
  have a: "a \<in> stretch q (read_at q M Kr) (written_at q M Kr)"
    and rest: "rg (env_reader q data (buf_len q n)) (read_acts q data n) p' Q b (view q M Kr)"
    using reader_here(4) [OF rg [unfolded byte_load(1)]] counters_okD(3) [OF ok(1)]
    by (simp_all add: byte_load read_acts_def view_def snap_held)
  have "ring_size q \<noteq> 0" using counters_okD(2) [OF ok(1)] by (auto elim: queue_wfD)
  with a stretch_ring have "a \<in> ring_range q" by blast
  with a rest byte_loads [OF ok] show ?thesis by (simp add: byte_load stores_def, simp add: view_def)
next
  case (byte_store a v)
  have a: "a \<in> byte_range data (buf_len q n)"
    and rest: "rg (env_reader q data (buf_len q n)) (read_acts q data n) p' Q b
      (set_byte a v (view q M Kr))"
    using reader_here(5) [OF rg [unfolded byte_store(1)]] by (simp_all add: read_acts_def)
  then have out: "a \<notin> ring_range q" using buffer_not_ring [OF buf] by blast
  moreover have "ring_size q \<noteq> 0" using counters_okD(2) [OF ok(1)] by (auto elim: queue_wfD)
  ultimately have "a \<notin> stretch q (read_at q M Kr) (written_at q M Kw)" using stretch_ring by blast
  note same = contents_elsewhere [OF counters_okD(3) [OF ok(1)] this]
  from a rest byte_stores [OF ok] out same show ?thesis
    by (simp add: byte_store stores_def, auto simp: view_def)
qed

text \<open>
  No access of a call is a race: a thread that has something to do can do it, and a racing access
  would be no step.
\<close>

definition proceeds :: "'t \<Rightarrow> 'a prog \<Rightarrow> 't knowledge \<Rightarrow> 't shared \<Rightarrow> bool" where
  "proceeds t p K M \<longleftrightarrow> (\<exists>p' K' M'. weak_access t p K M p' K' M')"

lemma proceeds_simps [simp]:
  "proceeds t (LoadB a k) K M = load_safe t K M a"
  "proceeds t (StoreB a b p) K M = store_safe t K M a"
  by (auto simp: proceeds_def)

lemma counter_moves:
  assumes "counters_ok q M Kw Kr"
  shows "p \<in> {mReadPtr q, mWritePtr q} \<Longrightarrow> K \<in> {Kw, Kr} \<Longrightarrow> p \<noteq> nullptr \<Longrightarrow>
      proceeds t (LoadC mo p k) K M"
    and "p = mWritePtr q \<Longrightarrow> p \<noteq> nullptr \<Longrightarrow> proceeds t (StoreC mo p v l) Kw M"
    and "p = mReadPtr q \<Longrightarrow> p \<noteq> nullptr \<Longrightarrow> proceeds t (StoreC mo p v l) Kr M"
proof -
  note D = counters_okD [OF assms]
  show "proceeds t (LoadC mo p k) K M"
    if "p \<in> {mReadPtr q, mWritePtr q}" "K \<in> {Kw, Kr}" "p \<noteq> nullptr"
  proof -
    note some = D(4) [OF that(2,1)]
    then obtain v c where "history M p (seen K p) = Some (v, c)" by fast
    from counter_load [OF that(3) this order.refl] show ?thesis
      unfolding proceeds_def by (intro exI)
  qed
  have fresh: "history M (mWritePtr q) (Suc (seen Kw (mWritePtr q))) = None"
    "history M (mReadPtr q) (Suc (seen Kr (mReadPtr q))) = None"
    using D(5,6) Suc_n_not_le_n by blast+
  show "p = mWritePtr q \<Longrightarrow> p \<noteq> nullptr \<Longrightarrow> proceeds t (StoreC mo p v l) Kw M"
    and "p = mReadPtr q \<Longrightarrow> p \<noteq> nullptr \<Longrightarrow> proceeds t (StoreC mo p v l) Kr M"
    unfolding proceeds_def
    by (intro exI, simp, rule counter_store [OF _ fresh(1) lessI], simp)
      (intro exI, simp, rule counter_store [OF _ fresh(2) lessI], simp)
qed

lemma writer_proceeds:
  assumes ok: "counters_ok q M Kw Kr" "clocks_ok q M Kw Kr"
    and rg: "rg (env_writer q data (buf_len q n)) (write_acts q data n) p Q b (view q M Kw)"
    and mine: "\<forall>a\<in>byte_range data (buf_len q n). load_safe Writer Kw M a"
  shows "(\<exists>x. p = Ret x \<and> Q x b (view q M Kw)) \<or> proceeds Writer p Kw M"
proof (cases p)
  case (LoadC mo a k)
  with writer_here(2) [OF rg [unfolded LoadC]] counter_moves(1) [OF ok(1), of a Kw Writer mo k]
  show ?thesis by (auto simp: write_acts_def)
next
  case (StoreC mo a v l)
  with writer_here(3) [OF rg [unfolded StoreC]] counter_moves(2) [OF ok(1), of a Writer mo v l]
  show ?thesis by (auto simp: write_acts_def)
next
  case (LoadB a k)
  with writer_here(4) [OF rg [unfolded LoadB]] mine show ?thesis by (simp add: write_acts_def)
next
  case (StoreB a v l)
  have "a \<in> ring_range q" "a \<notin> stretch q (read_at q M Kw) (written_at q M Kw)"
    using writer_here(5) [OF rg [unfolded StoreB]] counters_okD(3) [OF ok(1)]
    by (simp_all add: write_acts_def view_def snap_held)
  then have "stored M a Reader = 0" "loaded M a Reader \<le> clock Kw Reader"
    using clocks_okD(2) [OF ok(2)] fitsD(3) [OF clocks_okD(3) [OF ok(2)] order.refl] by simp_all
  then have "stored M a u \<le> clock Kw u \<and> loaded M a u \<le> clock Kw u" if "u \<noteq> Writer" for u
    using that by (cases u) simp_all
  then show ?thesis by (simp add: StoreB store_safe_def load_safe_def)
qed (use rg writer_here(1) in auto)

lemma reader_proceeds:
  assumes ok: "counters_ok q M Kw Kr" "clocks_ok q M Kw Kr"
    and rg: "rg (env_reader q data (buf_len q n)) (read_acts q data n) p Q b (view q M Kr)"
    and mine: "\<forall>a\<in>byte_range data (buf_len q n). store_safe Reader Kr M a"
  shows "(\<exists>x. p = Ret x \<and> Q x b (view q M Kr)) \<or> proceeds Reader p Kr M"
proof (cases p)
  case (LoadC mo a k)
  with reader_here(2) [OF rg [unfolded LoadC]] counter_moves(1) [OF ok(1), of a Kr Reader mo k]
  show ?thesis by (auto simp: read_acts_def)
next
  case (StoreC mo a v l)
  with reader_here(3) [OF rg [unfolded StoreC]] counter_moves(3) [OF ok(1), of a Reader mo v l]
  show ?thesis by (auto simp: read_acts_def)
next
  case (LoadB a k)
  have "a \<in> stretch q (read_at q M Kr) (written_at q M Kr)"
    using reader_here(4) [OF rg [unfolded LoadB]] counters_okD(3) [OF ok(1)]
    by (simp add: read_acts_def view_def snap_held)
  then have "stored M a Writer \<le> clock Kr Writer"
    by (rule fitsD(4) [OF clocks_okD(4) [OF ok(2)] order.refl])
  then have "stored M a u \<le> clock Kr u" if "u \<noteq> Reader" for u using that by (cases u) simp_all
  then show ?thesis by (simp add: LoadB load_safe_def)
next
  case (StoreB a v l)
  with reader_here(5) [OF rg [unfolded StoreB]] mine show ?thesis by (simp add: read_acts_def)
qed (use rg reader_here(1) in auto)

section \<open>The invariant of the system\<close>

definition weak_inv :: "MessageQueue \<Rightarrow> weak \<Rightarrow> bool" where
  "weak_inv q s \<longleftrightarrow> flavor q = kSynchronizedReadWrite \<and>
     counters_ok q (wmem s) (knows s Writer) (knows s Reader) \<and>
     clocks_ok q (wmem s) (knows s Writer) (knows s Reader) \<and>
     wside_ok q (view q (wmem s) (knows s Writer)) (calls s Writer) \<and>
     rside_ok q (view q (wmem s) (knows s Reader)) (calls s Reader) \<and>
     (\<forall>a\<in>call_buffer q (calls s Writer). load_safe Writer (knows s Writer) (wmem s) a) \<and>
     (\<forall>a\<in>call_buffer q (calls s Reader). store_safe Reader (knows s Reader) (wmem s) a) \<and>
     sides_apart q (calls s Writer) (calls s Reader)"

lemma weak_invD:
  assumes "weak_inv q s"
  shows "flavor q = kSynchronizedReadWrite"
    and "counters_ok q (wmem s) (knows s Writer) (knows s Reader)"
    and "clocks_ok q (wmem s) (knows s Writer) (knows s Reader)"
    and "wside_ok q (view q (wmem s) (knows s Writer)) (calls s Writer)"
    and "rside_ok q (view q (wmem s) (knows s Reader)) (calls s Reader)"
    and "a \<in> call_buffer q (calls s Writer) \<Longrightarrow> load_safe Writer (knows s Writer) (wmem s) a"
    and "a \<in> call_buffer q (calls s Reader) \<Longrightarrow> store_safe Reader (knows s Reader) (wmem s) a"
    and "sides_apart q (calls s Writer) (calls s Reader)"
  using assms by (simp_all add: weak_inv_def)

text \<open>The buffer of a call is neither in the ring nor in that of the other call.\<close>

lemma buffers_apart:
  assumes inv: "weak_inv q s"
  shows "a \<in> call_buffer q (calls s Writer) \<Longrightarrow> a \<notin> ring_range q"
    and "a \<in> call_buffer q (calls s Reader) \<Longrightarrow> a \<notin> ring_range q"
    and "a \<in> call_buffer q (calls s Writer) \<Longrightarrow> a \<notin> call_buffer q (calls s Reader)"
proof -
  note I = weak_invD [OF inv]
  show "a \<in> call_buffer q (calls s Writer) \<Longrightarrow> a \<notin> ring_range q"
    using I(4) buffer_not_ring by (cases "calls s Writer") auto
  show "a \<in> call_buffer q (calls s Reader) \<Longrightarrow> a \<notin> ring_range q"
    using I(5) buffer_not_ring by (cases "calls s Reader") auto
  show "a \<in> call_buffer q (calls s Writer) \<Longrightarrow> a \<notin> call_buffer q (calls s Reader)"
    using I(8) ranges_apart by (cases "calls s Writer"; cases "calls s Reader") auto
qed

lemma weak_write_keeps:
  assumes inv: "weak_inv q s" and w: "calls s Writer = Running data n b p"
    and acc: "weak_access Writer p (knows s Writer) (wmem s) p' K M"
  defines "s' \<equiv> s\<lparr>wmem := M, knows := (knows s)(Writer := K),
      calls := (calls s)(Writer := Running data n (b \<or> stores p \<noteq> None) p')\<rparr>"
  shows "weak_inv q s'"
    and "contents q (newest q s) @ (if stores p = None then []
        else mem_bytes (view q (wmem s) (knows s Writer)) data (msg_bytes q n)) =
      contents q (newest q s')"
    and "read_at q (wmem s') (knows s' Reader) = read_at q (wmem s) (knows s Reader)"
proof -
  note I = weak_invD [OF inv] and apart = buffers_apart [OF inv]
  note ne = counters_okD(3) [OF I(2)]
  have rg: "rg (env_writer q data (buf_len q n)) (write_acts q data n) p (\<lambda>ok b' h'. ok = b') b
      (view q (wmem s) (knows s Writer))" and buf: "buffer_ok q data n"
    using I(4) w by simp_all
  note A = writer_access [OF I(2,3) rg acc]
  have touch: "a \<notin> touched p" if "a \<in> call_buffer q (calls s Reader)" for a
    using A apart(2) [OF that] apart(3) [of a] that w by auto
  have "rside_ok q (view q M (knows s Reader)) (calls s Reader)"
  proof (rule rside_ok_env [OF _ I(5)])
    fix data' n' b' r assume r: "calls s Reader = Running data' n' b' r"
    have "plain M a = plain (wmem s) a" if "a \<in> byte_range data' (buf_len q n')" for a
      using A apart(2) [of a] that r by auto
    from unnoticed(2) [OF ne this] A
    show "env_reader q data' (buf_len q n') (view q (wmem s) (knows s Reader)) (view q M (knows s Reader))"
      by (simp add: view_def)
  qed
  with I(1,6-8) A buf w touch safe_own(1) [OF acc] safe_other(2) [OF acc] show "weak_inv q s'"
    by (simp add: s'_def weak_inv_def)
  show "contents q (newest q s) @ (if stores p = None then []
        else mem_bytes (view q (wmem s) (knows s Writer)) data (msg_bytes q n)) =
      contents q (newest q s')"
    using A by (simp add: s'_def newest_def)
  have "view q M (knows s Reader) = snap q (plain M) (read_at q (wmem s) (knows s Reader))
      (written_at q (wmem s) (knows s Reader))" using A by simp
  from arg_cong [OF this, of "readCtr q"]
  show "read_at q (wmem s') (knows s' Reader) = read_at q (wmem s) (knows s Reader)"
    by (simp add: s'_def view_def)
qed

lemma weak_read_keeps:
  assumes inv: "weak_inv q s" and r: "calls s Reader = Running data n b p"
    and acc: "weak_access Reader p (knows s Reader) (wmem s) p' K M"
  defines "s' \<equiv> s\<lparr>wmem := M, knows := (knows s)(Reader := K),
      calls := (calls s)(Reader := Running data n (b \<or> stores p \<noteq> None) p')\<rparr>"
  shows "weak_inv q s'"
    and "contents q (newest q s) = (if stores p = None then []
        else mem_bytes (view q (wmem s) (knows s Reader)) data (msg_bytes q n)) @
      contents q (newest q s')"
proof -
  note I = weak_invD [OF inv] and apart = buffers_apart [OF inv]
  note ne = counters_okD(3) [OF I(2)]
  have rg: "rg (env_reader q data (buf_len q n)) (read_acts q data n) p (\<lambda>ok b' h'. ok = b') b
      (view q (wmem s) (knows s Reader))" and buf: "buffer_ok q data n"
    using I(5) r by simp_all
  note A = reader_access [OF I(2,3) buf rg acc]
  have touch: "a \<notin> touched p" if "a \<in> call_buffer q (calls s Writer)" for a
    using A apart(1) [OF that] apart(3) [OF that] r by auto
  have "wside_ok q (view q M (knows s Writer)) (calls s Writer)"
  proof (rule wside_ok_env [OF _ I(4)])
    fix data' n' b' w assume w: "calls s Writer = Running data' n' b' w"
    have "plain M a = plain (wmem s) a" if "a \<in> byte_range data' (buf_len q n')" for a
      using A apart(3) [of a] that w r by auto
    moreover have "plain M a = plain (wmem s) a" if "a \<in> ring_range q" for a
      using A buffer_not_ring [OF buf, of a] that by auto
    ultimately have "env_writer q data' (buf_len q n')
        (snap q (plain (wmem s)) r w) (snap q (plain M) r w)" for r w
      by (rule unnoticed(1) [OF ne])
    with A
    show "env_writer q data' (buf_len q n') (view q (wmem s) (knows s Writer)) (view q M (knows s Writer))"
      by (simp add: view_def)
  qed
  with I(1,6-8) A buf r touch safe_own(2) [OF acc] safe_other(1) [OF acc] show "weak_inv q s'"
    by (simp add: s'_def weak_inv_def sides_apart_running)
  show "contents q (newest q s) = (if stores p = None then []
        else mem_bytes (view q (wmem s) (knows s Reader)) data (msg_bytes q n)) @
      contents q (newest q s')"
    using A by (simp add: s'_def newest_def)
qed

text \<open>Between calls.\<close>

lemma byte_access:
  assumes ok: "counters_ok q M Kw Kr" "clocks_ok q M Kw Kr" and out: "a \<notin> ring_range q"
    and on: "next_access (p :: unit prog) \<in> {Some (ByteLoad a), Some (ByteStore a)}"
    and acc: "weak_access r p (if r = Writer then Kw else Kr) M p' K M'"
  shows "K = (if r = Writer then Kw else Kr) \<and> counters_ok q M' Kw Kr \<and> clocks_ok q M' Kw Kr \<and>
    touched p = {a} \<and> value_at M' = value_at M \<and> (\<forall>c. c \<noteq> a \<longrightarrow> plain M' c = plain M c)"
proof -
  have "ring_size q \<noteq> 0" using counters_okD(2) [OF ok(1)] by (auto elim: queue_wfD)
  then have "a \<notin> stretch q (read_at q M Kw) (written_at q M Kw)" using out stretch_ring by blast
  with byte_loads [OF ok] byte_stores [OF ok] out acc on show ?thesis
    by (cases p; cases r) auto
qed

lemma weak_client_keeps:
  assumes inv: "weak_inv q s" and idle: "calls s r = Idle"
    and acc: "weak_access r (p :: unit prog) (knows s r) (wmem s) p' K M"
    and on: "next_access p \<in> {Some (ByteLoad a), Some (ByteStore a)}"
    and out: "a \<notin> ring_range q \<union> call_buffer q (calls s (other r))"
  defines "s' \<equiv> s\<lparr>wmem := M, knows := (knows s)(r := K)\<rparr>"
  shows "weak_inv q s'" and "contents q (newest q s') = contents q (newest q s)"
proof -
  note I = weak_invD [OF inv]
  note ne = counters_okD(3) [OF I(2)]
  have "(if r = Writer then knows s Writer else knows s Reader) = knows s r" by (cases r) simp_all
  with byte_access [OF I(2,3), of a p r p' K M] acc on out
  have K: "K = knows s r" and ok: "counters_ok q M (knows s Writer) (knows s Reader)"
    "clocks_ok q M (knows s Writer) (knows s Reader)" and touch: "touched p = {a}"
    and vals: "value_at M = value_at (wmem s)"
    and plain: "\<And>c. c \<noteq> a \<Longrightarrow> plain M c = plain (wmem s) c"
    by simp_all
  have s': "wmem s' = M" "knows s' = knows s" "calls s' = calls s" by (simp_all add: s'_def K)
  have at: "read_at q M = read_at q (wmem s)" "written_at q M = written_at q (wmem s)"
    by (simp_all add: read_at_def written_at_def vals fun_eq_iff)
  have mine: "a \<notin> call_buffer q (calls s u)" for u using out idle by (cases u; cases r) simp_all
  have ring: "plain M c = plain (wmem s) c" if "c \<in> ring_range q" for c
    using plain [of c] out that by (cases "c = a") auto
  have buffers: "plain M c = plain (wmem s) c" if "c \<in> call_buffer q (calls s u)" for c u
    using plain [of c] mine [of u] that by (cases "c = a") auto
  have stretch: "stretch q x y \<subseteq> ring_range q" for x y
    using counters_okD(2) [OF I(2)] by (intro stretch_ring) (auto elim: queue_wfD)
  have "wside_ok q (view q M (knows s Writer)) (calls s Writer)"
    unfolding view_def at
    by (rule wside_ok_env [OF _ I(4) [unfolded view_def]], rule unnoticed(1) [OF ne])
      (use buffers [of _ Writer] ring in auto)
  moreover have "rside_ok q (view q M (knows s Reader)) (calls s Reader)"
    unfolding view_def at
    by (rule rside_ok_env [OF _ I(5) [unfolded view_def]], rule unnoticed(2) [OF ne])
      (use buffers [of _ Reader] ring subsetD [OF stretch] in auto)
  moreover have "load_safe Writer (knows s Writer) M c" if "c \<in> call_buffer q (calls s Writer)" for c
    using safe_other(1) [OF acc, of c] I(6) [OF that] mine [of Writer] that touch by auto
  moreover have "store_safe Reader (knows s Reader) M c" if "c \<in> call_buffer q (calls s Reader)" for c
    using safe_other(2) [OF acc, of c] I(7) [OF that] mine [of Reader] that touch by auto
  ultimately show "weak_inv q s'" using I(1,8) ok by (simp add: weak_inv_def s')
  show "contents q (newest q s') = contents q (newest q s)"
    unfolding newest_def s' at by (rule contents_same [OF ne ring]) (use stretch in blast)
qed

lemma weak_sync_keeps:
  assumes inv: "weak_inv q s" and idle: "calls s r = Idle" "calls s (other r) = Idle"
  defines "s' \<equiv> s\<lparr>knows := (knows s)(r := learn (knows s (other r)) (knows s r),
      other r := tick (other r) (knows s (other r)))\<rparr>"
  shows "weak_inv q s'" and "newest q s' = newest q s"
proof -
  note I = weak_invD [OF inv]
  note w = writer_learns [OF I(2,3) clocks_okD(4) [OF I(3)]]
    and r = reader_learns [OF I(2,3) clocks_okD(3) [OF I(3)]]
  have "counters_ok q (wmem s) (knows s' Writer) (knows s' Reader) \<and>
      clocks_ok q (wmem s) (knows s' Writer) (knows s' Reader)"
    using ok_tick [OF w(1,2)] ok_tick [OF r(1,2)] by (cases r) (simp_all add: s'_def)
  moreover have "calls s' u = Idle" for u using idle by (cases u; cases r) (simp_all add: s'_def)
  ultimately show "weak_inv q s'" using I(1) by (simp add: weak_inv_def, simp add: s'_def)
  show "newest q s' = newest q s" using w(4) r(4) by (cases r) (simp_all add: newest_def s'_def)
qed

lemma weak_step_preserves:
  assumes inv: "weak_inv q s" and step: "weak_step q s xs ys s'"
  shows "weak_inv q s' \<and> contents q (newest q s) @ xs = ys @ contents q (newest q s')"
  using step
proof cases
  case (weak_start_write data n)
  note I = weak_invD [OF inv]
  from rg_write_honest [OF I(1) counters_okD(1) [OF I(2)] weak_start_write(5,6)] weak_start_write I
  show ?thesis by (simp add: weak_inv_def newest_def)
next
  case (weak_write_access data n b p p' K M)
  with weak_write_keeps [OF inv weak_write_access(4,5)] show ?thesis by simp
next
  case (weak_write_return data n b ok)
  with weak_invD [OF inv] show ?thesis by (simp add: weak_inv_def newest_def)
next
  case (weak_start_read data n)
  note I = weak_invD [OF inv]
  from rg_read_honest [OF reader_view [OF I(2)] weak_start_read(5)] weak_start_read I
  show ?thesis by (simp add: weak_inv_def newest_def sides_apart_running)
next
  case (weak_read_access data n b p p' K M)
  with weak_read_keeps [OF inv weak_read_access(4,5)] show ?thesis by simp
next
  case (weak_read_return data n b ok)
  with weak_invD [OF inv] show ?thesis by (simp add: weak_inv_def newest_def)
next
  case (weak_client r p p' K M a)
  with weak_client_keeps [OF inv weak_client(4-7)] show ?thesis by simp
next
  case (weak_sync r)
  with weak_sync_keeps [OF inv weak_sync(4,5)] show ?thesis by simp
qed

interpretation weak_channel: fifo_channel "weak_step q" "weak_inv q"
  "\<lambda>s. contents q (newest q s)" "unat (ring_size q)" for q
proof
  show "weak_inv q s'" if "weak_inv q s" "weak_step q s xs ys s'" for s xs ys s'
    using weak_step_preserves that by blast
  show "contents q (newest q s) @ xs = ys @ contents q (newest q s')"
    if "weak_inv q s" "weak_step q s xs ys s'" for s xs ys s'
    using weak_step_preserves that by blast
  show "length (contents q (newest q s)) \<le> unat (ring_size q)" if "weak_inv q s" for s
    using mq_invD(4) [OF newest_inv [OF weak_invD(2) [OF that]]] by (simp add: newest_def)
qed

text \<open>Two threads that have come by the queue as \<open>h\<close> has it.\<close>

lemma weak_start:
  assumes "flavor q = kSynchronizedReadWrite" and "mq_inv q h"
  shows "weak_inv q (weak_start h)"
    and "contents q (newest q (weak_start h)) = contents q h"
proof -
  have at: "read_at q (settled h) (newcomer r) = readCtr q h"
    "written_at q (settled h) (newcomer r) = writeCtr q h" for r :: role
    by (simp_all add: read_at_def written_at_def value_at_def settled_def newcomer_def)
  have ne: "mReadPtr q \<noteq> mWritePtr q" using mq_invD(1) [OF assms(2)] by (auto elim: queue_wfD)
  have "newest q (weak_start h) = snap q (bytes h) (readCtr q h) (writeCtr q h)"
    by (simp add: newest_def weak_start_def at) (simp add: settled_def)
  then show "contents q (newest q (weak_start h)) = contents q h"
    by (simp add: contents_def ring_bytes_def used_def ne)
  have hist: "history (settled h) p i = (if i = 0 then Some (words64 h p, bare p 0) else None)"
    "stored (settled h) a u = 0" "loaded (settled h) a u = 0" "seen (newcomer r) = (\<lambda>p. 0)"
    "value_at (settled h) p i = (if i = 0 then words64 h p else 0)"
    for p i a u and r :: role
    by (simp_all add: settled_def newcomer_def value_at_def fun_eq_iff)
  have "mq_inv q (view q (settled h) (newcomer Writer))"
    using assms(2) ne by (simp add: mq_inv_def view_def at snap_used used_def)
  then have "counters_ok q (settled h) (newcomer Writer) (newcomer Reader)"
    using mq_invD(2,3) [OF assms(2)] by (simp add: counters_ok_def hist at)
  moreover have "clocks_ok q (settled h) (newcomer Writer) (newcomer Reader)"
    by (auto simp: clocks_ok_def fits_def hist bare_def le_fun_def split: if_splits)
  ultimately show "weak_inv q (weak_start h)"
    using assms(1) by (simp add: weak_inv_def weak_start_def)
qed

section \<open>A call that meets nothing new\<close>

text \<open>
  A thread that always finds the modifications it has seen acts on its view as it would on
  memory of its own, so that a write that the other side does not disturb takes its effect.
\<close>

definition writer_ok ::
  "MessageQueue \<Rightarrow> ptr \<Rightarrow> size_t \<Rightarrow> bool \<Rightarrow> bool prog \<Rightarrow> role knowledge \<Rightarrow> role shared \<Rightarrow> role knowledge \<Rightarrow> bool"
where
  "writer_ok q data n b p Kw M Kr \<longleftrightarrow> counters_ok q M Kw Kr \<and> clocks_ok q M Kw Kr \<and>
     rg (env_writer q data (buf_len q n)) (write_acts q data n) p (\<lambda>ok b' h'. ok = b') b (view q M Kw) \<and>
     (\<forall>a\<in>byte_range data (buf_len q n). load_safe Writer Kw M a)"

lemma writer_ok_access:
  assumes ok: "writer_ok q data n b p Kw M Kr" and acc: "weak_access Writer p Kw M p' K M'"
  shows "writer_ok q data n (b \<or> stores p \<noteq> None) p' K M' Kr" and "read_at q M' Kr = read_at q M Kr"
proof -
  have I: "counters_ok q M Kw Kr" "clocks_ok q M Kw Kr"
    "rg (env_writer q data (buf_len q n)) (write_acts q data n) p (\<lambda>ok b' h'. ok = b') b (view q M Kw)"
    using ok by (simp_all add: writer_ok_def)
  note A = writer_access [OF I acc]
  then show "writer_ok q data n (b \<or> stores p \<noteq> None) p' K M' Kr"
    using ok safe_own(1) [OF acc] by (simp add: writer_ok_def)
  have "view q M' Kr = snap q (plain M') (read_at q M Kr) (written_at q M Kr)" using A by simp
  from arg_cong [OF this, of "readCtr q"] show "read_at q M' Kr = read_at q M Kr" by (simp add: view_def)
qed

lemma write_on_view:
  assumes ok: "writer_ok q data n b p Kw M Kr" and act: "action p (view q M Kw) = Some (p', h')"
  obtains K M' where "weak_access Writer p Kw M p' K M'" and "view q M' K = h'"
    and "read_at q M' K = read_at q M Kw"
proof -
  have I: "counters_ok q M Kw Kr" "clocks_ok q M Kw Kr"
    and rg: "rg (env_writer q data (buf_len q n)) (write_acts q data n) p (\<lambda>ok b' h'. ok = b') b (view q M Kw)"
    and buf: "\<forall>a\<in>byte_range data (buf_len q n). load_safe Writer Kw M a"
    using ok by (simp_all add: writer_ok_def)
  note D = counters_okD [OF I(1)] and ne [simp] = counters_okD(3) [OF I(1)]
  have "\<exists>K M'. weak_access Writer p Kw M p' K M' \<and> view q M' K = h' \<and> read_at q M' K = read_at q M Kw"
  proof (cases p)
    case (LoadC mo a k)
    have a: "a = mWritePtr q \<or> a = mReadPtr q" "a \<noteq> nullptr"
      using writer_here(2) [OF rg [unfolded LoadC]] by (auto simp: write_acts_def)
    then have "history M a (seen Kw a) \<noteq> None" using D(4) [of Kw a] by auto
    then obtain v c where h: "history M a (seen Kw a) = Some (v, c)" by fast
    have v: "words64 (view q M Kw) a = v"
      using a message_at [OF h] by (auto simp: view_def read_at_def written_at_def)
    have c: "seen c a = seen Kw a" "fits q M Kw Kr c"
      using clocks_okD(5) [OF I(2) _ h] a(1) by auto
    have "seen (learn c Kw) p = seen Kw p" if "p = mReadPtr q \<or> p = mWritePtr q" for p
      using that a(1) c(1) clocks_okD(6) [OF I(2), of "seen Kw a" v c] h D(5) [OF fitsD(2) [OF c(2)]]
      by (auto simp: le_fun_def max_absorb1)
    then have "view q M (took mo c Kw) = view q M Kw" "read_at q M (took mo c Kw) = read_at q M Kw"
      by (auto simp: took_def view_def read_at_def written_at_def)
    with counter_load [OF a(2) h order.refl, of Writer mo k] act a(2) v show ?thesis
      unfolding LoadC load_again by (intro exI) auto
  next
    case (StoreC mo a v k)
    have a: "a = mWritePtr q" "mo = Release" "a \<noteq> nullptr"
      using writer_here(3) [OF rg [unfolded StoreC]] by (auto simp: write_acts_def)
    have "history M a (Suc (seen Kw a)) = None" using D(5) Suc_n_not_le_n a(1) by blast
    from counter_store [OF a(3) this lessI, of Writer mo v k] act a show ?thesis
      by (intro exI) (auto simp: StoreC given_def view_def read_at_def)
  next
    case (LoadB a k)
    with writer_proceeds [OF I rg buf] act show ?thesis by (auto simp: view_def)
  next
    case (StoreB a v k)
    with writer_proceeds [OF I rg buf] act show ?thesis by auto
  qed (use act in simp_all)
  then show ?thesis using that by auto
qed

text \<open>Accesses of one thread after the other, with the flag that says whether it has stored.\<close>

inductive accesses :: "'t \<Rightarrow> bool \<Rightarrow> 'a prog \<Rightarrow> 't knowledge \<Rightarrow> 't shared \<Rightarrow>
    bool \<Rightarrow> 'a prog \<Rightarrow> 't knowledge \<Rightarrow> 't shared \<Rightarrow> bool" for t where
  none: "accesses t b p K M b p K M"
| more: "weak_access t p K M p1 K1 M1 \<Longrightarrow> accesses t (b \<or> stores p \<noteq> None) p1 K1 M1 b' p' K' M' \<Longrightarrow>
    accesses t b p K M b' p' K' M'"

definition comes_to ::
  "MessageQueue \<Rightarrow> bool \<Rightarrow> bool prog \<Rightarrow> role knowledge \<Rightarrow> role shared \<Rightarrow> role knowledge \<Rightarrow> bool \<Rightarrow> heap \<Rightarrow> bool"
where
  "comes_to q b p Kw M Kr x h' \<longleftrightarrow> (\<exists>K M'. accesses Writer b p Kw M x (Ret x) K M' \<and> view q M' K = h' \<and>
     read_at q M' K = read_at q M Kw \<and> read_at q M' Kr = read_at q M Kr)"

lemma comes_to_step:
  assumes ok: "writer_ok q data n b p Kw M Kr" and act: "action p (view q M Kw) = Some (p', h1)"
    and rest: "\<And>K M'. view q M' K = h1 \<Longrightarrow> writer_ok q data n (b \<or> stores p \<noteq> None) p' K M' Kr \<Longrightarrow>
      comes_to q (b \<or> stores p \<noteq> None) p' K M' Kr x h'"
  shows "comes_to q b p Kw M Kr x h'"
proof -
  obtain K M' where acc: "weak_access Writer p Kw M p' K M'" and h1: "view q M' K = h1"
    and r: "read_at q M' K = read_at q M Kw"
    by (rule write_on_view [OF ok act])
  note A = writer_ok_access [OF ok acc]
  from rest [OF h1 A(1)] more [OF acc] show ?thesis unfolding comes_to_def r A(2) by blast
qed

lemma write_alone:
  "exec p (view q M Kw) = Inr (x, h') \<Longrightarrow> writer_ok q data n b p Kw M Kr \<Longrightarrow> comes_to q b p Kw M Kr x h'"
proof (induction p arbitrary: b Kw M)
  case (Ret y)
  have "rg (env_writer q data (buf_len q n)) (write_acts q data n) (Ret y) (\<lambda>ok b' h'. ok = b') b (view q M Kw)"
    using Ret.prems(2) by (simp only: writer_ok_def)
  then have "y = b" by (rule writer_here(1))
  with Ret.prems(1) none show ?case unfolding comes_to_def by fastforce
next
  case (LoadC mo a k)
  let ?h = "view q M Kw"
  have act: "action (LoadC mo a k) ?h = Some (k (words64 ?h a), ?h)" and go: "exec (k (words64 ?h a)) ?h = Inr (x, h')"
    using LoadC.prems(1) by (simp_all split: if_splits)
  show ?case by (rule comes_to_step [OF LoadC.prems(2) act], rule LoadC.IH [OF rangeI]) (use go in simp_all)
next
  case (StoreC mo a v k)
  let ?h = "view q M Kw"
  have act: "action (StoreC mo a v k) ?h = Some (k, set_word64 a v ?h)" and go: "exec k (set_word64 a v ?h) = Inr (x, h')"
    using StoreC.prems(1) by (simp_all split: if_splits)
  show ?case by (rule comes_to_step [OF StoreC.prems(2) act], rule StoreC.IH) (use go in simp_all)
next
  case (LoadB a k)
  let ?h = "view q M Kw"
  have act: "action (LoadB a k) ?h = Some (k (bytes ?h a), ?h)" and go: "exec (k (bytes ?h a)) ?h = Inr (x, h')"
    using LoadB.prems(1) by simp_all
  show ?case by (rule comes_to_step [OF LoadB.prems(2) act], rule LoadB.IH [OF rangeI]) (use go in simp_all)
next
  case (StoreB a v k)
  let ?h = "view q M Kw"
  have act: "action (StoreB a v k) ?h = Some (k, set_byte a v ?h)" and go: "exec k (set_byte a v ?h) = Inr (x, h')"
    using StoreB.prems(1) by simp_all
  show ?case by (rule comes_to_step [OF StoreB.prems(2) act], rule StoreB.IH) (use go in simp_all)
qed simp

text \<open>In the system these are steps of the writer.\<close>

lemma accesses_run:
  "accesses t b p K M b' p' K' M' \<Longrightarrow> t = Writer \<Longrightarrow> calls s Writer = Running data n b p \<Longrightarrow>
     knows s Writer = K \<Longrightarrow> wmem s = M \<Longrightarrow>
     \<exists>sent. run (weak_step q) s sent [] (s\<lparr>wmem := M', knows := (knows s)(Writer := K'),
       calls := (calls s)(Writer := Running data n b' p')\<rparr>)"
proof (induction arbitrary: s rule: accesses.induct)
  case (none b p K M)
  then have "s\<lparr>wmem := M, knows := (knows s)(Writer := K), calls := (calls s)(Writer := Running data n b p)\<rparr> = s"
    by (simp add: fun_upd_idem)
  with run_refl [of "weak_step q" s] show ?case by metis
next
  case (more p K M p1 K1 M1 b b' p' K' M')
  let ?s1 = "s\<lparr>wmem := M1, knows := (knows s)(Writer := K1),
      calls := (calls s)(Writer := Running data n (b \<or> stores p \<noteq> None) p1)\<rparr>"
  have "weak_access Writer p (knows s Writer) (wmem s) p1 K1 M1" using more by simp
  note first = run_single [where step = "weak_step q", OF weak_write_access [OF more.prems(2) this]]
  have "\<exists>sent. run (weak_step q) ?s1 sent [] (?s1\<lparr>wmem := M', knows := (knows ?s1)(Writer := K'),
      calls := (calls ?s1)(Writer := Running data n b' p')\<rparr>)"
    by (rule more.IH) (simp_all add: more.prems(1))
  then obtain sent where "run (weak_step q) ?s1 sent [] (?s1\<lparr>wmem := M', knows := (knows ?s1)(Writer := K'),
      calls := (calls ?s1)(Writer := Running data n b' p')\<rparr>)" ..
  from run_trans [where step = "weak_step q", OF first this]
  have "run (weak_step q) s ((if stores p = None then []
        else mem_bytes (view q (wmem s) (knows s Writer)) data (msg_bytes q n)) @ sent) []
      (s\<lparr>wmem := M', knows := (knows s)(Writer := K'), calls := (calls s)(Writer := Running data n b' p')\<rparr>)"
    by simp
  then show ?case by (rule exI)
qed

lemma write_comes_to:
  assumes inv: "weak_inv q s" and ok: "buffer_ok q data n"
    "write_room q (view q (wmem s) (knows s Writer)) n"
    "\<forall>a\<in>byte_range data (buf_len q n). load_safe Writer (knows s Writer) (wmem s) a"
    and call: "fmq_write q (view q (wmem s) (knows s Writer)) data n = Inr (x, h')"
  shows "comes_to q False (fmq_write_prog q data n) (knows s Writer) (wmem s) (knows s Reader) x h'"
proof (rule write_alone)
  note I = weak_invD [OF inv]
  show "exec (fmq_write_prog q data n) (view q (wmem s) (knows s Writer)) = Inr (x, h')"
    using call by (simp add: exec_fmq_write)
  show "writer_ok q data n False (fmq_write_prog q data n) (knows s Writer) (wmem s) (knows s Reader)"
    using I(2,3) ok rg_write_honest [OF I(1) counters_okD(1) [OF I(2)] ok(1,2)] by (simp add: writer_ok_def)
qed

lemma undisturbed_write:
  assumes inv: "weak_inv q s" and idle: "calls s Writer = Idle" and ok: "buffer_ok q data n"
    "write_room q (view q (wmem s) (knows s Writer)) n" "clear_of q data n (calls s Reader)"
    "\<forall>a\<in>byte_range data (buf_len q n). load_safe Writer (knows s Writer) (wmem s) a"
    and call: "fmq_write q (view q (wmem s) (knows s Writer)) data n = Inr (x, h')"
    and same: "read_at q (wmem s) (knows s Reader) = read_at q (wmem s) (knows s Writer)"
  obtains s' sent where "run (weak_step q) s sent [] s'"
    and "calls s' = calls s" and "newest q s' = h'"
proof -
  let ?K = "knows s Writer"
  obtain K M where acc: "accesses Writer False (fmq_write_prog q data n) ?K (wmem s) x (Ret x) K M"
    and h': "view q M K = h'" and r: "read_at q M K = read_at q (wmem s) ?K"
      "read_at q M (knows s Reader) = read_at q (wmem s) (knows s Reader)"
    using write_comes_to [OF inv ok(1,2,4) call] by (auto simp: comes_to_def)
  let ?s1 = "s\<lparr>calls := (calls s)(Writer := Running data n False (fmq_write_prog q data n))\<rparr>"
  have first: "weak_step q s [] [] ?s1" by (rule weak_start_write [OF idle ok])
  let ?s2 = "?s1\<lparr>wmem := M, knows := (knows ?s1)(Writer := K),
      calls := (calls ?s1)(Writer := Running data n x (Ret x))\<rparr>"
  obtain sent where go: "run (weak_step q) ?s1 sent [] ?s2"
    using accesses_run [OF acc refl, of ?s1 data n q] by auto
  have last: "weak_step q ?s2 [] [] (?s2\<lparr>calls := (calls ?s2)(Writer := Idle)\<rparr>)"
    by (rule weak_write_return) simp
  show ?thesis
  proof
    show "run (weak_step q) s sent [] (?s2\<lparr>calls := (calls ?s2)(Writer := Idle)\<rparr>)"
      using run_step [where step = "weak_step q", OF run_trans [where step = "weak_step q",
          OF run_single [where step = "weak_step q", OF first] go] last] by simp
    show "calls (?s2\<lparr>calls := (calls ?s2)(Writer := Idle)\<rparr>) = calls s"
      using idle by (simp add: fun_eq_iff)
    show "newest q (?s2\<lparr>calls := (calls ?s2)(Writer := Idle)\<rparr>) = h'"
      using h' r same by (simp add: newest_def view_def)
  qed
qed

section \<open>What the memory model lets through\<close>

text \<open>
  C1: a synchronized queue is a FIFO under the memory model of C++, with the orders that the code
  gives to its loads and stores. One writer and one reader may each find the other's counter as
  it was long ago, and whatever they load: the bytes that reads have taken are, in order, a
  prefix of the bytes that writes have published, and the rest is in the ring.
\<close>

theorem weak_memory_keeps_fifo:
  assumes "run (weak_step q) (weak_start h) sent recv s"
    and "flavor q = kSynchronizedReadWrite" and "mq_inv q h" and "contents q h = []"
  shows "sent = recv @ contents q (newest q s) \<and> length sent \<le> length recv + unat (ring_size q)"
proof -
  from weak_channel.received_is_prefix [OF assms(1) weak_start(1) [OF assms(2,3)]] assms(4)
  show ?thesis by (simp add: weak_start(2) [OF assms(2,3)])
qed

text \<open>
  C2: no access of a read or a write is a data race, and the results are honest. In every state
  that a writer and a reader can reach under the memory model of C++, each having its buffers to
  itself, a call in progress has returned, true exactly if it has published or taken its
  messages, or it can make its next access, and an access to a byte is ordered after all accesses
  of the other thread that conflict with it.
\<close>

theorem weak_memory_never_races:
  assumes "run (weak_step q) (weak_start h) sent recv s"
    and "flavor q = kSynchronizedReadWrite" and "mq_inv q h"
    and "calls s t = Running data n done p"
  shows "(p = Ret done \<or> proceeds t p (knows s t) (wmem s)) \<and> \<not> racy t p (knows s t) (wmem s)"
proof -
  have inv: "weak_inv q s"
    by (rule weak_channel.inv_run [OF assms(1) weak_start(1) [OF assms(2,3)]])
  note I = weak_invD [OF inv]
  have "p = Ret done \<or> proceeds t p (knows s t) (wmem s)"
  proof (cases t)
    case Writer
    with I(4,6) assms(4) writer_proceeds [OF I(2,3)] show ?thesis by fastforce
  next
    case Reader
    with I(5,7) assms(4) reader_proceeds [OF I(2,3)] show ?thesis by fastforce
  qed
  moreover have "\<not> racy t p (knows s t) (wmem s)" if "proceeds t p (knows s t) (wmem s)"
    using that unfolding proceeds_def by (elim exE) (rule weak_access_not_racy)
  ultimately show ?thesis by (auto simp: racy_def)
qed

end
