(* ===== verification/Queue_Races.thy ===== *)
theory Queue_Races
  imports Weak_Channel
begin

text \<open>
  The other flavor under the memory model of C++: a writer of an unsynchronized queue does not
  wait for the readers, so that it stores to bytes that a reader is about to copy, and nothing
  orders the two accesses.
\<close>

section \<open>The first access of a copy\<close>

lemma two_piece_copy_first:
  assumes "0 < k1 + k2" and "0 < k1 \<Longrightarrow> s1 = s \<and> d1 = d" and "k1 = 0 \<Longrightarrow> s2 = s \<and> d2 = d"
  obtains k where "two_piece_copy d1 s1 k1 d2 s2 k2 = LoadB s (\<lambda>b. StoreB d b k)"
proof (cases k1)
  case 0
  with assms obtain j where "k2 = Suc j" by (cases k2) auto
  with 0 assms(3) that show ?thesis by (simp add: two_piece_copy_def)
next
  case (Suc j)
  with assms(2) that show ?thesis by (simp add: two_piece_copy_def)
qed

text \<open>The message at a counter begins at its address in the ring.\<close>

lemma ring_copies_first:
  assumes wf: "queue_wf q" and p: "p mod sizeofT q = 0" and seam: "no_seam (ring_size q) p (msg_bytes q 1)"
    and buf: "buffer_ok q data 1"
  obtains k l where "copyTo_prog (sizeofT q) (ring_tx q (ring_size q) p 1) data 0 1 =
      LoadB data (\<lambda>b. StoreB (ring_addr (mRing q) (ring_size q) p 0) b k)"
    and "copyFrom_prog (sizeofT q) (ring_tx q (ring_size q) p 1) data 0 1 =
      LoadB (ring_addr (mRing q) (ring_size q) p 0) (\<lambda>b. StoreB data b l)"
proof -
  have S: "ring_size q \<noteq> 0" "sizeofT q \<noteq> 0" "unat (sizeofT q) dvd unat (ring_size q)"
    using wf by (auto elim: queue_wfD)
  then have fits: "msg_bytes q 1 \<le> unat (ring_size q)" "0 < msg_bytes q 1"
    by (simp_all add: msg_bytes_def dvd_imp_le unat_gt_0)
  have data: "data \<noteq> 0" "disjoint_ranges data (msg_bytes q 1) (mRing q) (unat (ring_size q))"
    using buf fits by (simp_all add: buffer_ok_def)
  obtain d1 k1 d2 k2 where pieces: "ring_pieces q p 1 d1 k1 d2 k2"
    and progs: "copyTo_prog (sizeofT q) (ring_tx q (ring_size q) p 1) data 0 1 =
        two_piece_copy d1 data k1 d2 (data + of_nat k1) k2"
      "copyFrom_prog (sizeofT q) (ring_tx q (ring_size q) p 1) data 0 1 =
        two_piece_copy data d1 k1 (data + of_nat k1) d2 k2"
    by (rule ring_copy_progs [OF ring_stretchI [OF wf p fits(1)] data])
  have sum: "0 < k1 + k2" using pieces fits(2) by (simp add: ring_pieces_def)
  have at: "0 < k1 \<Longrightarrow> d1 = ring_addr (mRing q) (ring_size q) p 0"
    "k1 = 0 \<Longrightarrow> d2 = ring_addr (mRing q) (ring_size q) p 0"
    using pieces seam sum by (auto simp: ring_pieces_def dest: spec [of _ 0])
  from two_piece_copy_first [OF sum, of data data d1 "ring_addr (mRing q) (ring_size q) p 0" "data + of_nat k1" d2]
  obtain k where k: "two_piece_copy d1 data k1 d2 (data + of_nat k1) k2 =
      LoadB data (\<lambda>b. StoreB (ring_addr (mRing q) (ring_size q) p 0) b k)"
    using at by auto
  from two_piece_copy_first [OF sum, of d1 "ring_addr (mRing q) (ring_size q) p 0" data data d2 "data + of_nat k1"]
  obtain l where l: "two_piece_copy data d1 k1 (data + of_nat k1) d2 k2 =
      LoadB (ring_addr (mRing q) (ring_size q) p 0) (\<lambda>b. StoreB data b l)"
    using at by auto
  from that k l progs show ?thesis by simp
qed

text \<open>A ring that is full: the next message to be written has the place of the oldest.\<close>

lemma full_ring_wraps:
  assumes "no_seam S r (unat S + k)" and "S \<noteq> 0"
  shows "ring_addr base S (r + S) 0 = ring_addr base S r 0" and "no_seam S (r + S) k"
proof -
  have S: "r + S = r + of_nat (unat S)" by simp
  have "ring_addr base S (r + S) 0 = ring_addr base S r (unat S)"
    unfolding S by (simp only: ring_addr_shift add_0_right)
  also have "\<dots> = base + of_nat ((unat r + unat S) mod unat S)"
    by (rule ring_addr_offset [OF assms(1)]) simp
  also have "\<dots> = ring_addr base S r 0"
    using ring_addr_offset [OF assms(1), of 0 base] by simp
  finally show "ring_addr base S (r + S) 0 = ring_addr base S r 0" .
  show "no_seam S (r + S) k" unfolding S using assms(1) by (rule no_seam_shift)
qed

section \<open>A race\<close>

lemma newcomer_loads:
  assumes "p \<noteq> nullptr"
  shows "weak_access t (LoadC mo p k) (newcomer t) (settled h) (k (words64 h p)) (newcomer t) (settled h)"
proof -
  have "took mo (bare p 0) (saw p 0 (newcomer t)) = newcomer t"
    by (simp add: took_def saw_def newcomer_def learn_def fun_eq_iff)
  moreover have "history (settled h) p 0 = Some (words64 h p, bare p 0)" by (simp add: settled_def)
  ultimately show ?thesis
    using counter_load [OF assms, of "settled h" 0 "words64 h p" "bare p 0" "newcomer t" t mo k]
    by (simp add: newcomer_def)
qed

text \<open>The accesses up to the race.\<close>

lemma unsync_write_begins:
  assumes un: "flavor q = kUnsynchronizedWrite" and wf: "queue_wf q" and w: "w mod sizeofT q = 0"
    and seam: "no_seam (ring_size q) w (msg_bytes q 1)" and buf: "buffer_ok q data 1"
  obtains k l where "fmq_write_prog q data 1 = LoadC Relaxed (mWritePtr q) k"
    and "k w = LoadB data (\<lambda>b. StoreB (ring_addr (mRing q) (ring_size q) w 0) b l)"
proof -
  have "msg_bytes q 1 \<le> unat (ring_size q)"
    using wf by (auto simp: msg_bytes_def intro!: dvd_imp_le elim!: queue_wfD simp: unat_gt_0)
  then have "\<not> ring_size q div sizeofT q < 1" using fits_iff [OF wf, of 1] by simp
  obtain k l where "copyTo_prog (sizeofT q) (ring_tx q (ring_size q) w 1) data 0 1 =
      LoadB data (\<lambda>b. StoreB (ring_addr (mRing q) (ring_size q) w 0) b k)"
    by (rule ring_copies_first [OF wf w seam buf])
  with that w \<open>\<not> ring_size q div sizeofT q < 1\<close> show ?thesis
    by (simp add: fmq_write_prog_def beginWrite_prog_unsync [OF wf un])
qed

lemma full_read_begins:
  assumes wf: "queue_wf q" and r: "r mod sizeofT q = 0" and w: "(r + ring_size q) mod sizeofT q = 0"
    and seam: "no_seam (ring_size q) r (msg_bytes q 1)" and buf: "buffer_ok q data 1"
  obtains k l m where "fmq_read_prog q data 1 = LoadC Acquire (mWritePtr q) k"
    and "k (r + ring_size q) = LoadC Relaxed (mReadPtr q) l"
    and "l r = LoadB (ring_addr (mRing q) (ring_size q) r 0) m"
proof -
  have "msg_bytes q 1 \<le> unat (ring_size q)"
    using wf by (auto simp: msg_bytes_def intro!: dvd_imp_le elim!: queue_wfD simp: unat_gt_0)
  then have "\<not> ring_size q < sizeofT q" by (simp add: msg_bytes_def word_less_nat_alt)
  moreover obtain k l where "copyFrom_prog (sizeofT q) (ring_tx q (ring_size q) r 1) data 0 1 =
      LoadB (ring_addr (mRing q) (ring_size q) r 0) (\<lambda>b. StoreB data b l)"
    by (rule ring_copies_first [OF wf r seam buf])
  ultimately show ?thesis using that r w
    by (simp add: fmq_read_prog_def beginRead_prog_shape [OF wf])
qed

text \<open>Two threads that have learnt nothing yet.\<close>

definition early :: "role shared \<Rightarrow> side \<Rightarrow> side \<Rightarrow> weak" where
  "early M cw cr = \<lparr>wmem = M, knows = newcomer, calls = case_role cw cr\<rparr>"

lemma early_simps [simp]:
  "wmem (early M cw cr) = M" "knows (early M cw cr) = newcomer"
  "calls (early M cw cr) Writer = cw" "calls (early M cw cr) Reader = cr"
  by (simp_all add: early_def)

lemma early_updates:
  "(case_role cw cr)(Reader := x) = case_role cw x" "(case_role cw cr)(Writer := x) = case_role x cr"
  by (simp_all add: fun_eq_iff all_roles)

lemma weak_start_early: "weak_start h = early (settled h) Idle Idle"
  by (simp add: weak_start_def early_def fun_eq_iff all_roles)

lemma early_access:
  assumes "weak_access t p (newcomer t) M p' (newcomer t) M'" and "stores p = None"
  shows "t = Reader \<Longrightarrow> weak_step q (early M cw (Running data n b p)) [] [] (early M' cw (Running data n b p'))"
    and "t = Writer \<Longrightarrow> weak_step q (early M (Running data n b p) cr) [] [] (early M' (Running data n b p') cr)"
  using weak_read_access [of "early M cw (Running data n b p)" data n b p p' "newcomer t" M' q]
    weak_write_access [of "early M (Running data n b p) cr" data n b p p' "newcomer t" M' q] assms
  by (auto simp: early_def early_updates)

lemma quiet_run:
  "run step s [] [] s' \<Longrightarrow> step s' [] [] s'' \<Longrightarrow> run step s [] [] s''"
  by (drule run_step, assumption, simp)

text \<open>
  C17: the readers of an unsynchronized queue race with its writer. On any such queue whose ring
  is full, a reader that has begun its read and a writer that overwrites the oldest message reach
  a state in which the reader is about to load a byte of the ring to which the writer has stored
  with nothing that orders the two; in C++ that is undefined behaviour, so that the test after the
  copy, in \<open>commitRead\<close>, comes too late.
\<close>

theorem unsync_reads_race:
  assumes "flavor q = kUnsynchronizedWrite" and "mq_inv q h" and "used q h = unat (ring_size q)"
    and "buffer_ok q src 1" and "buffer_ok q dst 1" and "write_room q h 1"
    and "disjoint_ranges src (buf_len q 1) dst (buf_len q 1)"
  shows "\<exists>s p. run (weak_step q) (weak_start h) [] [] s \<and> calls s Reader = Running dst 1 False p \<and>
    racy Reader p (knows s Reader) (wmem s)"
proof -
  note I = mq_invD [OF assms(2)]
  let ?r = "readCtr q h" and ?S = "ring_size q" and ?M = "settled h :: role shared"
  let ?a = "ring_addr (mRing q) ?S ?r 0"
  have ptrs: "mReadPtr q \<noteq> nullptr" "mWritePtr q \<noteq> nullptr" "mReadPtr q \<noteq> mWritePtr q"
    and S: "?S \<noteq> 0" "sizeofT q \<noteq> 0" "unat (sizeofT q) dvd unat ?S"
    using I(1) by (auto elim: queue_wfD)
  have w: "writeCtr q h = ?r + ?S" using writeCtr_eq [of h q] assms(3) by simp
  have mods: "?r mod sizeofT q = 0" "(?r + ?S) mod sizeofT q = 0"
    using I(2,3) by (simp_all add: mod_sizeofT_iff flip: w)
  have fits: "msg_bytes q 1 \<le> unat ?S" using S by (simp add: msg_bytes_def dvd_imp_le unat_gt_0)
  have seam: "no_seam ?S ?r (unat ?S + msg_bytes q 1)"
    using assms(3,6) fits by (simp add: write_room_def)
  note wraps = full_ring_wraps [OF seam S(1)]
  obtain k l m where R: "fmq_read_prog q dst 1 = LoadC Acquire (mWritePtr q) k"
      "k (?r + ?S) = LoadC Relaxed (mReadPtr q) l" "l ?r = LoadB ?a m"
    by (rule full_read_begins [OF I(1) mods no_seam_mono [OF seam] assms(5)]) simp
  obtain k' l' where W: "fmq_write_prog q src 1 = LoadC Relaxed (mWritePtr q) k'"
      "k' (?r + ?S) = LoadB src (\<lambda>b. StoreB ?a b l')"
    by (rule unsync_write_begins [OF assms(1) I(1) mods(2) wraps(2) assms(4)]) (simp add: wraps(1))
  have view: "view q ?M (newcomer t) = snap q (bytes h) ?r (writeCtr q h)" for t :: role
    by (simp add: view_def read_at_def written_at_def value_at_def settled_def newcomer_def)
  have "weak_step q (early ?M Idle Idle) [] [] (early ?M Idle (Running dst 1 False (fmq_read_prog q dst 1)))"
    using weak_start_read [of "early ?M Idle Idle" q dst 1] assms(5) fits unat_u64_less [of ?S]
    by (simp add: early_def early_updates)
  note run1 = run_single [where step = "weak_step q", OF this]
  have "weak_step q (early ?M Idle (Running dst 1 False (fmq_read_prog q dst 1))) [] []
      (early ?M Idle (Running dst 1 False (LoadC Relaxed (mReadPtr q) l)))"
    using early_access(1) [OF newcomer_loads [OF ptrs(2), of _ Acquire k h]] R(1,2) w
    by (simp add: stores_def)
  note run2 = quiet_run [where step = "weak_step q", OF run1 this]
  have "weak_step q (early ?M Idle (Running dst 1 False (LoadC Relaxed (mReadPtr q) l))) [] []
      (early ?M Idle (Running dst 1 False (LoadB ?a m)))"
    using early_access(1) [OF newcomer_loads [OF ptrs(1), of _ Relaxed l h]] R(3)
    by (simp add: stores_def)
  note run3 = quiet_run [where step = "weak_step q", OF run2 this]
  have room: "write_room q (view q ?M (newcomer Writer)) 1"
    using assms(6) unfolding write_room_def view by (simp add: ptrs(3) used_def)
  let ?reading = "Running dst 1 False (LoadB ?a m)"
  have "weak_step q (early ?M Idle ?reading) [] [] (early ?M (Running src 1 False (fmq_write_prog q src 1)) ?reading)"
    using weak_start_write [of "early ?M Idle ?reading" q src 1] assms(4,7) room
    by (simp add: early_def early_updates)
  note run4 = quiet_run [where step = "weak_step q", OF run3 this]
  have "weak_step q (early ?M (Running src 1 False (fmq_write_prog q src 1)) ?reading) [] []
      (early ?M (Running src 1 False (LoadB src (\<lambda>b. StoreB ?a b l'))) ?reading)"
    using early_access(2) [OF newcomer_loads [OF ptrs(2), of _ Relaxed k' h]] W w
    by (simp add: stores_def)
  note run5 = quiet_run [where step = "weak_step q", OF run4 this]
  let ?M1 = "note_load Writer src (newcomer Writer) ?M"
  have "weak_step q (early ?M (Running src 1 False (LoadB src (\<lambda>b. StoreB ?a b l'))) ?reading) [] []
      (early ?M1 (Running src 1 False (StoreB ?a (plain ?M src) l')) ?reading)"
    by (rule early_access(2)) (simp_all add: stores_def)
  note run6 = quiet_run [where step = "weak_step q", OF run5 this]
  let ?M2 = "put_byte Writer ?a (plain ?M src) (newcomer Writer) ?M1"
  have "store_safe Writer (newcomer Writer) ?M1 ?a"
    by (simp add: store_safe_def load_safe_def) (simp add: settled_def)
  then have "weak_step q (early ?M1 (Running src 1 False (StoreB ?a (plain ?M src) l')) ?reading) [] []
      (early ?M2 (Running src 1 False l') ?reading)"
    by (intro early_access(2)) (simp_all add: stores_def)
  note run7 = quiet_run [where step = "weak_step q", OF run6 this]
  have "racy Reader (LoadB ?a m) (newcomer Reader) ?M2"
    by (auto simp: racy_def load_safe_def newcomer_def intro: exI [of _ Writer])
  with run7 show ?thesis
    by (intro exI conjI) (simp only: weak_start_early, simp_all)
qed

end
