(* ===== verification/Samples.thy ===== *)
theory Samples
  imports Queue_Broadcast Blocking_Concurrency Queue_Peer Queue_Slots Slot_Copies
    Queue_Confinement Broadcast_Readers Queue_Races
begin

text \<open>
  A small queue, heap and environment, and the instances of the properties on them: two
  messages of four bytes in a ring of eight, a heap in which every byte holds the low part of
  its own address, and an environment whose clock ticks at every reading.
\<close>

section \<open>The sample queue\<close>

definition sample_desc :: Shim where
  "sample_desc = \<lparr>mGrantors = default_grantors 8 False, mHandle = None, mQuantum = 4,
     mFlags = 1, mName = ''''\<rparr>"

definition sample_queue :: "MQFlavor \<Rightarrow> MessageQueue" where
  "sample_queue fl = \<lparr>flavor = fl, sizeofT = 4, mDesc = Some sample_desc, mRing = 0x1000,
     mReadPtr = 0x2000, mWritePtr = 0x2008, mEvFlagWord = 0x3000,
     mEventFlag = Some \<lparr>mEfWordNeedsUnmapping = False, mEfWordPtr = 0x3000\<rparr>\<rparr>"

definition sample_heap :: heap where
  "sample_heap = \<lparr>bytes = (\<lambda>a. ucast a), words64 = (\<lambda>_. 0), words32 = (\<lambda>_. 0)\<rparr>"

abbreviation sync_queue :: MessageQueue where
  "sync_queue \<equiv> sample_queue kSynchronizedReadWrite"

abbreviation unsync_queue :: MessageQueue where
  "unsync_queue \<equiv> sample_queue kUnsynchronizedWrite"

lemma sample_ring_size [simp]: "ring_size (sample_queue fl) = 8"
  by (simp add: ring_size_def sample_queue_def sample_desc_def getSize_def default_grantors_def
      DATAPTRPOS_def)

lemma sample_fields [simp]:
  "sizeofT (sample_queue fl) = 4" "flavor (sample_queue fl) = fl"
  "mRing (sample_queue fl) = 0x1000" "mReadPtr (sample_queue fl) = 0x2000"
  "mWritePtr (sample_queue fl) = 0x2008"
  "pick_flag (sample_queue fl) None = Some \<lparr>mEfWordNeedsUnmapping = False, mEfWordPtr = 0x3000\<rparr>"
  by (simp_all add: sample_queue_def pick_flag_def)

lemma sample_wf [simp]: "queue_wf (sample_queue fl)"
proof -
  have "isValid (sample_queue fl)" "getQuantum sample_desc = 4"
    by (simp_all add: isValid_def getQuantum_def sample_desc_def)
  moreover have "mDesc (sample_queue fl) = Some sample_desc" by (simp add: sample_queue_def)
  ultimately show ?thesis by (simp add: queue_wf_def)
qed

lemma sample_heap_fields [simp]:
  "words64 sample_heap a = 0" "words32 sample_heap a = 0" "bytes sample_heap a = ucast a"
  by (simp_all add: sample_heap_def)

lemma sample_used [simp]: "used (sample_queue fl) sample_heap = 0"
  by (simp add: used_def)

lemma sample_contents [simp]: "contents (sample_queue fl) sample_heap = []"
  by (simp add: contents_def ring_bytes_def)

lemma sample_inv [simp]: "mq_inv (sample_queue fl) sample_heap"
  by (simp add: mq_inv_def no_seam_def)

lemma sample_msg [simp]: "msg_bytes (sample_queue fl) n = unat n * 4"
  by (simp add: msg_bytes_def)

lemma sample_buffer [simp]: "buffer_ok (sample_queue fl) 0x5000 1"
  by (simp add: buffer_ok_def disjoint_ranges_def)

lemma sample_room [simp]: "write_room (sample_queue fl) h n"
  by (simp add: write_room_def no_seam_def)

lemma sample_bytes [simp]: "mem_bytes sample_heap 0x5000 4 = [0, 1, 2, 3]"
  by (simp add: mem_bytes_def upt_rec)

section \<open>The synchronized queue\<close>

lemma sample_put:
  obtains h' where "fmq_write sync_queue sample_heap 0x5000 1 = Inr (True, h')"
    and "mq_inv sync_queue h'" and "contents sync_queue h' = [0, 1, 2, 3]"
  using fmq_write_put [of sync_queue sample_heap "0x5000" 1] by (auto simp: fifo_put_def)

theorem fmq_write_refines_put_witness:
  "map_sum id (map_prod id (contents sync_queue)) (fmq_write sync_queue sample_heap 0x5000 1) =
     Inr (True, [0, 1, 2, 3])"
  using fmq_write_refines_put [of sync_queue sample_heap "0x5000" 1] by (simp add: fifo_put_def)

theorem fmq_read_refines_get_witness:
  "\<exists>h. contents sync_queue h = [0, 1, 2, 3] \<and>
     map_sum id (map_prod id (contents sync_queue)) (fmq_read sync_queue h 0x5000 1) =
     Inr (True, [])"
proof -
  obtain h where h: "mq_inv sync_queue h" "contents sync_queue h = [0, 1, 2, 3]"
    using sample_put by metis
  then show ?thesis
    using fmq_read_refines_get [of sync_queue h "0x5000" 1] by (auto simp: fifo_get_def)
qed

lemma sync_queue_is_fifo_channel_witness:
  "\<exists>h'. run (channel_step sync_queue) sample_heap [0, 1, 2, 3] [] h' \<and>
     [0, 1, 2, 3] = [] @ contents sync_queue h'"
proof -
  obtain h' where "fmq_write sync_queue sample_heap 0x5000 1 = Inr (True, h')"
    by (rule sample_put)
  then have "channel_step sync_queue sample_heap [0, 1, 2, 3] [] h'"
    using channel_step.put [of sync_queue "0x5000" 1 sample_heap True h'] by simp
  then have r: "run (channel_step sync_queue) sample_heap [0, 1, 2, 3] [] h'" by (rule run_single)
  with sync_queue_is_fifo_channel [OF r] show ?thesis by auto
qed

abbreviation sample_start :: spsc where
  "sample_start \<equiv> \<lparr>mem = sample_heap, writer = WIdle, reader = RIdle\<rparr>"

lemma sample_begun:
  obtains tx where "spsc_step sync_queue sample_start [] [] (sample_start\<lparr>writer := WBegun 1 tx\<rparr>)"
proof -
  have "write_limit sync_queue sample_heap = 8" by (simp add: write_limit_def)
  then have "beginWrite sync_queue sample_heap 1 MemTransaction_default =
      Inr (True, ring_tx sync_queue 8 0 1)"
    using beginWrite_result [of sync_queue sample_heap 1] by simp
  from that spsc_step.begin_write [of sample_start sync_queue 1 True] this
  show ?thesis by fastforce
qed

lemma sample_published:
  obtains s where "run (spsc_step sync_queue) sample_start [0, 1, 2, 3] [] s"
proof -
  obtain tx where b: "spsc_step sync_queue sample_start [] [] (sample_start\<lparr>writer := WBegun 1 tx\<rparr>)"
    by (rule sample_begun)
  let ?s1 = "sample_start\<lparr>writer := WBegun 1 tx\<rparr>"
  have "spsc_inv sync_queue ?s1"
    using spsc_step_preserves [OF _ b] spsc_inv_start [of sync_queue sample_heap] by simp
  from spsc_copy_in [OF this, of 1 tx "0x5000"] obtain h2 where
    c: "copyTo (sizeofT sync_queue) tx (mem ?s1) 0x5000 0 1 = Inr (True, h2)"
    and inv2: "spsc_inv sync_queue (?s1\<lparr>mem := h2, writer := WCopied 1 [0, 1, 2, 3]\<rparr>)"
    by auto
  let ?s2 = "?s1\<lparr>mem := h2, writer := WCopied 1 [0, 1, 2, 3]\<rparr>"
  have s2: "spsc_step sync_queue ?s1 [] [] ?s2"
    using spsc_step.copy_in [of ?s1 1 tx sync_queue "0x5000" True h2] c by simp
  obtain h3 where "commitWrite sync_queue (mem ?s2) 1 = Inr (True, h3)"
    using spsc_commit_write [OF inv2, of 1 "[0, 1, 2, 3]"] by auto
  then have "spsc_step sync_queue ?s2 [0, 1, 2, 3] [] (?s2\<lparr>mem := h3, writer := WIdle\<rparr>)"
    using spsc_step.commit_write [of ?s2 1 "[0, 1, 2, 3]" sync_queue True h3] by simp
  moreover have "run (spsc_step sync_queue) sample_start [] [] ?s2"
    using run_step [of "spsc_step sync_queue" sample_start "[]" "[]" ?s1 "[]" "[]" ?s2]
      run_single [of "spsc_step sync_queue", OF b] s2 by simp
  ultimately have "run (spsc_step sync_queue) sample_start [0, 1, 2, 3] []
      (?s2\<lparr>mem := h3, writer := WIdle\<rparr>)"
    using run_step [of "spsc_step sync_queue" sample_start "[]" "[]" ?s2 "[0, 1, 2, 3]" "[]"] by simp
  then show ?thesis by (rule that)
qed

theorem concurrent_queue_is_fifo_witness:
  "\<exists>s. run (spsc_step sync_queue) sample_start [0, 1, 2, 3] [] s \<and>
     contents sync_queue (mem s) = [0, 1, 2, 3]"
proof -
  obtain s where r: "run (spsc_step sync_queue) sample_start [0, 1, 2, 3] [] s"
    by (rule sample_published)
  with concurrent_queue_is_fifo [OF r] show ?thesis by auto
qed

lemma concurrent_calls_complete_witness:
  "\<exists>tx h'. copyTo 4 tx sample_heap 0x5000 0 1 = Inr (True, h')"
proof -
  obtain tx where b: "spsc_step sync_queue sample_start [] [] (sample_start\<lparr>writer := WBegun 1 tx\<rparr>)"
    by (rule sample_begun)
  note r = run_single [of "spsc_step sync_queue", OF b]
  have "buffer_ok sync_queue 0x5000 1" by simp
  with concurrent_calls_complete [OF r] show ?thesis by fastforce
qed

section \<open>Access by access\<close>

abbreviation fine_start :: fine where
  "fine_start \<equiv> \<lparr>fmem = sample_heap, wside = Idle, rside = Idle\<rparr>"

lemma sample_accesses:
  obtains s where "run (fine_step sync_queue) fine_start [0, 1, 2, 3] [] s"
    and "contents sync_queue (fmem s) = [0, 1, 2, 3]"
proof -
  obtain h' where h': "fmq_write sync_queue sample_heap 0x5000 1 = Inr (True, h')"
    "contents sync_queue h' = [0, 1, 2, 3]"
    by (rule sample_put)
  have "fine_inv sync_queue fine_start" by (rule fine_inv_start) simp_all
  from uninterrupted_write [OF this, of "0x5000" 1 True h'] h'(1) obtain sent where
    "run (fine_step sync_queue) fine_start sent [] (fine_start\<lparr>fmem := h', wside := Idle\<rparr>)"
    "contents sync_queue h' = sent"
    by auto
  with h'(2) that show ?thesis by simp
qed

lemma accesses_keep_fifo_witness:
  "\<exists>s. run (fine_step sync_queue) fine_start [0, 1, 2, 3] [] s \<and>
     [0, 1, 2, 3] = contents sync_queue (fmem s)"
proof -
  obtain s where r: "run (fine_step sync_queue) fine_start [0, 1, 2, 3] [] s"
    by (rule sample_accesses)
  with accesses_keep_fifo [OF r] show ?thesis by auto
qed

lemma accesses_never_stuck_witness:
  "\<exists>p' h'. action (fmq_write_prog sync_queue 0x5000 1) sample_heap = Some (p', h')"
proof -
  let ?p = "fmq_write_prog sync_queue 0x5000 1"
  have "fine_step sync_queue fine_start [] [] (fine_start\<lparr>wside := Running 0x5000 1 False ?p\<rparr>)"
    by (rule fine_step.start_write) simp_all
  note r = run_single [where step = "fine_step sync_queue", OF this]
  have "?p \<noteq> Ret False"
    by (simp add: fmq_write_prog_def beginWrite_prog_shape)
  with accesses_never_stuck [OF r, of "0x5000" 1 False ?p] show ?thesis by simp
qed

section \<open>Under the memory model of C++\<close>

lemma sample_settled:
  "view sync_queue (settled sample_heap) (newcomer (t :: role)) = sample_heap"
  by (simp add: view_def snap_def read_at_def written_at_def value_at_def settled_def newcomer_def
      sample_heap_def fun_eq_iff)

text \<open>A read begins, and then a whole write goes through before the read makes its first access.\<close>

abbreviation sample_reading :: side where
  "sample_reading \<equiv> Running 0x6000 1 False (fmq_read_prog sync_queue 0x6000 1)"

lemma sample_weak_write:
  obtains s where "run (weak_step sync_queue) (weak_start sample_heap) [0, 1, 2, 3] [] s"
    and "calls s Reader = sample_reading"
proof -
  let ?start = "weak_start sample_heap"
  let ?s = "?start\<lparr>calls := (calls ?start)(Reader := sample_reading)\<rparr>"
  have buf: "buffer_ok sync_queue 0x6000 1" by (simp add: buffer_ok_def disjoint_ranges_def)
  have first: "weak_step sync_queue ?start [] [] ?s"
    by (rule weak_start_read [OF _ buf])
      (simp_all add: weak_start_def)
  have inv0: "weak_inv sync_queue ?start" by (rule weak_start) simp_all
  then have inv: "weak_inv sync_queue ?s" using weak_step_preserves [OF _ first] by blast
  obtain h' where h': "fmq_write sync_queue sample_heap 0x5000 1 = Inr (True, h')"
    "contents sync_queue h' = [0, 1, 2, 3]"
    by (rule sample_put)
  have apart: "disjoint_ranges 0x5000 (buf_len sync_queue 1) 0x6000 (buf_len sync_queue 1)"
    by (simp add: disjoint_ranges_def buf_len_def)
  have same: "read_at sync_queue (settled sample_heap) (newcomer Reader) =
      read_at sync_queue (settled sample_heap) (newcomer Writer)"
    by (simp add: read_at_def newcomer_def)
  obtain s' sent where go: "run (weak_step sync_queue) ?s sent [] s'"
    and s': "calls s' = calls ?s" "newest sync_queue s' = h'"
    by (rule undisturbed_write [OF inv, of "0x5000" 1 True h'])
      (use apart h'(1) in \<open>simp_all add: weak_start_def sample_settled same\<close>)
  have all: "run (weak_step sync_queue) ?start sent [] s'"
    using run_trans [OF run_single [where step = "weak_step sync_queue", OF first] go] by simp
  have "contents sync_queue (newest sync_queue ?start) = []"
    using weak_start(2) [of sync_queue sample_heap] by simp
  with weak_channel.conserves_run [OF all inv0] have "sent = [0, 1, 2, 3]" by (simp add: s'(2) h'(2))
  with that all s'(1) show ?thesis by simp
qed

theorem weak_memory_keeps_fifo_witness:
  "\<exists>s. run (weak_step sync_queue) (weak_start sample_heap) [0, 1, 2, 3] [] s \<and>
     [0, 1, 2, 3] = contents sync_queue (newest sync_queue s)"
proof -
  obtain s where r: "run (weak_step sync_queue) (weak_start sample_heap) [0, 1, 2, 3] [] s"
    by (rule sample_weak_write)
  with weak_memory_keeps_fifo [OF r] show ?thesis by auto
qed

theorem weak_memory_never_races_witness:
  "\<exists>s. run (weak_step sync_queue) (weak_start sample_heap) [0, 1, 2, 3] [] s \<and>
     proceeds Reader (fmq_read_prog sync_queue 0x6000 1) (knows s Reader) (wmem s)"
proof -
  obtain s where r: "run (weak_step sync_queue) (weak_start sample_heap) [0, 1, 2, 3] [] s"
    and reading: "calls s Reader = sample_reading"
    by (rule sample_weak_write)
  have "fmq_read_prog sync_queue 0x6000 1 \<noteq> Ret False"
    by (simp add: fmq_read_prog_def beginRead_prog_shape)
  with weak_memory_never_races [OF r _ _ reading] r show ?thesis by auto
qed

theorem unsync_reads_race_witness:
  "\<exists>s p. run (weak_step unsync_queue) (weak_start (set_word64 0x2008 8 sample_heap)) [] [] s \<and>
     calls s Reader = Running 0x6000 1 False p \<and> racy Reader p (knows s Reader) (wmem s)"
proof -
  let ?h = "set_word64 0x2008 8 sample_heap"
  have "mq_inv unsync_queue ?h"
    by (simp add: mq_inv_def used_def set_word64_def no_seam_def)
  moreover have "used unsync_queue ?h = unat (ring_size unsync_queue)"
    by (simp add: used_def set_word64_def)
  moreover have "buffer_ok unsync_queue 0x6000 1" by (simp add: buffer_ok_def disjoint_ranges_def)
  moreover have "write_room unsync_queue ?h 1" by (simp add: write_room_def no_seam_def)
  moreover have "disjoint_ranges 0x5000 (buf_len unsync_queue 1) 0x6000 (buf_len unsync_queue 1)"
    by (simp add: disjoint_ranges_def buf_len_def)
  ultimately show ?thesis using unsync_reads_race [of unsync_queue ?h "0x5000" "0x6000"] by simp
qed

theorem calls_are_wait_free_witness:
  "\<exists>ok. against (fmq_write_prog sync_queue 0x5000 1) (replicate 14 sample_heap) = Ret ok"
proof -
  have "6 + 2 * buf_len sync_queue 1 \<le> length (replicate 14 sample_heap)"
    by (simp add: buf_len_def)
  from calls_are_wait_free [OF _ _ _ this] show ?thesis by simp
qed

theorem hostile_peers_are_contained_witness:
  "set_option (next_access (against (fmq_write_prog sync_queue 0x5000 1)
     [sample_heap\<lparr>words64 := (\<lambda>a. a)\<rparr>, sample_heap])) \<subseteq> write_footprint sync_queue 0x5000 1"
proof -
  have "queue_wf sync_queue" "buffer_ok sync_queue 0x5000 1" "msg_bytes sync_queue 1 < 2 ^ 64"
    by simp_all
  from hostile_peers_are_contained [OF this] show ?thesis by blast
qed

theorem begun_transactions_fit_witness:
  "\<exists>tx k. beginWrite sync_queue sample_heap 1 MemTransaction_default = Inr (True, tx) \<and>
     getSlot 4 tx 0 = ring_slot sync_queue k \<and> k < 2"
proof -
  have "write_limit sync_queue sample_heap = 8" by (simp add: write_limit_def)
  then have b: "beginWrite sync_queue sample_heap 1 MemTransaction_default =
      Inr (True, ring_tx sync_queue 8 0 1)"
    using beginWrite_result [of sync_queue sample_heap 1] by simp
  have "\<forall>i<1. \<exists>k. getSlot 4 (ring_tx sync_queue 8 0 1) i = ring_slot sync_queue k \<and>
      (k + 1) * 4 \<le> (8 :: nat)"
    using begun_transactions_fit [of sync_queue 1 sample_heap MemTransaction_default
        "ring_tx sync_queue 8 0 1" sample_heap] b by simp
  then obtain k where "getSlot 4 (ring_tx sync_queue 8 0 1) 0 = ring_slot sync_queue k"
    and "(k + 1) * 4 \<le> (8 :: nat)"
    by (metis word_gt_0 zero_neq_one)
  with b show ?thesis by (intro exI [of _ "ring_tx sync_queue 8 0 1"] exI [of _ k]) simp
qed

section \<open>The unsynchronized queue\<close>

lemma sample_log: "log_inv unsync_queue sample_heap []"
  by (simp add: log_inv_def)

lemma sample_broadcast:
  obtains h where "fmq_write unsync_queue sample_heap 0x5000 1 = Inr (True, h)"
    and "log_inv unsync_queue h [0, 1, 2, 3]" and "reader_at unsync_queue h [0, 1, 2, 3] 0"
proof -
  obtain h where h: "fmq_write unsync_queue sample_heap 0x5000 1 = Inr (True, h)"
    "log_inv unsync_queue h ([] @ mem_bytes sample_heap 0x5000 (msg_bytes unsync_queue 1))"
    "readCtr unsync_queue h = readCtr unsync_queue sample_heap"
    using broadcast_write [OF sample_log, of "0x5000" 1] by (auto simp: log_room_def)
  then show ?thesis by (intro that [of h]) (simp_all add: reader_at_def)
qed

theorem unsync_write_appends_witness:
  "\<exists>h'. fmq_write unsync_queue sample_heap 0x5000 1 = Inr (True, h') \<and>
     log_inv unsync_queue h' [0, 1, 2, 3]"
  using unsync_write_appends [OF sample_log, of "0x5000" 1] by (auto simp: log_room_def)

theorem unsync_read_slices_witness:
  "\<exists>h h'. fmq_write unsync_queue sample_heap 0x5000 1 = Inr (True, h) \<and>
     fmq_read unsync_queue h 0x5000 1 = Inr (True, h') \<and>
     mem_bytes h' 0x5000 4 = [0, 1, 2, 3] \<and> reader_at unsync_queue h' [0, 1, 2, 3] 4"
proof -
  obtain h where h: "fmq_write unsync_queue sample_heap 0x5000 1 = Inr (True, h)"
    "log_inv unsync_queue h [0, 1, 2, 3]" "reader_at unsync_queue h [0, 1, 2, 3] 0"
    by (rule sample_broadcast)
  from unsync_read_slices [OF h(2,3), of "0x5000" 1] h(1) show ?thesis by auto
qed

theorem commitRead_validates_copy_witness:
  "\<exists>h h2 h4. commitRead unsync_queue h 1 = Inr (True, h4) \<and>
     copyFrom 4 (ring_tx unsync_queue 8 0 1) h 0x5000 0 1 = Inr (True, h2) \<and>
     mem_bytes h2 0x5000 4 = [0, 1, 2, 3]"
proof -
  obtain h where h: "log_inv unsync_queue h [0, 1, 2, 3]" "reader_at unsync_queue h [0, 1, 2, 3] 0"
    using sample_broadcast by metis
  have r: "readCtr unsync_queue h = 0" using h(2) by (simp add: reader_at_def)
  have "ring_stretch unsync_queue 8 0 1" "no_seam 8 0 (msg_bytes unsync_queue 1)"
    by (simp_all add: ring_stretch_def no_seam_def)
  from ring_copyFrom [OF this, of "0x5000" h] obtain h2 where
    c: "copyFrom 4 (ring_tx unsync_queue 8 0 1) h 0x5000 0 1 = Inr (True, h2)"
    by (auto simp: disjoint_ranges_def)
  have u: "used unsync_queue h = 4" using reader_atD(1) [OF h] by simp
  then have "\<exists>h4. commitRead unsync_queue h 1 = Inr (True, h4)"
    by (simp add: commitRead_result)
  then obtain h4 where "commitRead unsync_queue h 1 = Inr (True, h4)" by blast
  with commitRead_validates_copy [OF h, of 1 h "0x5000" h2 "[]" 0 "[]" h] h r c
    log_inv_during [OF h(1)] show ?thesis by auto
qed

theorem unfinished_write_tears_read_witness:
  "\<exists>h wtx rtx h1 h2 h3. beginRead unsync_queue h 1 = Inr (True, rtx, h) \<and>
     beginWrite unsync_queue h 1 MemTransaction_default = Inr (True, wtx) \<and>
     copyTo 4 wtx h 0x5000 0 1 = Inr (True, h1) \<and>
     copyFrom 4 rtx h1 0x6000 0 1 = Inr (True, h2) \<and>
     commitRead unsync_queue h2 1 = Inr (True, h3) \<and>
     mem_bytes h2 0x6000 4 = mem_bytes h 0x5000 4"
proof -
  let ?log = "[] @ mem_bytes sample_heap 0x5000 (msg_bytes unsync_queue 2)"
  have two: "buffer_ok unsync_queue 0x5000 2" by (simp add: buffer_ok_def disjoint_ranges_def)
  obtain h where "log_inv unsync_queue h ?log" "readCtr unsync_queue h = readCtr unsync_queue sample_heap"
    by (rule broadcast_write [OF sample_log two]) (auto simp: log_room_def)
  then obtain log where h: "log_inv unsync_queue h log" "readCtr unsync_queue h = 0" "length log = 8"
  proof -
    assume "log_inv unsync_queue h ?log" "readCtr unsync_queue h = readCtr unsync_queue sample_heap"
    then show ?thesis by (intro that [of ?log]) simp_all
  qed
  then have "reader_at unsync_queue h log 0" by (simp add: reader_at_def)
  from unfinished_write_tears_read [OF h(1) this, of 1 "0x5000" "0x6000"] h(3) show ?thesis
    by (auto simp: log_room_def buffer_ok_def disjoint_ranges_def) blast
qed

section \<open>Many readers\<close>

lemma sample_delivered:
  obtains s where "run (bcast_step unsync_queue 0x2000) (bcast_start sample_heap)
    [[0, 1, 2, 3]] [[0, 1, 2, 3]] s"
proof -
  let ?q = unsync_queue and ?r = "0x2000 :: ptr"
  have ready: "bcast_ready ?q sample_heap" and r: "reader_counter ?q ?r"
    by (auto simp: bcast_ready_def reader_counter_def)
  let ?s0 = "bcast_start sample_heap"
  have "write_limit ?q sample_heap = 8" by (simp add: write_limit_def)
  then obtain tx where "beginWrite ?q sample_heap 1 MemTransaction_default = Inr (True, tx)"
    using beginWrite_result [of ?q sample_heap 1] by simp
  then have 1: "bcast_step ?q ?r ?s0 [] [] (?s0\<lparr>bwriter := WBegun 1 tx\<rparr>)"
    using bcast_step.begin_write [of ?s0 ?q 1 True tx ?r] by (simp add: bcast_start_def)
  note inv1 = bcast_step_preserves [OF 1 bcast_inv_start [OF ready], simplified]
  obtain h2 where h2: "copyTo (sizeofT ?q) tx sample_heap 0x5000 0 1 = Inr (True, h2)"
    "words64 h2 = words64 sample_heap"
    by (rule copy_in_effect [OF inv1, of 1 tx "0x5000"]) (simp_all add: bcast_start_def)
  let ?s2 = "\<lparr>bmem = h2, bwriter = WCopied 1 [0, 1, 2, 3], breader = (\<lambda>a. RIdle)\<rparr>"
  have 2: "bcast_step ?q ?r (?s0\<lparr>bwriter := WBegun 1 tx\<rparr>) [] [] ?s2"
    using bcast_step.copy_in [of "?s0\<lparr>bwriter := WBegun 1 tx\<rparr>" 1 tx ?q "0x5000" True h2 ?r] h2(1)
    by (simp add: bcast_start_def)
  note inv2 = bcast_step_preserves [OF 2 inv1, simplified]
  let ?h3 = "set_writeCtr ?q 4 h2"
  let ?s3 = "\<lparr>bmem = ?h3, bwriter = WIdle, breader = (\<lambda>a. RIdle)\<rparr>"
  have "commitWrite ?q h2 1 = Inr (True, ?h3)" using commitWrite_result [of ?q h2 1] h2(2) by simp
  then have 3: "bcast_step ?q ?r ?s2 [[0, 1, 2, 3]] [] ?s3"
    using bcast_step.commit_write [of ?s2 1 "[0, 1, 2, 3]" ?q True ?h3 ?r] by simp
  note inv3 = bcast_step_preserves [OF 3 inv2, simplified]
  have w: "words64 ?h3 0x2000 = 0" "words64 ?h3 0x2008 = 4" by (simp_all add: set_writeCtr_def h2(2))
  have u: "used (with_counter ?q ?r) ?h3 = 4" by (simp add: used_def w)
  have wf: "queue_wf (with_counter ?q ?r)" by (rule with_counter_wf [OF _ r]) simp
  obtain tx' where b: "beginRead (with_counter ?q ?r) ?h3 1 = Inr (True, tx', ?h3)"
    using beginRead_result [OF wf, of ?h3 1] by (simp add: u w)
  let ?s4 = "set_breader ?r (RBegun 1 tx') ?s3"
  have 4: "bcast_step ?q ?r ?s3 [] [] ?s4"
    using bcast_step.begin_read [of ?s3 ?r ?q 1 True tx' ?h3 ?r] b r by simp
  note inv4 = bcast_step_preserves [OF 4 inv3, simplified]
  obtain h5 pos where h5: "copyFrom (sizeofT ?q) tx' ?h3 0x5000 0 1 = Inr (True, h5)"
      "words64 h5 = words64 ?h3"
    and at: "reader_at (with_counter ?q ?r) ?h3 [0, 1, 2, 3] pos"
    and rd: "reader_log ?q 0 [0, 1, 2, 3] pos (RCopied 1 (mem_bytes h5 0x5000 4))"
    by (rule copy_out_effect [OF inv4, of ?r 1 tx' "0x5000"]) (simp_all add: set_breader_def r)
  have pos: "of_nat pos = (0 :: u64)" "pos \<le> 4" using at by (simp_all add: reader_at_def w)
  then have "unat (of_nat pos :: u64) = pos" by (intro unat_of_nat_u64) simp
  then have "pos = 0" by (simp add: pos(1))
  then have got: "mem_bytes h5 0x5000 4 = [0, 1, 2, 3]" using rd by simp
  let ?s5 = "set_breader ?r (RCopied 1 [0, 1, 2, 3]) (?s4\<lparr>bmem := h5\<rparr>)"
  have 5: "bcast_step ?q ?r ?s4 [] [] ?s5"
    using bcast_step.copy_out [of ?s4 ?r 1 tx' ?q "0x5000" True h5 ?r] h5(1) r got
    by (simp add: set_breader_def)
  obtain h6 where "commitRead (with_counter ?q ?r) h5 1 = Inr (True, h6)"
    using commitRead_result [OF wf, of h5 1] u by (simp add: used_def h5(2))
  then have 6: "bcast_step ?q ?r ?s5 [] [[0, 1, 2, 3]] (set_breader ?r RIdle (?s5\<lparr>bmem := h6\<rparr>))"
    using bcast_step.commit_read [of ?s5 ?r 1 "[0, 1, 2, 3]" ?q True h6 ?r] r
    by (simp add: set_breader_def)
  note more = run_step [where step = "bcast_step ?q ?r"]
  note run3 = more [OF more [OF run_single [where step = "bcast_step ?q ?r", OF 1] 2] 3]
  from more [OF more [OF more [OF run3 4] 5] 6] show ?thesis
    unfolding append_Nil append_Nil2 by (rule that)
qed


section \<open>Two threads on an event flag\<close>

text \<open>The first thread waits for bit 0 and falls asleep, the second one sets the bit.\<close>

lemma sample_sleeper:
  obtains k k' s where "run event_step (ef_start 0) [1] [0] s" and "thread_of s 0 = Asleep 1 k"
    and "thread_of s 1 = Inside (FutexWake 1 k')" and "efWordValue s = 1"
proof -
  let ?wait = "wait_prog 1 1 (Some 0) 0 True"
  let ?wake = "ef_bind (wake_prog 1) (\<lambda>status. Done (Some (status, None))) :: ef_result option ef_prog"
  have calls: "event_call ?wait" "event_call ?wake" unfolding event_call_def by blast+
  obtain k1 k2 where p: "?wait = FetchAnd (NOT 1) k1" "k1 0 = FutexWait 0 0 1 k2"
    by (simp add: wait_prog_def clock_if_def waitHelper_prog_def)
  obtain j1 j2 where q: "?wake = FetchOr 1 j1" "j1 0 = FutexWake 1 j2"
    by (simp add: wake_prog_def)
  define s1 where "s1 = set_thread 0 (Inside ?wait) (ef_start 0 :: event_threads)"
  define s2 where "s2 = set_thread 0 (Inside (k1 0)) s1"
  define s3 where "s3 = set_thread 0 (Asleep 1 k2) s2"
  define s4 where "s4 = set_thread 1 (Inside ?wake) s3"
  define s5 where "s5 = set_thread 1 (Inside (j1 0)) (s4\<lparr>efWordValue := 1\<rparr>)"
  note defs = s1_def s2_def s3_def s4_def s5_def ef_start_def
  have "event_step (ef_start 0) [] [] s1"
    unfolding s1_def by (rule ef_step.start_call, simp add: ef_start_def, rule calls)
  then have r1: "run event_step (ef_start 0) [] [] s1" by (rule run_single)
  have "event_step s1 [] [0] s2"
    using ef_step.fetch_and [of s1 0 "NOT 1" k1 reported_bits event_call] p
    by (simp add: defs set_thread_def)
  from run_step [OF r1 this] have r2: "run event_step (ef_start 0) [] [0] s2" by simp
  have "event_step s2 [] [] s3"
    unfolding s3_def by (rule ef_step.futex_sleeps) (simp_all add: p defs)
  from run_step [OF r2 this] have r3: "run event_step (ef_start 0) [] [0] s3" by simp
  have "event_step s3 [] [] s4"
    unfolding s4_def by (rule ef_step.start_call, simp add: defs, rule calls)
  from run_step [OF r3 this] have r4: "run event_step (ef_start 0) [] [0] s4" by simp
  have "event_step s4 [1] [] s5"
    using ef_step.fetch_or [of s4 1 1 j1 reported_bits event_call] q by (simp add: defs)
  from run_step [OF r4 this] have "run event_step (ef_start 0) [1] [0] s5" by simp
  then show ?thesis by (rule that) (simp_all add: q defs)
qed

theorem no_lost_wakeup_witness:
  "\<exists>s. efWordValue s AND 1 \<noteq> 0 \<and> (\<exists>k t' b k' s'. thread_of s 0 = Asleep 1 k \<and>
     thread_of s t' = Inside (FutexWake b k') \<and> event_step s [] [] s' \<and> thread_of s' 0 = Inside (k (0, 0)))"
proof -
  obtain k k' s where s: "run event_step (ef_start 0) [1] [0] s" "thread_of s 0 = Asleep 1 k" "efWordValue s = 1"
    by (rule sample_sleeper)
  from no_lost_wakeup [OF s(1,2)] s(2,3) show ?thesis by (intro exI [of _ s]) auto
qed

theorem bits_reported_once_witness:
  "\<exists>s. run event_step (ef_start 0) [1] [0] s \<and> bit (efWordValue s) 0"
proof -
  obtain k k' s where s: "run event_step (ef_start 0) [1] [0] s" "thread_of s 0 = Asleep 1 k" "efWordValue s = 1"
    by (rule sample_sleeper)
  from bits_reported_once [OF s(1), of 0] s(1) show ?thesis
    by (intro exI [of _ s]) (cases "bit (efWordValue s) 0"; simp)
qed
section \<open>Two blocked callers\<close>

definition default_masks :: "role \<Rightarrow> u32" where
  "default_masks r = (case r of Writer \<Rightarrow> FMQ_NOT_FULL | Reader \<Rightarrow> FMQ_NOT_EMPTY)"

lemma default_masks_simps [simp]: "default_masks Writer = 1" "default_masks Reader = 2"
  by (simp_all add: default_masks_def FMQ_NOT_FULL_def FMQ_NOT_EMPTY_def)

lemma default_masks_apart [simp]: "masks_apart default_masks"
  unfolding masks_apart_def
proof
  fix r show "default_masks r \<noteq> 0 \<and> default_masks r AND default_masks (other r) = 0"
    by (cases r) simp_all
qed

lemma sample_count: "getQuantumCount sync_queue = Inr 2"
  by (simp add: getQuantumCount_def deref_desc_def sample_queue_def sample_desc_def getSize_def
      default_grantors_def DATAPTRPOS_def getQuantum_def)

text \<open>A reader finds the ring empty and falls asleep; then a writer fills the ring.\<close>

lemma sample_blocked:
  obtains s k k' where "(duo_step sync_queue default_masks)\<^sup>*\<^sup>* (duo_start sample_heap) s"
    and "thread_of (dflag s) Reader = Asleep 2 k" and "request s Reader = (0x5000, 1)"
    and "able sync_queue Reader 1 (dmem s)" and "\<And>r. dside s r = Idle"
    and "thread_of (dflag s) Writer = Inside (FetchOr 2 k')"
proof -
  let ?st = "duo_step sync_queue default_masks"
  obtain k1 k2 k3 where p: "blocking_prog 1 2 1 0 = Attempt k1" "k1 False = FetchAnd (NOT 2) k2"
    "k2 0 = FutexWait 0 0 2 k3"
    by (simp add: blocking_prog_def wait_prog_def clock_if_def waitHelper_prog_def)
  obtain j1 j2 where q: "blocking_prog 1 1 2 0 = Attempt j1" "j1 True = FetchOr 2 j2"
    by (simp add: blocking_prog_def notify_prog_def wake_prog_def)
  obtain h where h: "fmq_write sync_queue sample_heap 0x5000 1 = Inr (True, h)"
    "mq_inv sync_queue h" "contents sync_queue h = [0, 1, 2, 3]"
    by (rule sample_put)
  have empty: "fmq_read sync_queue sample_heap 0x5000 1 = Inr (False, sample_heap)"
    using fmq_read_get [of sync_queue sample_heap "0x5000" 1] by (auto simp: fifo_get_def)
  have "length (contents sync_queue h) = 4" by (simp add: h(3))
  then have used: "used sync_queue h = 4" by simp
  let ?f0 = "ef_start 0 :: (role, bool option) threads"
  define f1 where "f1 = set_thread Reader (Inside (blocking_prog 1 2 1 0)) ?f0"
  define f2 where "f2 = set_thread Reader (Inside (k1 False)) f1"
  define f3 where "f3 = set_thread Reader (Inside (k2 0)) f2"
  define f4 where "f4 = set_thread Reader (Asleep 2 k3) f3"
  define f5 where "f5 = set_thread Writer (Inside (blocking_prog 1 1 2 0)) f4"
  define f6 where "f6 = set_thread Writer (Inside (j1 True)) f5"
  note defs = f1_def f2_def f3_def f4_def f5_def f6_def ef_start_def
  define req where "req = (\<lambda>r :: role. (0 :: ptr, 0 :: size_t))(Reader := (0x5000, 1))"
  let ?s = "\<lambda>h f req. \<lparr>queue_state = fine_start\<lparr>fmem := h\<rparr>, dflag = f, request = req\<rparr>"
  let ?req = "req(Writer := (0x5000, 1))"
  have 1: "?st (duo_start sample_heap) (?s sample_heap f1 req)"
    using duo_step.enter [of "duo_start sample_heap" Reader sync_queue 2 1 default_masks "0x5000" 1 0]
      sample_count by (simp add: duo_start_def defs req_def)
  have 2: "?st\<^sup>*\<^sup>* (?s sample_heap f1 req) (?s sample_heap f2 req)"
    using uninterrupted_attempt [of "?s sample_heap f1 req" Reader k1 "0x5000" 1 sync_queue False
        sample_heap default_masks] empty p by (simp add: defs req_def)
  have "ef_step (\<lambda>r. 0) (\<lambda>p. False) f2 [] [0] f3"
    using ef_step.fetch_and [of f2 Reader "NOT 2" k2 "\<lambda>r. 0" "\<lambda>p. False"] p
    by (simp add: defs set_thread_def)
  then have 3: "?st (?s sample_heap f2 req) (?s sample_heap f3 req)"
    using duo_step.flag_access [of "?s sample_heap f2 req" "[]" "[0]" f3] by simp
  have "ef_step (\<lambda>r. 0) (\<lambda>p. False) f3 [] [] f4"
    unfolding f4_def by (rule ef_step.futex_sleeps) (simp_all add: p defs)
  then have 4: "?st (?s sample_heap f3 req) (?s sample_heap f4 req)"
    using duo_step.flag_access [of "?s sample_heap f3 req" "[]" "[]" f4] by simp
  have 5: "?st (?s sample_heap f4 req) (?s sample_heap f5 ?req)"
    using duo_step.enter [of "?s sample_heap f4 req" Writer sync_queue 2 1 default_masks "0x5000" 1 0]
      sample_count by (simp add: defs)
  have 6: "?st\<^sup>*\<^sup>* (?s sample_heap f5 ?req) (?s h f6 ?req)"
    using uninterrupted_attempt [of "?s sample_heap f5 ?req" Writer j1 "0x5000" 1 sync_queue True h
        default_masks] h(1) q by (simp add: defs)
  have reach: "?st\<^sup>*\<^sup>* (duo_start sample_heap) (?s h f6 ?req)"
    using 1 2 3 4 5 6 by (meson converse_rtranclp_into_rtranclp rtranclp_trans)
  have idle: "dside (?s h f6 ?req) r = Idle" for r by (cases r) simp_all
  show ?thesis
    by (rule that [OF reach, of k3 j2, OF _ _ _ idle])
      (simp_all add: defs req_def q used has_data_def)
qed

theorem blocked_callers_are_woken_witness:
  "\<exists>s :: duo. able sync_queue Reader 1 (dmem s) \<and>
     (\<exists>k. thread_of (dflag s) Reader = Asleep 2 k) \<and>
     (\<exists>k. thread_of (dflag s) Writer = Inside (FetchOr 2 k))"
proof -
  obtain s k k' where s: "(duo_step sync_queue default_masks)\<^sup>*\<^sup>* (duo_start sample_heap) s"
    "thread_of (dflag s) Reader = Asleep 2 k" "request s Reader = (0x5000, 1)"
    "able sync_queue Reader 1 (dmem s)" "\<And>r. dside s r = Idle"
    "thread_of (dflag s) Writer = Inside (FetchOr 2 k')"
    by (rule sample_blocked) (rule that)
  have "sync_inv sync_queue sample_heap" by (simp add: sync_inv_def)
  from blocked_callers_are_woken [OF s(1) this default_masks_apart s(2-4)] s(2,4,5) show ?thesis
    by (intro exI [of _ s]) (auto simp: s(6))
qed

section \<open>The environment and the blocking calls\<close>

definition sample_os :: "int os" where
  "sample_os = \<lparr>others = (\<lambda>s. s), elapsedRealtimeNano = (\<lambda>(h, w). (w + 1, (h, w + 1))),
     clock_gettime = (\<lambda>s. (\<lparr>tv_sec = 0, tv_nsec = 0\<rparr>, s)), GetTickCount64 = (\<lambda>s. (0, s)),
     futex_wake = (\<lambda>p m s. ((0, 0), s)), futex_wait = (\<lambda>p e t m s. ((- 1, ETIMEDOUT), s)),
     munmap = (\<lambda>p n s. ((0, 0), s))\<rparr>"

definition sample_flag :: EventFlag where
  "sample_flag = \<lparr>mEfWordNeedsUnmapping = False, mEfWordPtr = 0x3000\<rparr>"

lemma sample_os_laws [simp]:
  "clock_advances sample_os id" "futex_errno_positive sample_os" "bits_kept sample_os p b"
  "env_keeps sample_os P"
  by (simp_all add: clock_advances_def futex_errno_positive_def bits_kept_def env_keeps_def
      sample_os_def status_defs)

lemma sample_woken:
  "wake sample_os POSIX sample_flag 1 (sample_heap, 0) =
     Inr (0, (sample_heap\<lparr>words32 := (\<lambda>_. 0)(0x3000 := 1)\<rparr>, 0))"
  by (simp add: wake_def sample_os_def sample_flag_def atomic_fetch_or_def NO_ERROR_def)
    (simp add: sample_heap_def)

theorem wait_reports_requested_bits_witness:
  "\<exists>v s'. wait 1 sample_os POSIX sample_flag 3 (Some 0) 0 True
     (sample_heap\<lparr>words32 := (\<lambda>_. 5)\<rparr>, 0) = Some (Inr (NO_ERROR, Some v, s')) \<and> v AND NOT 3 = 0"
proof -
  obtain s' where run: "wait 1 sample_os POSIX sample_flag 3 (Some 0) 0 True
      (sample_heap\<lparr>words32 := (\<lambda>_. 5)\<rparr>, 0) = Some (Inr (NO_ERROR, Some 1, s'))"
    by (simp add: wait_def wait_loop.simps(2) waitHelper_def sample_os_def sample_flag_def
        atomic_fetch_and_def status_defs)
  from wait_reports_requested_bits [OF _ _ _ run] run show ?thesis by auto
qed


lemma wake_then_wait_returns_at_once_witness:
  "\<exists>v s2. wait 1 sample_os MSVC sample_flag 3 (Some 0) 0 True
       (sample_heap\<lparr>words32 := (\<lambda>_. 0)(0x3000 := 1)\<rparr>, 0) = Some (Inr (NO_ERROR, Some v, s2)) \<and>
     1 AND v = 1"
  using wake_then_wait_returns_at_once [OF sample_woken, of 3 "Some 0" True 0 0 MSVC] by auto

lemma sample_ready [simp]:
  "write_ready sync_queue 0x5000 1 sample_heap" "read_ready sync_queue 0x5000 1 sample_heap"
  by (simp_all add: write_ready_def read_ready_def sync_inv_def)


lemma readBlocking_returns_witness:
  "\<exists>ok s'. readBlocking 101 sample_os POSIX sync_queue 0x5000 1 1 2 100 None (sample_heap, 0) =
     Some (Inr (ok, s'))"
  by (rule readBlocking_returns [of sample_os id]) auto

theorem blocking_calls_refuse_witness:
  "writeBlocking 1 sample_os POSIX sync_queue 0x5000 3 1 2 0 None (sample_heap, 0) =
     Some (Inr (False, (sample_heap, 0)))"
  using blocking_calls_refuse [of sync_queue None 1 3 1 sample_os POSIX "0x5000" 2 0
      "(sample_heap, 0)"] by simp

lemma sample_writeBlocking:
  obtains s' where "writeBlocking 1 sample_os POSIX sync_queue 0x5000 1 1 2 0 None (sample_heap, 0) =
    Some (Inr (True, s'))"
proof -
  obtain h' where h': "fmq_write sync_queue sample_heap 0x5000 1 = Inr (True, h')"
    by (rule sample_put)
  let ?ef = "\<lparr>mEfWordNeedsUnmapping = False, mEfWordPtr = 0x3000\<rparr>"
  have "env_keeps sample_os (\<lambda>_. True)" "flag_free (\<lambda>_. True)" by (simp_all add: flag_free_def)
  then obtain st s' where "wake sample_os POSIX ?ef 2 (h', 0) = Inr (st, s')"
    using wake_keeps [of sample_os "\<lambda>_. True" ?ef "(h', 0)" POSIX 2] by auto
  moreover have "others sample_os (sample_heap, 0) = (sample_heap, 0)" by (simp add: sample_os_def)
  ultimately show ?thesis
    using that h' by (simp add: writeBlocking_def getQuantumCount_wf blocking_def try_op_def
        notify_def)
qed

theorem writeBlocking_success_witness:
  "\<exists>h h'. fmq_write sync_queue h 0x5000 1 = Inr (True, h')"
proof -
  obtain s' where run: "writeBlocking 1 sample_os POSIX sync_queue 0x5000 1 1 2 0 None
      (sample_heap, 0) = Some (Inr (True, s'))"
    by (rule sample_writeBlocking)
  from writeBlocking_success [OF run] show ?thesis by blast
qed

lemma woken_calls_complete_witness:
  "\<exists>s'. blocking_loop 1 1 sample_os POSIX sample_flag (\<lambda>h. fmq_write sync_queue h 0x5000 1) 1
     False 0 0 (sample_heap\<lparr>words32 := (\<lambda>_. 0)(0x3000 := 1)\<rparr>, 0) = Some (Inr (True, s'))"
proof -
  have "write_able sync_queue 0x5000 1 (sample_heap\<lparr>words32 := (\<lambda>_. 0)(0x3000 := 1)\<rparr>)"
    unfolding flag_freeD [OF write_progress.able_flag_free] by (simp add: write_able_def)
  then show ?thesis
    using woken_calls_complete [OF sample_woken, of 1 sync_queue "0x5000" 1 0 0 POSIX 0] by simp
qed

section \<open>Descriptors and time\<close>

theorem shim_of_size_layout_witness:
  "\<exists>d. shim_of_size kSynchronizedReadWrite 100 None 4 True = Inr d \<and>
     grantors_disjoint (mGrantors d) \<and> grantors_end (mGrantors d) \<le> 124 \<and> getSize d = 100"
proof -
  obtain d where run: "shim_of_size kSynchronizedReadWrite 100 None 4 True = Inr d"
    and "mGrantors d = default_grantors 100 True"
    by (simp add: shim_of_size_ok)
  then have "mGrantors d \<noteq> []" by (simp add: default_grantors_def)
  from shim_of_size_layout [OF run this] run show ?thesis by (simp add: round_up8_def)
qed

theorem addNanoseconds_exact_witness:
  "tv_sec (addNanoseconds 1500000000 \<lparr>tv_sec = 1, tv_nsec = 999999999\<rparr>) * 1000000000 +
     tv_nsec (addNanoseconds 1500000000 \<lparr>tv_sec = 1, tv_nsec = 999999999\<rparr>) = 3499999999"
  using addNanoseconds_exact [of 1500000000 "\<lparr>tv_sec = 1, tv_nsec = 999999999\<rparr>"] by simp

section \<open>Setting up a queue\<close>

text \<open>
  A kernel whose world is the number of blocks of two gigabytes in use: every view and every
  counter takes the next block.
\<close>

definition take_block :: "size_t \<Rightarrow> nat st \<Rightarrow> ptr \<times> nat st" where
  "take_block len s = (case s of (h, k) \<Rightarrow>
     if len \<le> 0x80000000 \<and> k < 1000 then (of_nat (0x80000000 * (k + 1)), (h, k + 1)) else (0, (h, k)))"

definition sample_win :: "nat win" where
  "sample_win = \<lparr>CreateFileMappingA = (\<lambda>h pr hi lo s. (1, s)), DuplicateHandle = (\<lambda>h s. (1, s)),
     MapViewOfFileEx = (\<lambda>m fl hi lo len addr s. take_block len s),
     UnmapViewOfFile = (\<lambda>a s. (True, s))\<rparr>"

definition sample_libs :: "nat libs" where
  "sample_libs = \<lparr>native_handle_create = (\<lambda>f i s. (Some \<lparr>numFds = f, numInts = i,
       handle_data = replicate (nat (f + i)) 0\<rparr>, s)),
     native_handle_close_delete = (\<lambda>nh s. s), dup = (\<lambda>fd s. (fd mod 1000 + 100, s)),
     new_counter = take_block 8, delete_counter = (\<lambda>p s. s), new_object = (\<lambda>s. (True, s)),
     ashmem_create_region = (\<lambda>nm n s. (7, s)),
     ashmem_set_prot_region = (\<lambda>fd pr s. s),
     OpenFileMapping = (\<lambda>access nm s. (7, s))\<rparr>"

definition blocks_below :: "nat \<Rightarrow> ptr set" where
  "blocks_below k = {a. unat a < 0x80000000 * (k + 1)}"

lemma take_block_fresh:
  assumes "take_block len s = (p, s')"
  shows "occupies_more blocks_below s s'"
    and "p \<noteq> 0 \<Longrightarrow> i < unat len \<Longrightarrow>
      p + of_nat i \<notin> blocks_below (snd s) \<and> p + of_nat i \<in> blocks_below (snd s')"
proof -
  obtain h k where s: "s = (h, k)" by (rule prod.exhaust)
  show "occupies_more blocks_below s s'"
    using assms by (auto simp: take_block_def s occupies_more_def blocks_below_def split: if_splits)
  assume "p \<noteq> 0" and i: "i < unat len"
  then have le: "len \<le> 0x80000000" "k < 1000" and p: "p = of_nat (0x80000000 * (k + 1))"
    and s': "s' = (h, k + 1)"
    using assms by (auto simp: take_block_def s split: if_splits)
  have i': "i < 0x80000000" using i le(1) by (simp add: word_le_nat_alt)
  have "p + of_nat i = of_nat (0x80000000 * (k + 1) + i)" by (simp add: p)
  moreover have "0x80000000 * (k + 1) + i < 18446744073709551616" using i' le(2) by simp
  ultimately have "unat (p + of_nat i) = 0x80000000 * (k + 1) + i" by (metis unat_of_nat_u64)
  with i' show "p + of_nat i \<notin> blocks_below (snd s) \<and> p + of_nat i \<in> blocks_below (snd s')"
    by (simp add: s s' blocks_below_def)
qed

lemma sample_address_space: "address_space sample_win sample_libs blocks_below"
  unfolding address_space_def Let_def sample_win_def sample_libs_def
  using take_block_fresh(1) take_block_fresh(2) take_block_fresh(2) [of 8 _ _ _ 0]
  by (auto split: prod.splits)

lemma sample_map:
  assumes "mHandle d = Some nh" and "handle_data nh = [int fd]" and "0 < fd" and "fd < 1000"
    and "unat i < length (mGrantors d)"
    and "mGrantors d ! unat i = g" and "fdIndex g = 0" and "unat (offset g) < 65536"
    and "unat (extent g) \<le> 4096" and "k < 1000"
  shows "mapGrantorDescr sample_win d i (h, k) =
    Inr (of_nat (0x80000000 * (k + 1) + unat (offset g)), (h, k + 1))"
proof -
  have delta: "grantor_delta g = unat (offset g)" using assms(8) by (simp add: grantor_delta_def)
  have "unat (mapOffset g) = 0" by (simp add: mapOffset_split(1) delta)
  then have off: "mapOffset g = 0" by (simp add: unat_eq_0)
  have len: "unat (scast (mapLength g) :: size_t) = unat (offset g) + unat (extent g)"
    using mapLength_exact [of g] assms(8,9) delta by simp
  then have le: "(scast (mapLength g) :: size_t) \<le> 0x80000000"
    using assms(8,9) by (simp add: word_le_nat_alt)
  have blk: "(of_nat (0x80000000 * (k + 1)) :: ptr) \<noteq> 0"
  proof
    assume "(of_nat (0x80000000 * (k + 1)) :: ptr) = 0"
    then have "unat (of_nat (0x80000000 * (k + 1)) :: ptr) = 0" by simp
    moreover have "unat (of_nat (0x80000000 * (k + 1)) :: ptr) = 0x80000000 * (k + 1)"
      using assms(10) by (intro unat_of_nat_u64) simp
    ultimately show False by simp
  qed
  have "(of_nat (0x80000000 * (k + 1)) :: ptr) \<noteq> MAP_FAILED"
  proof
    assume eq: "(of_nat (0x80000000 * (k + 1)) :: ptr) = MAP_FAILED"
    have "unat (of_nat (0x80000000 * (k + 1)) :: ptr) = 0x80000000 * (k + 1)"
      using assms(10) by (intro unat_of_nat_u64) simp
    moreover have "unat MAP_FAILED = 18446744073709551615"
      by (simp add: MAP_FAILED_def unsigned_minus_1_eq_mask mask_eq_exp_minus_1)
    ultimately show False using eq assms(10) by simp
  qed
  moreover have fd: "(of_nat fd :: ptr) \<noteq> 0" "(of_nat fd :: ptr) \<noteq> INVALID_HANDLE_VALUE"
  proof -
    have u: "unat (of_nat fd :: ptr) = fd" using assms(4) by (intro unat_of_nat_u64) simp
    then show "(of_nat fd :: ptr) \<noteq> 0" using assms(3) by auto
    have "unat INVALID_HANDLE_VALUE = 18446744073709551615"
      by (simp add: INVALID_HANDLE_VALUE_def unsigned_minus_1_eq_mask mask_eq_exp_minus_1)
    then have "unat (of_nat fd :: ptr) < unat INVALID_HANDLE_VALUE" unfolding u using assms(4) by simp
    then show "(of_nat fd :: ptr) \<noteq> INVALID_HANDLE_VALUE" by auto
  qed
  moreover have "system_porting_mmap sample_win 0 (scast (mapLength g)) (PROT_READ OR PROT_WRITE)
      MAP_SHARED (of_nat fd) 0 (h, k) = (of_nat (0x80000000 * (k + 1)), (h, k + 1))"
    unfolding mmap_shared_rw using le blk assms(10) fd
    by (simp add: sample_win_def take_block_def)
  moreover have "ucast (offset g) = (of_nat (unat (offset g)) :: ptr)"
    by (metis unat_ucast_32_64 word_of_nat_unat)
  ultimately show ?thesis
    using assms off by (simp add: mapGrantorDescr_def Let_def)
qed

definition sample_shim :: "nat \<Rightarrow> Shim" where
  "sample_shim fd = \<lparr>mGrantors = default_grantors 8 False,
     mHandle = Some \<lparr>numFds = 1, numInts = 0, handle_data = [int fd]\<rparr>, mQuantum = 4, mFlags = 1,
     mName = ''''\<rparr>"

lemma sample_init:
  assumes "0 < fd" and "fd < 1000"
  shows "\<exists>q s'. initMemory sample_win sample_libs reset
    ((empty_queue kSynchronizedReadWrite 4)\<lparr>mDesc := Some (sample_shim fd)\<rparr>) (sample_heap, 0) =
      Inr (q, s') \<and> isValid q \<and> mDesc q = Some (sample_shim fd)"
proof -
  define d where "d = sample_shim fd"
  have m: "mapGrantorDescr sample_win d i (h, k) =
      Inr (of_nat (0x80000000 * (k + 1) + unat (offset (mGrantors d ! unat i))), (h, k + 1))"
    if "unat i < 3" "k < 1000" for i k h
  proof (rule sample_map [where nh = "\<lparr>numFds = 1, numInts = 0, handle_data = [int fd]\<rparr>",
      OF _ _ assms])
    show "unat i < length (mGrantors d)" using that by (simp add: d_def sample_shim_def default_grantors_def)
    have "unat i = 0 \<or> unat i = 1 \<or> unat i = 2" using that(1) by linarith
    then show "fdIndex (mGrantors d ! unat i) = 0" "unat (offset (mGrantors d ! unat i)) < 65536"
      "unat (extent (mGrantors d ! unat i)) \<le> 4096"
      by (auto simp: d_def sample_shim_def default_grantors_def)
  qed (use that in \<open>simp_all add: d_def sample_shim_def\<close>)
  have "\<exists>q s'. initMemory sample_win sample_libs reset
      ((empty_queue kSynchronizedReadWrite 4)\<lparr>mDesc := Some d\<rparr>) (sample_heap, 0) = Inr (q, s') \<and>
      isValid q \<and> mDesc q = Some d"
    by (simp add: initMemory_def init_readPtr_def m init_counters_def init_eventFlag_def
        checked_def isValid_def isHandleValid_def countGrantors_def getQuantum_def empty_queue_def
        isAlignedToWordBoundary_iff)
      (simp add: d_def sample_shim_def default_grantors_def isAlignedToWordBoundary_iff)
  then show ?thesis by (simp add: d_def)
qed

lemma sample_created:
  obtains q s' where "MessageQueue_create POSIX sample_win sample_libs kSynchronizedReadWrite 4 2
      False (- 1) 0 '''' (sample_heap, 0) = Inr (q, s')" and "isValid q"
    and "mDesc q = Some (sample_shim 7)"
proof -
  have shim: "shim_of_size kSynchronizedReadWrite 8
      (Some \<lparr>numFds = 1, numInts = 0, handle_data = [7]\<rparr>) 4 False = Inr (sample_shim 7)"
    by (simp add: shim_of_size_ok sample_shim_def)
  obtain q s' where im: "initMemory sample_win sample_libs True
      ((empty_queue kSynchronizedReadWrite 4)\<lparr>mDesc := Some (sample_shim 7)\<rparr>) (sample_heap, 0) =
        Inr (q, s')" "isValid q" "mDesc q = Some (sample_shim 7)"
    using sample_init [of 7 True] by auto
  have sz: "\<exists>r. ashmem_size False False 8 = Inr r"
    by (simp add: ashmem_size_def alignToWordBoundary_def kAlignmentSize_def)
  have "MessageQueue_create POSIX sample_win sample_libs kSynchronizedReadWrite 4 2 False (- 1) 0 ''''
      (sample_heap, 0) = Inr (q, s')"
    using sz im(1) shim
    by (auto simp: MessageQueue_create_def sample_libs_def set_handle_data_def new_desc_def Let_def)
  with that im(2,3) show ?thesis by blast
qed


theorem mappings_inside_region_witness:
  "\<exists>region. ashmem_size False False 8 = Inr region \<and>
     unat (mapOffset (default_grantors 8 False ! 2)) +
       unat (scast (mapLength (default_grantors 8 False ! 2)) :: size_t) \<le> unat region"
proof -
  obtain region where r: "ashmem_size False False 8 = Inr region"
    by (simp add: ashmem_size_def alignToWordBoundary_def kAlignmentSize_def)
  obtain d where d: "shim_of_size kSynchronizedReadWrite 8 None 4 False = Inr d"
    "mGrantors d = default_grantors 8 False"
    by (simp add: shim_of_size_ok)
  have "default_grantors 8 False ! 2 \<in> set (mGrantors d)"
    by (simp add: d(2) default_grantors_def)
  from mappings_inside_region [OF d(1) r this] r show ?thesis by blast
qed

lemma sample_quiet: "quiet_handles sample_libs blocks_below"
  by (simp add: quiet_handles_def sample_libs_def)

lemma sample_copied:
  "Shim_copy POSIX (handle_os.truncate sample_libs) kSynchronizedReadWrite (sample_shim 7) s =
     Inr (sample_shim 107, s)"
  by (simp add: Shim_copy_def shim_of_size_ok Shim_assign_def sample_shim_def sample_libs_def
      handle_os.truncate_def read_entries_def copied_entries_def copied_ints_def Let_def)



section \<open>Descriptors on their way\<close>

definition sample_handle :: native_handle where
  "sample_handle = \<lparr>numFds = 1, numInts = 2, handle_data = [7, 40, 50]\<rparr>"

definition sample_sent :: Shim where
  "sample_sent = \<lparr>mGrantors = default_grantors 8 True, mHandle = Some sample_handle, mQuantum = 4,
     mFlags = 1, mName = ''''\<rparr>"

definition sample_handle_os :: "nat handle_os" where
  "sample_handle_os = handle_os.truncate sample_libs"

lemma sample_creates_handles: "creates_handles sample_handle_os"
  by (simp add: creates_handles_def sample_handle_os_def sample_libs_def handle_os.truncate_def
      nat_add_distrib)

lemma sample_dup: "dup sample_handle_os fd s = (fd mod 1000 + 100, s)"
  by (simp add: sample_handle_os_def sample_libs_def handle_os.truncate_def)

lemma sample_handle_ok: "handle_ok sample_handle"
  by (simp add: handle_ok_def sample_handle_def)

lemma sample_sendable: "sendable sample_sent"
proof -
  have "\<not> negative32 0" "\<not> negative32 1" "\<not> negative32 4" "\<not> negative32 8" "\<not> negative32 16"
    "\<not> negative32 24" "\<not> negative64 8" "\<not> negative64 4"
    by (simp_all add: negative32_def negative64_def)
  then show ?thesis
    by (simp add: sendable_def sample_sent_def sample_handle_ok default_grantors_def round_up8_def)
qed

theorem descriptor_round_trip_witness:
  "\<exists>desc nh s. dupeDesc sample_handle_os (Some sample_sent) (sample_heap, 0) = Inr (desc, (sample_heap, 0)) \<and>
     shim_of_desc sample_handle_os desc (sample_heap, 0) = Inr (sample_sent\<lparr>mHandle := Some nh\<rparr>, s) \<and>
     handle_data nh = [207, 40, 50]"
proof -
  have h: "mHandle sample_sent = Some sample_handle" "mName sample_sent = ''''"
    by (simp_all add: sample_sent_def)
  have m: "map_calls (dup sample_handle_os) (take (nat (numFds sample_handle)) (handle_data sample_handle))
      (sample_heap, 0) = ([107], (sample_heap, 0))"
    by (simp add: sample_handle_def sample_dup)
  from descriptor_round_trip [OF sample_sendable sample_creates_handles h m]
  obtain desc nh' received s3 t where "dupeDesc sample_handle_os (Some sample_sent) (sample_heap, 0) =
      Inr (desc, (sample_heap, 0))"
    "shim_of_desc sample_handle_os desc (sample_heap, 0) = Inr (sample_sent\<lparr>mHandle := Some nh'\<rparr>, s3)"
    "map_calls (dup sample_handle_os) [107] t = (received, s3)"
    "handle_data nh' = received @ drop (nat (numFds sample_handle)) (handle_data sample_handle)"
    by blast
  then show ?thesis by (auto simp: sample_dup sample_handle_def)
qed

theorem received_fields_not_negative_witness:
  "\<exists>d. shim_of_desc sample_handle_os \<lparr>aidl_grantors = [], aidl_fds = [7], aidl_ints = [],
       aidl_quantum = 4, aidl_flags = 1\<rparr> (sample_heap, 0) = Inr (d, (sample_heap, 0)) \<and>
     mQuantum d = 4"
proof -
  have "\<not> negative32 1" "\<not> negative32 4" by (simp_all add: negative32_def)
  then obtain d where run: "shim_of_desc sample_handle_os \<lparr>aidl_grantors = [], aidl_fds = [7],
      aidl_ints = [], aidl_quantum = 4, aidl_flags = 1\<rparr> (sample_heap, 0) = Inr (d, (sample_heap, 0))"
    and "isHandleValid d"
    by (simp add: shim_of_desc_def sample_handle_os_def sample_libs_def handle_os.truncate_def
        isHandleValid_def)
  from received_fields_not_negative [OF this] run show ?thesis by simp
qed

text \<open>The calls of the sample system succeed as long as there are blocks left.\<close>

definition blocks_left :: "nat \<Rightarrow> nat \<Rightarrow> bool" where
  "blocks_left k w \<longleftrightarrow> w + k \<le> 1000"

lemma sample_block:
  assumes "k < 1000" and "i < 0x80000000"
  shows "unat (of_nat (0x80000000 * (k + 1)) + of_nat i :: ptr) = 0x80000000 * (k + 1) + i"
proof -
  have "(of_nat (0x80000000 * (k + 1)) + of_nat i :: ptr) = of_nat (0x80000000 * (k + 1) + i)" by simp
  moreover have "0x80000000 * (k + 1) + i < 18446744073709551616" using assms by simp
  ultimately show ?thesis by (metis unat_of_nat_u64)
qed

lemma sample_view:
  assumes "blocks_left (Suc k) w" and "unat len < 2 ^ 31" and "take_block len (h, w) = (base, s')"
  shows "base \<noteq> 0 \<and> base \<noteq> MAP_FAILED \<and> (\<forall>i<unat len. base + of_nat i \<noteq> 0) \<and> blocks_left k (snd s')"
proof -
  have w: "w < 1000" using assms(1) by (simp add: blocks_left_def)
  have "len \<le> 0x80000000" using assms(2) by (simp add: word_le_nat_alt)
  then have base: "base = of_nat (0x80000000 * (w + 1))" "s' = (h, w + 1)"
    using assms(3) w by (simp_all add: take_block_def)
  have ne: "base + of_nat i \<noteq> 0" if "i < 0x80000000" for i
    using sample_block [OF w that] by (auto simp: base(1))
  have "unat MAP_FAILED = 18446744073709551615"
    by (simp add: MAP_FAILED_def unsigned_minus_1_eq_mask mask_eq_exp_minus_1)
  moreover have "unat base = 0x80000000 * (w + 1)" using sample_block [OF w, of 0] by (simp add: base(1))
  ultimately have "base \<noteq> MAP_FAILED" using w by auto
  then show ?thesis using ne ne [of 0] assms(1,2) by (auto simp: base(2) blocks_left_def)
qed

lemma sample_supplies: "supplies sample_win sample_libs blocks_left"
  unfolding supplies_def
proof (intro allI impI)
  fix k and s :: "nat st" assume room: "blocks_left (Suc k) (snd s)"
  obtain h w where s: "s = (h, w)" by (rule prod.exhaust)
  have less: "blocks_left k w" and room': "blocks_left (Suc k) w"
    using room by (simp_all add: s blocks_left_def)
  have fd: "open_fd (fd mod 1000 + 100)" for fd :: int
  proof -
    have "0 \<le> fd mod 1000" "fd mod 1000 < 1000" by simp_all
    then have "0 < fd mod 1000 + 100" "fd mod 1000 + 100 < 2147483648" by linarith+
    then show ?thesis by (simp add: open_fd_def)
  qed
  note view = sample_view [OF room', of _ h]
  have 8: "unat (8 :: size_t) < 2 ^ 31" by simp
  have c: "fst (take_block 8 s) \<noteq> 0" "blocks_left k (snd (snd (take_block 8 s)))"
    using view [OF 8] by (cases "take_block 8 s", simp add: s)+
  have v: "case take_block len s of (base, s') \<Rightarrow>
      base \<noteq> 0 \<and> base \<noteq> MAP_FAILED \<and> (\<forall>i<unat len. base + of_nat i \<noteq> 0) \<and> blocks_left k (snd s')"
    if "unat len < 2 ^ 31" for len :: size_t
    using view [OF that] by (cases "take_block len s", simp add: s)
  show "(fst (new_object sample_libs s) \<and> blocks_left k (snd (snd (new_object sample_libs s)))) \<and>
     (\<forall>fd. open_fd fd \<longrightarrow> open_fd (fst (dup sample_libs fd s)) \<and>
        blocks_left k (snd (snd (dup sample_libs fd s)))) \<and>
     (\<forall>f i. blocks_left k (snd (snd (native_handle_create sample_libs f i s)))) \<and>
     (\<forall>h. h \<noteq> 0 \<longrightarrow> fst (DuplicateHandle sample_win h s) \<noteq> 0 \<and>
        blocks_left k (snd (snd (DuplicateHandle sample_win h s)))) \<and>
     (\<forall>m access hi lo len. m \<noteq> 0 \<and> 0 < len \<and> unat len < 2 ^ 31 \<longrightarrow>
        (case MapViewOfFileEx sample_win m access hi lo len 0 s of (base, s') \<Rightarrow>
           base \<noteq> 0 \<and> base \<noteq> MAP_FAILED \<and> (\<forall>i<unat len. base + of_nat i \<noteq> 0) \<and>
           blocks_left k (snd s'))) \<and>
     (fst (new_counter sample_libs s) \<noteq> 0 \<and> blocks_left k (snd (snd (new_counter sample_libs s))))"
    using less fd c v by (simp add: sample_libs_def sample_win_def s)
qed

theorem handed_on_queue_is_valid_witness:
  "\<exists>q s' desc t1 peer t2. AidlMessageQueue_new POSIX sample_win sample_libs kSynchronizedReadWrite 4 2
      False (sample_heap, 0) = Inr (q, s') \<and>
    dupeDesc sample_handle_os (mDesc q) (sample_heap, 0) = Inr (desc, t1) \<and>
    AidlMessageQueue_of_desc sample_win sample_libs kSynchronizedReadWrite 4 desc False t1 =
      Inr (peer, t2) \<and> isValid peer \<and> getQuantumCount peer = Inr 2"
proof -
  obtain q s' where run: "MessageQueue_create POSIX sample_win sample_libs kSynchronizedReadWrite 4 2
      False (- 1) 0 '''' (sample_heap, 0) = Inr (q, s')" and q: "isValid q" "mDesc q = Some (sample_shim 7)"
    by (rule sample_created)
  then have new: "AidlMessageQueue_new POSIX sample_win sample_libs kSynchronizedReadWrite 4 2
      False (sample_heap, 0) = Inr (q, s')"
    by (simp add: AidlMessageQueue_new_def AidlMessageQueue_create_def)
  have "memory_open q" by (simp add: memory_open_def q(2) sample_shim_def open_fd_def)
  moreover have "blocks_left 15 (snd (sample_heap, 0 :: nat))" by (simp add: blocks_left_def)
  ultimately show ?thesis
    using handed_on_queue_is_valid [OF new q(1) _ _ _
        sample_creates_handles [unfolded sample_handle_os_def] sample_supplies,
        of "(sample_heap, 0)" False] new
    by (auto simp: sample_handle_os_def)
qed

lemma hidl_conversion_faithful_witness:
  "\<exists>desc. unsafeHidlToAidlMQDescriptor sample_handle_os kSynchronizedReadWrite
       \<lparr>hidl_grantors = default_grantors 8 False, hidl_handle = sample_handle, hidl_getQuantum = 4,
        hidl_getFlags = 1\<rparr> AidlMQDescriptor_default (sample_heap, 0) = Inr (True, desc, (sample_heap, 0)) \<and>
     aidl_grantors desc = map aidl_of_grantor (default_grantors 8 False)"
proof -
  have "\<not> negative32 0" "\<not> negative32 1" "\<not> negative32 4" "\<not> negative32 8" "\<not> negative32 16"
    "\<not> negative64 8" "\<not> negative64 0"
    by (simp_all add: negative32_def negative64_def)
  then obtain desc where run: "unsafeHidlToAidlMQDescriptor sample_handle_os kSynchronizedReadWrite
      \<lparr>hidl_grantors = default_grantors 8 False, hidl_handle = sample_handle, hidl_getQuantum = 4,
       hidl_getFlags = 1\<rparr> AidlMQDescriptor_default (sample_heap, 0) = Inr (True, desc, (sample_heap, 0))"
    by (simp add: unsafeHidlToAidlMQDescriptor_def AidlMQDescriptor_default_def default_grantors_def
        read_entries_def sample_handle_def sample_dup Let_def)
  from hidl_conversion_faithful [OF run] run show ?thesis by simp
qed

lemma shim_copy_faithful_witness:
  "\<exists>d' s'. Shim_copy POSIX sample_handle_os kSynchronizedReadWrite sample_sent (sample_heap, 0) = Inr (d', s') \<and>
     getSize d' = 8"
proof -
  have h: "mHandle sample_sent = Some sample_handle" by (simp add: sample_sent_def)
  have "getSize sample_sent = 8" by (simp add: getSize_def sample_sent_def default_grantors_def)
  moreover have "POSIX = MSVC \<longrightarrow> numInts sample_handle = 0" by simp
  ultimately show ?thesis
    using shim_copy_faithful [OF h sample_handle_ok sample_creates_handles, of POSIX
      kSynchronizedReadWrite "(sample_heap, 0)"]
    by metis
qed

section \<open>Transactions and counters\<close>

abbreviation wrapped_tx :: MemTransaction where
  "wrapped_tx \<equiv> \<lparr>first = \<lparr>address = 0x1004, region_length = 1\<rparr>,
     second = \<lparr>address = 0x1000, region_length = 1\<rparr>\<rparr>"

lemma getSlot_past_the_end: "getSlot 4 wrapped_tx 2 = 0x1004"
  using getSlot_cases [of 4 wrapped_tx 2] by (simp add: tx_ok_def tx_length_def disjoint_ranges_def)

theorem copies_are_slot_by_slot_witness:
  "\<exists>h1 h2. fill_slots 4 wrapped_tx 0 0x5000 2 sample_heap = Inr h1 \<and>
      copyTo 4 wrapped_tx sample_heap 0x5000 0 2 = Inr (True, h1) \<and>
    take_slots 4 wrapped_tx 0 0x5000 2 sample_heap = Inr h2 \<and>
      copyFrom 4 wrapped_tx sample_heap 0x5000 0 2 = Inr (True, h2)"
  using copies_are_slot_by_slot [of 4 wrapped_tx 0 2 "0x5000" sample_heap]
  by (simp add: tx_ok_def tx_length_def buffer_apart_def disjoint_ranges_def)


definition odd_queue :: MessageQueue where
  "odd_queue = sync_queue\<lparr>mDesc := Some (sample_desc\<lparr>mGrantors := default_grantors 12 False\<rparr>)\<rparr>"


end
