(* ===== verification/Samples_Text.thy ===== *)
theory Samples_Text
  imports Samples "HOL-Library.Countable"
begin

text \<open>
  A small JSON library that keeps the contract of the text form, and the instances of the
  properties about descriptors on Windows.
\<close>

section \<open>A JSON library\<close>

datatype jv = JNull | JUInt u64 | JString string | JArray "jv list" | JObject "(string \<times> jv) list"

instance jv :: countable
  by countable_datatype

text \<open>The text of a value is its number, in unary.\<close>

definition sample_json :: "jv json" where
  "sample_json = \<lparr>null_value = JNull, uint_value = JUInt, string_value = JString,
     clear = (\<lambda>v. case v of JObject m \<Rightarrow> JObject [] | JArray xs \<Rightarrow> JArray [] | _ \<Rightarrow> v),
     set_member = (\<lambda>v k x. case v of JNull \<Rightarrow> JObject [(k, x)] | JObject m \<Rightarrow> JObject ((k, x) # m)
       | _ \<Rightarrow> v),
     set_element = (\<lambda>v i x. case v of JNull \<Rightarrow> JArray (replicate i JNull @ [x])
       | JArray xs \<Rightarrow> if i < length xs then JArray (xs[i := x])
           else JArray (xs @ replicate (i - length xs) JNull @ [x])
       | _ \<Rightarrow> v),
     member = (\<lambda>v k. case v of JNull \<Rightarrow> Some JNull
       | JObject m \<Rightarrow> Some (case map_of m k of None \<Rightarrow> JNull | Some x \<Rightarrow> x) | _ \<Rightarrow> None),
     element = (\<lambda>v i. case v of JNull \<Rightarrow> Some JNull
       | JArray xs \<Rightarrow> Some (if i < length xs then xs ! i else JNull) | _ \<Rightarrow> None),
     isArray = (\<lambda>v. case v of JArray xs \<Rightarrow> True | _ \<Rightarrow> False), isNull = (\<lambda>v. v = JNull),
     json_size = (\<lambda>v. case v of JArray xs \<Rightarrow> of_nat (length xs) | JObject m \<Rightarrow> of_nat (length m)
       | _ \<Rightarrow> 0),
     asUInt = (\<lambda>v. case v of JNull \<Rightarrow> Some 0
       | JUInt u \<Rightarrow> if unat u < 2 ^ 32 then Some (ucast u) else None | _ \<Rightarrow> None),
     asUInt64 = (\<lambda>v. case v of JNull \<Rightarrow> Some 0 | JUInt u \<Rightarrow> Some u | _ \<Rightarrow> None),
     asString = (\<lambda>v. case v of JNull \<Rightarrow> Some '''' | JString t \<Rightarrow> Some t | _ \<Rightarrow> None),
     writeString = (\<lambda>v. Some (replicate (to_nat v) (CHR ''x''))),
     parse = (\<lambda>t. if list_all (\<lambda>c. c = CHR ''x'') t then Some (from_nat (length t)) else None)\<rparr>"

definition sample_Obj :: "jv \<Rightarrow> bool" where
  "sample_Obj v = (case v of JNull \<Rightarrow> True | JObject m \<Rightarrow> True | _ \<Rightarrow> False)"

definition sample_Arr :: "nat \<Rightarrow> jv \<Rightarrow> bool" where
  "sample_Arr n v = (case v of JNull \<Rightarrow> n = 0 | JArray xs \<Rightarrow> n = length xs | _ \<Rightarrow> False)"

lemma sample_parse:
  "writeString sample_json v = Some (replicate (to_nat v) (CHR ''x''))"
  "parse sample_json (replicate (to_nat v) (CHR ''x'')) = Some v"
  by (simp_all add: sample_json_def list_all_iff)

lemma sample_json_contract: "json_contract sample_json sample_Obj sample_Arr (=)"
  unfolding json_contract_def
proof (intro conjI)
  show "sample_Obj (null_value sample_json)" "sample_Arr 0 (null_value sample_json)"
    by (simp_all add: sample_json_def sample_Obj_def sample_Arr_def)
  show "\<forall>v. sample_Obj v \<longrightarrow> sample_Obj (clear sample_json v)"
    by (auto simp: sample_json_def sample_Obj_def split: jv.splits)
  show "\<forall>v k x. sample_Obj v \<longrightarrow> sample_Obj (set_member sample_json v k x) \<and>
      (\<forall>k'. member sample_json (set_member sample_json v k x) k' =
        (if k' = k then Some x else member sample_json v k'))"
    by (auto simp: sample_json_def sample_Obj_def split: jv.splits)
  show "\<forall>v n x. sample_Arr n v \<longrightarrow> sample_Arr (Suc n) (set_element sample_json v n x) \<and>
      (\<forall>i\<le>n. element sample_json (set_element sample_json v n x) i =
        (if i = n then Some x else element sample_json v i))"
    by (auto simp: sample_json_def sample_Arr_def nth_append split: jv.splits)
  show "\<forall>v n. sample_Arr n v \<and> n < 2 ^ 32 \<longrightarrow> json_size sample_json v = of_nat n \<and>
      (isArray sample_json v \<or> isNull sample_json v)"
    by (auto simp: sample_json_def sample_Arr_def split: jv.splits)
  show "\<forall>u. asUInt64 sample_json (uint_value sample_json u) = Some u \<and>
      (unat u < 2 ^ 32 \<longrightarrow> asUInt sample_json (uint_value sample_json u) = Some (ucast u))"
    "\<forall>t. asString sample_json (string_value sample_json t) = Some t \<and>
      \<not> isNull sample_json (string_value sample_json t)"
    by (simp_all add: sample_json_def)
  show "\<forall>v. sample_Obj v \<longrightarrow> (\<exists>t v'. writeString sample_json v = Some t \<and>
      parse sample_json t = Some v' \<and> v = v')"
    using sample_parse by auto
qed auto

section \<open>Descriptors as text\<close>

theorem windows_round_trip_witness:
  "\<exists>desc nh' s'. win_dupeDesc sample_json (Some (sample_shim 7)) = Inr desc \<and>
     shim_of_win_desc sample_json sample_handle_os desc (sample_heap, 0) =
       ((sample_shim 7)\<lparr>mHandle := Some nh'\<rparr>, s') \<and> numFds nh' = 1"
proof -
  have "mHandle (sample_shim 7) = Some \<lparr>numFds = 1, numInts = 0, handle_data = [7]\<rparr>"
    and "length (mGrantors (sample_shim 7)) < 2 ^ 32"
    by (simp_all add: sample_shim_def default_grantors_def)
  from windows_round_trip [OF sample_json_contract sample_creates_handles this(1) _ _ _ this(2)]
  show ?thesis by (simp add: handle_ok_def) blast
qed

theorem unreadable_text_is_fatal_witness:
  "MessageQueue_of_desc MSVC sample_win sample_libs kSynchronizedReadWrite 4
     (fst (shim_of_win_desc sample_json (handle_os.truncate sample_libs)
       \<lparr>aidl_grantors = [], aidl_fds = [], aidl_ints = [], aidl_quantum = 4, aidl_flags = 1,
        win_name = '''', json_decriptor = ''y''\<rparr> (sample_heap, 0))) True (sample_heap, 0) = Inl Undefined"
proof (rule unreadable_text_is_fatal)
  show "new_object sample_libs (sample_heap, 0) = (True, (sample_heap, 0))"
    by (simp add: sample_libs_def)
qed (simp add: sample_json_def)

end
