(* ===== verification/Descriptor_Parcel.thy ===== *)
theory Descriptor_Parcel
  imports Descriptor_Text
begin

text \<open>
  Descriptors in a parcel: \<open>writeToParcel\<close> and \<open>readFromParcel\<close> of \<open>GrantorDescriptor\<close>,
  \<open>NativeHandle\<close> and \<open>MQDescriptor\<close> under \<open>generated_files\<close>, with the additions to the last one
  for Windows. The parcel is a parameter, the record \<open>aparcel\<close>, whose operations are those of the
  NDK that the code calls.
\<close>

section \<open>The parcel\<close>

text \<open>
  A write gives a status and the parcel. A read takes the value that its out parameter has before
  and gives a status and the value afterwards. Vectors of parcelables and single parcelables call
  back into the code: the writers and the reader of the elements are arguments.
\<close>

record 'p aparcel =
  getDataPosition :: "'p \<Rightarrow> int"
  setDataPosition :: "'p \<Rightarrow> int \<Rightarrow> 'p"
  writeInt32 :: "u32 \<Rightarrow> 'p \<Rightarrow> int \<times> 'p"
  readInt32 :: "u32 \<Rightarrow> 'p \<Rightarrow> int \<times> u32 \<times> 'p"
  writeInt64 :: "u64 \<Rightarrow> 'p \<Rightarrow> int \<times> 'p"
  readInt64 :: "u64 \<Rightarrow> 'p \<Rightarrow> int \<times> u64 \<times> 'p"
  writeFds :: "int list \<Rightarrow> 'p \<Rightarrow> int \<times> 'p"
  readFds :: "int list \<Rightarrow> 'p \<Rightarrow> int \<times> int list \<times> 'p"
  writeFd :: "int \<Rightarrow> 'p \<Rightarrow> int \<times> 'p"
  readFd :: "int \<Rightarrow> 'p \<Rightarrow> int \<times> int \<times> 'p"
  writeInts :: "int list \<Rightarrow> 'p \<Rightarrow> int \<times> 'p"
  readInts :: "int list \<Rightarrow> 'p \<Rightarrow> int \<times> int list \<times> 'p"
  writeGrantors :: "('p \<Rightarrow> int \<times> 'p) list \<Rightarrow> 'p \<Rightarrow> int \<times> 'p"
  readGrantors :: "(AidlGrantor \<Rightarrow> 'p \<Rightarrow> int \<times> AidlGrantor \<times> 'p) \<Rightarrow> AidlGrantor list \<Rightarrow> 'p \<Rightarrow>
    int \<times> AidlGrantor list \<times> 'p"
  writeHandle :: "('p \<Rightarrow> int \<times> 'p) \<Rightarrow> 'p \<Rightarrow> int \<times> 'p"
  readHandle :: "(int list \<times> int list \<Rightarrow> 'p \<Rightarrow> int \<times> (int list \<times> int list) \<times> 'p) \<Rightarrow>
    int list \<times> int list \<Rightarrow> 'p \<Rightarrow> int \<times> (int list \<times> int list) \<times> 'p"
  writeText :: "string \<Rightarrow> 'p \<Rightarrow> int \<times> 'p"
  readText :: "string \<Rightarrow> 'p \<Rightarrow> int \<times> string \<times> 'p"

definition STATUS_OK :: int where "STATUS_OK = 0"
definition STATUS_BAD_VALUE :: int where "STATUS_BAD_VALUE = - 22"
definition INT32_MAX :: int where "INT32_MAX = 2147483647"

lemma STATUS_BAD_VALUE_neq [simp]: "STATUS_BAD_VALUE \<noteq> STATUS_OK"
  by (simp add: STATUS_OK_def STATUS_BAD_VALUE_def)

section \<open>The frame of a parcelable\<close>

text \<open>
  The three pairs of functions repeat the same text around their fields: a size in front, the
  fields one after the other, each returning early if it fails, and for the reader a look at the
  size before each field. \<open>behind\<close> is what the code does behind the fields, without that look and
  without regard to its status when it writes.
\<close>

fun write_fields :: "('p \<Rightarrow> int \<times> 'p) list \<Rightarrow> 'p \<Rightarrow> int \<times> 'p" where
  "write_fields [] p = (STATUS_OK, p)"
| "write_fields (w # ws) p =
     (case w p of (status, p') \<Rightarrow> if status \<noteq> STATUS_OK then (status, p') else write_fields ws p')"

definition write_parcelable ::
  "'p aparcel \<Rightarrow> ('p \<Rightarrow> int \<times> 'p) list \<Rightarrow> ('p \<Rightarrow> 'p) \<Rightarrow> 'p \<Rightarrow> int \<times> 'p" where
  "write_parcelable P ws behind p =
     (let start = getDataPosition P p in
      case writeInt32 P 0 p of (status, p1) \<Rightarrow>
        if status \<noteq> STATUS_OK then (status, p1)
        else case write_fields ws p1 of (status, p2) \<Rightarrow>
          if status \<noteq> STATUS_OK then (status, p2)
          else
            let p3 = behind p2;
                end_pos = getDataPosition P p3;
                p4 = snd (writeInt32 P (of_int (end_pos - start)) (setDataPosition P p3 start))
            in (STATUS_OK, setDataPosition P p4 end_pos))"

text \<open>The first result says whether one of the fields has returned from the whole function.\<close>

fun read_fields ::
  "'p aparcel \<Rightarrow> int \<Rightarrow> int \<Rightarrow> ('o \<Rightarrow> 'p \<Rightarrow> int \<times> 'o \<times> 'p) list \<Rightarrow> 'o \<Rightarrow> 'p \<Rightarrow>
     bool \<times> int \<times> 'o \<times> 'p" where
  "read_fields P start len [] obj p = (False, STATUS_OK, obj, p)"
| "read_fields P start len (r # rs) obj p =
     (if getDataPosition P p - start \<ge> len
      then (True, STATUS_OK, obj, setDataPosition P p (start + len))
      else case r obj p of (status, obj', p') \<Rightarrow>
        if status \<noteq> STATUS_OK then (True, status, obj', p')
        else read_fields P start len rs obj' p')"

definition read_parcelable ::
  "'p aparcel \<Rightarrow> ('o \<Rightarrow> 'p \<Rightarrow> int \<times> 'o \<times> 'p) list \<Rightarrow> ('o \<Rightarrow> 'p \<Rightarrow> int \<times> 'o \<times> 'p) \<Rightarrow> 'o \<Rightarrow> 'p \<Rightarrow>
     int \<times> 'o \<times> 'p" where
  "read_parcelable P rs behind obj p =
     (let start = getDataPosition P p in
      case readInt32 P 0 p of (status, parcelable_size, p1) \<Rightarrow>
        let len = sint parcelable_size in
        if status \<noteq> STATUS_OK then (status, obj, p1)
        else if len < 4 then (STATUS_BAD_VALUE, obj, p1)
        else if start > INT32_MAX - len then (STATUS_BAD_VALUE, obj, p1)
        else case read_fields P start len rs obj p1 of (returned, status, obj', p2) \<Rightarrow>
          if returned then (status, obj', p2)
          else case behind obj' p2 of (status, obj'', p3) \<Rightarrow>
            (status, obj'', setDataPosition P p3 (start + len)))"

definition read_nothing :: "'o \<Rightarrow> 'p \<Rightarrow> int \<times> 'o \<times> 'p" where
  "read_nothing obj p = (STATUS_OK, obj, p)"

text \<open>A read into a member of an object.\<close>

definition into :: "('a \<Rightarrow> 'p \<Rightarrow> int \<times> 'a \<times> 'p) \<Rightarrow> ('o \<Rightarrow> 'a) \<Rightarrow> ('a \<Rightarrow> 'o \<Rightarrow> 'o) \<Rightarrow>
    'o \<Rightarrow> 'p \<Rightarrow> int \<times> 'o \<times> 'p" where
  "into rd get put obj p = (case rd (get obj) p of (status, x, p') \<Rightarrow> (status, put x obj, p'))"

section \<open>The parcelables\<close>

definition GrantorDescriptor_writeToParcel :: "'p aparcel \<Rightarrow> AidlGrantor \<Rightarrow> 'p \<Rightarrow> int \<times> 'p" where
  "GrantorDescriptor_writeToParcel P g =
     write_parcelable P
       [writeInt32 P (aidl_fdIndex g), writeInt32 P (aidl_offset g), writeInt64 P (aidl_extent g)] id"

definition GrantorDescriptor_readFromParcel ::
  "'p aparcel \<Rightarrow> AidlGrantor \<Rightarrow> 'p \<Rightarrow> int \<times> AidlGrantor \<times> 'p" where
  "GrantorDescriptor_readFromParcel P =
     read_parcelable P
       [into (readInt32 P) aidl_fdIndex (\<lambda>x g. g\<lparr>aidl_fdIndex := x\<rparr>),
        into (readInt32 P) aidl_offset (\<lambda>x g. g\<lparr>aidl_offset := x\<rparr>),
        into (readInt64 P) aidl_extent (\<lambda>x g. g\<lparr>aidl_extent := x\<rparr>)] read_nothing"

definition NativeHandle_writeToParcel ::
  "'p aparcel \<Rightarrow> int list \<times> int list \<Rightarrow> 'p \<Rightarrow> int \<times> 'p" where
  "NativeHandle_writeToParcel P nh =
     write_parcelable P [writeFds P (fst nh), writeInts P (snd nh)] id"

definition NativeHandle_readFromParcel ::
  "'p aparcel \<Rightarrow> int list \<times> int list \<Rightarrow> 'p \<Rightarrow> int \<times> (int list \<times> int list) \<times> 'p" where
  "NativeHandle_readFromParcel P =
     read_parcelable P
       [into (readFds P) fst (\<lambda>x nh. (x, snd nh)),
        into (readInts P) snd (\<lambda>x nh. (fst nh, x))] read_nothing"

definition desc_writers :: "'p aparcel \<Rightarrow> WinMQDescriptor \<Rightarrow> ('p \<Rightarrow> int \<times> 'p) list" where
  "desc_writers P d =
     [writeGrantors P (map (GrantorDescriptor_writeToParcel P) (aidl_grantors d)),
      writeHandle P (NativeHandle_writeToParcel P (aidl_fds d, aidl_ints d)),
      writeInt32 P (aidl_quantum d), writeInt32 P (aidl_flags d)]"

definition desc_readers ::
  "'p aparcel \<Rightarrow> (WinMQDescriptor \<Rightarrow> 'p \<Rightarrow> int \<times> WinMQDescriptor \<times> 'p) list" where
  "desc_readers P =
     [into (readGrantors P (GrantorDescriptor_readFromParcel P)) aidl_grantors
        (\<lambda>x d. d\<lparr>aidl_grantors := x\<rparr>),
      into (readHandle P (NativeHandle_readFromParcel P)) (\<lambda>d. (aidl_fds d, aidl_ints d))
        (\<lambda>x d. d\<lparr>aidl_fds := fst x, aidl_ints := snd x\<rparr>),
      into (readInt32 P) aidl_quantum (\<lambda>x d. d\<lparr>aidl_quantum := x\<rparr>),
      into (readInt32 P) aidl_flags (\<lambda>x d. d\<lparr>aidl_flags := x\<rparr>)]"

text \<open>The text exists on Windows only; elsewhere the field is not touched.\<close>

definition MQDescriptor_writeToParcel ::
  "platform \<Rightarrow> 'p aparcel \<Rightarrow> WinMQDescriptor \<Rightarrow> 'p \<Rightarrow> int \<times> 'p" where
  "MQDescriptor_writeToParcel pf P d =
     write_parcelable P (desc_writers P d)
       (if pf = MSVC then \<lambda>p. snd (writeText P (json_decriptor d) p) else id)"

definition MQDescriptor_readFromParcel ::
  "platform \<Rightarrow> 'p aparcel \<Rightarrow> WinMQDescriptor \<Rightarrow> 'p \<Rightarrow> int \<times> WinMQDescriptor \<times> 'p" where
  "MQDescriptor_readFromParcel pf P =
     read_parcelable P (desc_readers P)
       (if pf = MSVC then into (readText P) json_decriptor (\<lambda>x d. d\<lparr>json_decriptor := x\<rparr>)
        else read_nothing)"

section \<open>What the code relies on\<close>

text \<open>
  \<open>same p a b q\<close> says that two parcels hold the same data from position \<open>a\<close> up to \<open>b\<close>. A
  successful write \<open>carries\<close> a value to a read if it moves forward, touches nothing outside the
  range it passes over, and the read finds the value in whatever parcel has the same data in that
  range, and passes over the range.
\<close>

type_synonym 'p same = "'p \<Rightarrow> int \<Rightarrow> int \<Rightarrow> 'p \<Rightarrow> bool"

definition carries ::
  "'p aparcel \<Rightarrow> 'p same \<Rightarrow> ('p \<Rightarrow> int \<times> 'p) \<Rightarrow> ('o \<Rightarrow> 'p \<Rightarrow> int \<times> 'o \<times> 'p) \<Rightarrow> ('o \<Rightarrow> 'o \<Rightarrow> bool) \<Rightarrow> bool" where
  "carries P same w r rel \<longleftrightarrow> (\<forall>p p'. w p = (STATUS_OK, p') \<longrightarrow>
     getDataPosition P p < getDataPosition P p' \<and>
     (\<forall>a b. b \<le> getDataPosition P p \<or> getDataPosition P p' \<le> a \<longrightarrow> same p a b p') \<and>
     (\<forall>q obj. getDataPosition P q = getDataPosition P p \<and>
        same p' (getDataPosition P p) (getDataPosition P p') q \<longrightarrow>
        (\<exists>obj'. r obj q = (STATUS_OK, obj', setDataPosition P q (getDataPosition P p')) \<and> rel obj obj')))"

definition parcel_positions :: "'p aparcel \<Rightarrow> 'p same \<Rightarrow> bool" where
  "parcel_positions P same \<longleftrightarrow>
     (\<forall>p. 0 \<le> getDataPosition P p \<and> getDataPosition P p \<le> INT32_MAX) \<and>
     (\<forall>p k. 0 \<le> k \<and> k \<le> INT32_MAX \<longrightarrow> getDataPosition P (setDataPosition P p k) = k) \<and>
     (\<forall>p. setDataPosition P p (getDataPosition P p) = p) \<and>
     (\<forall>p j k. setDataPosition P (setDataPosition P p j) k = setDataPosition P p k) \<and>
     (\<forall>p k a b. same (setDataPosition P p k) a b p) \<and>
     (\<forall>p a b q. same p a b q \<longrightarrow> same q a b p) \<and>
     (\<forall>p a b q r. same p a b q \<and> same q a b r \<longrightarrow> same p a b r) \<and>
     (\<forall>p a b q c d. same p a b q \<and> a \<le> c \<and> d \<le> b \<longrightarrow> same p c d q)"

text \<open>
  The contract of the NDK: what it writes it reads, a four byte number that has been written can
  be written over, and vectors and parcelables carry what their elements carry. A descriptor that
  is read is not the number that was sent, but refers to the same file.
\<close>

definition parcel_contract :: "'p aparcel \<Rightarrow> 'p same \<Rightarrow> (int \<Rightarrow> int \<Rightarrow> bool) \<Rightarrow> bool" where
  "parcel_contract P same same_file \<longleftrightarrow> parcel_positions P same \<and>
     (\<forall>v. carries P same (writeInt32 P v) (readInt32 P) (\<lambda>_ x. x = v)) \<and>
     (\<forall>v p p'. writeInt32 P v p = (STATUS_OK, p') \<longrightarrow>
        getDataPosition P p' = getDataPosition P p + 4 \<and>
        (\<forall>q u. same p' (getDataPosition P p) (getDataPosition P p') q \<longrightarrow>
          fst (writeInt32 P u (setDataPosition P q (getDataPosition P p))) = STATUS_OK)) \<and>
     (\<forall>v. carries P same (writeInt64 P v) (readInt64 P) (\<lambda>_ x. x = v)) \<and>
     (\<forall>v. carries P same (writeFds P v) (readFds P) (\<lambda>_ x. list_all2 same_file v x)) \<and>
     (\<forall>v. carries P same (writeFd P v) (readFd P) (\<lambda>_ x. same_file v x)) \<and>
     (\<forall>v. carries P same (writeInts P v) (readInts P) (\<lambda>_ x. x = v)) \<and>
     (\<forall>v. carries P same (writeText P v) (readText P) (\<lambda>_ x. x = v)) \<and>
     (\<forall>ws r gs. length ws = length gs \<and>
        (\<forall>i<length gs. carries P same (ws ! i) r (\<lambda>_ g. g = gs ! i)) \<longrightarrow>
        carries P same (writeGrantors P ws) (readGrantors P r) (\<lambda>_ x. x = gs)) \<and>
     (\<forall>w r rel. carries P same w r rel \<longrightarrow> carries P same (writeHandle P w) (readHandle P r) rel)"

lemma carriesD:
  assumes "carries P same w r rel" and "w p = (STATUS_OK, p')"
  shows "getDataPosition P p < getDataPosition P p'"
    and "b \<le> getDataPosition P p \<or> getDataPosition P p' \<le> a \<Longrightarrow> same p a b p'"
    and "getDataPosition P q = getDataPosition P p \<Longrightarrow>
      same p' (getDataPosition P p) (getDataPosition P p') q \<Longrightarrow>
      \<exists>obj'. r obj q = (STATUS_OK, obj', setDataPosition P q (getDataPosition P p')) \<and> rel obj obj'"
  using assms unfolding carries_def by blast+

lemma positionsD:
  assumes "parcel_positions P same"
  shows "0 \<le> getDataPosition P p" and "getDataPosition P p \<le> INT32_MAX"
    and "0 \<le> k \<Longrightarrow> k \<le> INT32_MAX \<Longrightarrow> getDataPosition P (setDataPosition P p k) = k"
    and "setDataPosition P p (getDataPosition P p) = p"
    and "setDataPosition P (setDataPosition P p j) k = setDataPosition P p k"
    and "same (setDataPosition P p k) a b p"
    and "same p a b q \<Longrightarrow> same q a b p"
    and "same p a b q \<Longrightarrow> same q a b r \<Longrightarrow> same p a b r"
    and "same p a b q \<Longrightarrow> a \<le> c \<Longrightarrow> d \<le> b \<Longrightarrow> same p c d q"
proof -
  note c = assms [unfolded parcel_positions_def]
  note r1 = c [THEN conjunct2] note r2 = r1 [THEN conjunct2] note r3 = r2 [THEN conjunct2]
  note r4 = r3 [THEN conjunct2] note r5 = r4 [THEN conjunct2] note r6 = r5 [THEN conjunct2]
  note r7 = r6 [THEN conjunct2]
  show "0 \<le> getDataPosition P p" "getDataPosition P p \<le> INT32_MAX"
    using c [THEN conjunct1] by simp_all
  show "0 \<le> k \<Longrightarrow> k \<le> INT32_MAX \<Longrightarrow> getDataPosition P (setDataPosition P p k) = k"
    using r1 [THEN conjunct1] by simp
  show "setDataPosition P p (getDataPosition P p) = p" using r2 [THEN conjunct1] by simp
  show "setDataPosition P (setDataPosition P p j) k = setDataPosition P p k"
    using r3 [THEN conjunct1] by simp
  show "same (setDataPosition P p k) a b p" using r4 [THEN conjunct1] by simp
  show "same p a b q \<Longrightarrow> same q a b p"
    by (rule r5 [THEN conjunct1, THEN spec, THEN spec, THEN spec, THEN spec, THEN mp])
  show "same p a b q \<Longrightarrow> same q a b r \<Longrightarrow> same p a b r"
    by (rule r6 [THEN conjunct1, THEN spec, THEN spec, THEN spec, THEN spec, THEN spec, THEN mp])
      (rule conjI)
  show "same p a b q \<Longrightarrow> a \<le> c \<Longrightarrow> d \<le> b \<Longrightarrow> same p c d q"
    by (rule r7 [THEN spec, THEN spec, THEN spec, THEN spec, THEN spec, THEN spec, THEN mp]) simp
qed

lemma positions_at [simp]:
  assumes "parcel_positions P same"
  shows "getDataPosition P (setDataPosition P p (getDataPosition P q)) = getDataPosition P q"
  by (rule positionsD(3) [OF assms positionsD(1,2) [OF assms]])

section \<open>Reading fields back\<close>

fun all_carry :: "'p aparcel \<Rightarrow> 'p same \<Rightarrow> ('p \<Rightarrow> int \<times> 'p) list \<Rightarrow>
    ('o \<Rightarrow> 'p \<Rightarrow> int \<times> 'o \<times> 'p) list \<Rightarrow> ('o \<Rightarrow> 'o \<Rightarrow> bool) list \<Rightarrow> bool" where
  "all_carry P same [] [] [] \<longleftrightarrow> True"
| "all_carry P same (w # ws) (r # rs) (l # ls) \<longleftrightarrow> carries P same w r l \<and> all_carry P same ws rs ls"
| "all_carry P same _ _ _ \<longleftrightarrow> False"

fun chain :: "('o \<Rightarrow> 'o \<Rightarrow> bool) list \<Rightarrow> 'o \<Rightarrow> 'o \<Rightarrow> bool" where
  "chain [] x z \<longleftrightarrow> x = z"
| "chain (l # ls) x z \<longleftrightarrow> (\<exists>y. l x y \<and> chain ls y z)"

text \<open>A write that only moves forward, whatever is made of it.\<close>

definition moves :: "'p aparcel \<Rightarrow> 'p same \<Rightarrow> ('p \<Rightarrow> int \<times> 'p) \<Rightarrow> bool" where
  "moves P same w \<longleftrightarrow> (\<forall>p p'. w p = (STATUS_OK, p') \<longrightarrow>
     getDataPosition P p \<le> getDataPosition P p' \<and>
     (\<forall>a b. b \<le> getDataPosition P p \<or> getDataPosition P p' \<le> a \<longrightarrow> same p a b p'))"

lemma movesD:
  assumes "moves P same w" and "w p = (STATUS_OK, p')"
  shows "getDataPosition P p \<le> getDataPosition P p'"
    and "b \<le> getDataPosition P p \<or> getDataPosition P p' \<le> a \<Longrightarrow> same p a b p'"
  using assms unfolding moves_def by blast+

lemma carries_moves: "carries P same w r rel \<Longrightarrow> moves P same w"
  unfolding moves_def carries_def by (meson less_imp_le)

lemma all_carry_moves: "all_carry P same ws rs ls \<Longrightarrow> \<forall>w\<in>set ws. moves P same w"
  by (induction P same ws rs ls rule: all_carry.induct) (auto intro: carries_moves)

lemma write_fields_Cons:
  "write_fields (w # ws) p = (STATUS_OK, p') \<longleftrightarrow>
     (\<exists>p1. w p = (STATUS_OK, p1) \<and> write_fields ws p1 = (STATUS_OK, p'))"
  by (auto split: prod.splits)

lemma write_fields_append:
  "write_fields (ws @ ws') p = (STATUS_OK, p') \<longleftrightarrow>
     (\<exists>p1. write_fields ws p = (STATUS_OK, p1) \<and> write_fields ws' p1 = (STATUS_OK, p'))"
  by (induction ws arbitrary: p) (auto split: prod.splits)

lemma write_fields_moves:
  assumes pos: "parcel_positions P same" and "\<forall>w\<in>set ws. moves P same w"
  shows "moves P same (write_fields ws)"
  using assms(2)
proof (induction ws)
  case Nil
  have "same p a b p" for p a b
    using positionsD(6-8) [OF pos] by blast
  then show ?case by (simp add: moves_def)
next
  case (Cons w ws)
  then have w: "moves P same w" and IH: "moves P same (write_fields ws)" by simp_all
  show ?case
    unfolding moves_def write_fields_Cons
  proof (intro allI impI, elim exE conjE)
    fix p p' p1 assume 1: "w p = (STATUS_OK, p1)" and 2: "write_fields ws p1 = (STATUS_OK, p')"
    note m1 = movesD [OF w 1] and m2 = movesD [OF IH 2]
    have "same p a b p'"
      if "b \<le> getDataPosition P p \<or> getDataPosition P p' \<le> a" for a b
      using that m1(1) m2(1) by (intro positionsD(8) [OF pos m1(2) m2(2)]) linarith+
    with m1(1) m2(1) show "getDataPosition P p \<le> getDataPosition P p' \<and>
        (\<forall>a b. b \<le> getDataPosition P p \<or> getDataPosition P p' \<le> a \<longrightarrow> same p a b p')" by simp
  qed
qed

lemma read_fields_back:
  assumes pos: "parcel_positions P same"
  shows "all_carry P same ws rs ls \<Longrightarrow> write_fields ws p = (STATUS_OK, p') \<Longrightarrow>
    getDataPosition P q = getDataPosition P p \<Longrightarrow>
    same p' (getDataPosition P p) (getDataPosition P p') q \<Longrightarrow> getDataPosition P p' \<le> start + len \<Longrightarrow>
    \<exists>obj'. chain ls obj obj' \<and> read_fields P start len (rs @ rs') obj q =
      read_fields P start len rs' obj' (setDataPosition P q (getDataPosition P p'))"
proof (induction ws arbitrary: rs ls p q obj)
  case Nil
  then have "rs = []" "ls = []" by (cases rs; cases ls; simp)+
  moreover have "setDataPosition P q (getDataPosition P p') = q"
    using Nil(2,3) positionsD(4) [OF pos, of q] by simp
  ultimately show ?case by simp
next
  case (Cons w ws)
  obtain r rs1 l ls1 where lists: "rs = r # rs1" "ls = l # ls1"
    using Cons.prems(1) by (cases rs; cases ls) auto
  have w: "carries P same w r l" and rest: "all_carry P same ws rs1 ls1"
    using Cons.prems(1) by (simp_all add: lists)
  obtain p1 where 1: "w p = (STATUS_OK, p1)" and 2: "write_fields ws p1 = (STATUS_OK, p')"
    using Cons.prems(2) unfolding write_fields_Cons by blast
  note c = carriesD [OF w 1]
    and m = movesD [OF write_fields_moves [OF pos all_carry_moves [OF rest]] 2]
  let ?q1 = "setDataPosition P q (getDataPosition P p1)"
  have s1: "same p1 (getDataPosition P p) (getDataPosition P p1) q"
  proof (rule positionsD(8) [OF pos m(2)])
    show "same p' (getDataPosition P p) (getDataPosition P p1) q"
      using positionsD(9) [OF pos Cons.prems(4)] m(1) by simp
  qed simp
  obtain obj1 where r: "r obj q = (STATUS_OK, obj1, ?q1)" and l: "l obj obj1"
    using c(3) [OF Cons.prems(3) s1] by blast
  have s2: "same p' (getDataPosition P p1) (getDataPosition P p') ?q1"
  proof (rule positionsD(8) [OF pos])
    show "same p' (getDataPosition P p1) (getDataPosition P p') q"
      using positionsD(9) [OF pos Cons.prems(4)] c(1) by simp
    show "same q (getDataPosition P p1) (getDataPosition P p') ?q1"
      by (rule positionsD(7) [OF pos positionsD(6) [OF pos]])
  qed
  have q1: "getDataPosition P ?q1 = getDataPosition P p1" by (rule positions_at [OF pos])
  obtain obj' where "chain ls1 obj1 obj'" and "read_fields P start len (rs1 @ rs') obj1 ?q1 =
      read_fields P start len rs' obj' (setDataPosition P ?q1 (getDataPosition P p'))"
    using Cons.IH [OF rest 2 q1 s2 Cons.prems(5)] by blast
  moreover have "\<not> len \<le> getDataPosition P q - start"
    using Cons.prems(3,5) c(1) m(1) by linarith
  ultimately show ?case using r l by (auto simp: lists positionsD(5) [OF pos])
qed

section \<open>Frames\<close>

text \<open>
  What the writer of a frame leaves for its reader: the size, and behind it the fields as they
  were written.
\<close>

lemma sint_of_size:
  "0 \<le> n \<Longrightarrow> n \<le> INT32_MAX \<Longrightarrow> sint (of_int n :: u32) = n"
  using sint_of_count [of n] by (simp add: INT32_MAX_def)

lemma frame:
  assumes C: "parcel_contract P same same_file"
    and ws: "\<forall>w\<in>set ws. moves P same w" and behind: "moves P same w"
    and ok: "\<And>p1 p2. writeInt32 P 0 p = (STATUS_OK, p1) \<Longrightarrow> write_fields ws p1 = (STATUS_OK, p2) \<Longrightarrow>
      w p2 = (STATUS_OK, behind p2)"
    and run: "write_parcelable P ws behind p = (STATUS_OK, p')"
  obtains p1 p2 where "writeInt32 P 0 p = (STATUS_OK, p1)" and "write_fields ws p1 = (STATUS_OK, p2)"
    and "getDataPosition P p1 = getDataPosition P p + 4"
    and "getDataPosition P p1 \<le> getDataPosition P p2"
    and "getDataPosition P p2 \<le> getDataPosition P (behind p2)"
    and "getDataPosition P p' = getDataPosition P (behind p2)"
    and "\<And>a b. b \<le> getDataPosition P p \<or> getDataPosition P p' \<le> a \<Longrightarrow> same p a b p'"
    and "\<And>q rs r obj. getDataPosition P q = getDataPosition P p \<Longrightarrow>
      same p' (getDataPosition P p) (getDataPosition P p') q \<Longrightarrow>
      same (behind p2) (getDataPosition P p1) (getDataPosition P p')
        (setDataPosition P q (getDataPosition P p1)) \<and>
      read_parcelable P rs r obj q =
        (case read_fields P (getDataPosition P p) (getDataPosition P p' - getDataPosition P p) rs obj
           (setDataPosition P q (getDataPosition P p1)) of (returned, status, obj', q') \<Rightarrow>
         if returned then (status, obj', q')
         else case r obj' q' of (status, obj'', q'') \<Rightarrow>
           (status, obj'', setDataPosition P q'' (getDataPosition P p')))"
proof -
  let ?at = "getDataPosition P"
  have pos: "parcel_positions P same"
    and i32: "\<And>v. carries P same (writeInt32 P v) (readInt32 P) (\<lambda>_ x. x = v)"
    using C by (simp_all add: parcel_contract_def)
  have four: "?at p' = ?at p + 4" if "writeInt32 P v p = (STATUS_OK, p')" for v p p'
    using C that unfolding parcel_contract_def by blast
  have over: "fst (writeInt32 P u (setDataPosition P q (?at p))) = STATUS_OK"
    if "writeInt32 P v p = (STATUS_OK, p')" "same p' (?at p) (?at p') q" for v u p p' q
    using C that unfolding parcel_contract_def by blast
  obtain p1 p2 where 1: "writeInt32 P 0 p = (STATUS_OK, p1)"
    and 2: "write_fields ws p1 = (STATUS_OK, p2)"
    using run by (auto simp: write_parcelable_def Let_def split: prod.splits if_splits)
  define p3 where "p3 = behind p2"
  let ?n = "?at p3 - ?at p"
  obtain p4 where p4: "snd (writeInt32 P (of_int ?n) (setDataPosition P p3 (?at p))) = p4" by blast
  have p': "p' = setDataPosition P p4 (?at p3)"
    using run by (simp add: write_parcelable_def Let_def 1 2 p4 del: of_int_diff flip: p3_def)
  note m1 = carriesD [OF i32 1] four [OF 1]
    and m2 = movesD [OF write_fields_moves [OF pos ws] 2]
    and m3 = movesD [OF behind ok [OF 1 2], folded p3_def]
  have old: "same p1 (?at p) (?at p1) p3"
    by (rule positionsD(8) [OF pos m2(2) m3(2)]) (use m2(1) in simp_all)
  have 4: "writeInt32 P (of_int ?n) (setDataPosition P p3 (?at p)) = (STATUS_OK, p4)"
    using over [OF 1 old, of "of_int ?n"] p4 by (metis prod.collapse)
  note m4 = carriesD [OF i32 4, unfolded positions_at [OF pos]]
    and f4 = four [OF 4, unfolded positions_at [OF pos]]
  have at': "?at p' = ?at p3" unfolding p' by (rule positions_at [OF pos])
  have order: "?at p1 = ?at p + 4" "?at p1 \<le> ?at p2" "?at p2 \<le> ?at p3"
    using m1(4) m2(1) m3(1) by simp_all
  have outside: "same p3 a b p'" if "b \<le> ?at p \<or> ?at p1 \<le> a" for a b
  proof -
    have "same p3 a b (setDataPosition P p3 (?at p))"
      by (rule positionsD(7) [OF pos positionsD(6) [OF pos]])
    moreover have "same (setDataPosition P p3 (?at p)) a b p4"
      using that f4 order(1) by (intro m4(2)) simp
    moreover have "same p4 a b p'"
      unfolding p' by (rule positionsD(7) [OF pos positionsD(6) [OF pos]])
    ultimately show ?thesis using positionsD(8) [OF pos] by blast
  qed
  have all: "same p a b p'" if "b \<le> ?at p \<or> ?at p' \<le> a" for a b
  proof -
    have "same p a b p1" using that order at' by (intro m1(2)) linarith
    moreover have "same p1 a b p2" using that order at' by (intro m2(2)) linarith
    moreover have "same p2 a b p3" using that order at' by (intro m3(2)) linarith
    moreover have "same p3 a b p'" using that order at' by (intro outside) linarith
    ultimately show ?thesis using positionsD(8) [OF pos] by blast
  qed
  have read: "same p3 (?at p1) (?at p') (setDataPosition P q (?at p1)) \<and>
      read_parcelable P rs r obj q =
        (case read_fields P (?at p) (?at p' - ?at p) rs obj (setDataPosition P q (?at p1)) of
          (returned, status, obj', q') \<Rightarrow>
         if returned then (status, obj', q')
         else case r obj' q' of (status, obj'', q'') \<Rightarrow>
           (status, obj'', setDataPosition P q'' (?at p')))"
    if q: "?at q = ?at p" and s: "same p' (?at p) (?at p') q" for q rs r obj
  proof
    have "same p3 (?at p1) (?at p') p'" by (rule outside) simp
    moreover have "same p' (?at p1) (?at p') q"
      using positionsD(9) [OF pos s] order(1) by simp
    moreover have "same q (?at p1) (?at p') (setDataPosition P q (?at p1))"
      by (rule positionsD(7) [OF pos positionsD(6) [OF pos]])
    ultimately show "same p3 (?at p1) (?at p') (setDataPosition P q (?at p1))"
      using positionsD(8) [OF pos] by blast
    have "same p4 (?at p) (?at p4) p'"
      unfolding p' by (rule positionsD(7) [OF pos positionsD(6) [OF pos]])
    moreover have "same p' (?at p) (?at p4) q"
      using positionsD(9) [OF pos s] order at' f4 by simp
    ultimately have "same p4 (?at p) (?at p4) q" by (rule positionsD(8) [OF pos])
    from m4(3) [OF q this] have
      rd: "readInt32 P 0 q = (STATUS_OK, of_int ?n, setDataPosition P q (?at p1))"
      using f4 order(1) by simp
    have n: "sint (of_int ?n :: u32) = ?n"
      using positionsD(1,2) [OF pos] order by (intro sint_of_size) (smt (verit))+
    have e: "?at p + ?n = ?at p3" by simp
    have "\<not> ?n < 4" using order by simp
    moreover have "\<not> ?at q > INT32_MAX - ?n" using q positionsD(2) [OF pos, of p3] by simp
    ultimately show "read_parcelable P rs r obj q =
        (case read_fields P (?at p) (?at p' - ?at p) rs obj (setDataPosition P q (?at p1)) of
          (returned, status, obj', q') \<Rightarrow>
         if returned then (status, obj', q')
         else case r obj' q' of (status, obj'', q'') \<Rightarrow>
           (status, obj'', setDataPosition P q'' (?at p')))"
      unfolding read_parcelable_def Let_def rd q prod.case n at' e by simp
  qed
  show ?thesis
    by (rule that [OF 1 2 order(1,2)]) (use order(3) at' all read in \<open>simp_all add: p3_def\<close>)
qed

text \<open>
  A reader gets the fields that the sender has written, also if the sender knows fewer fields, or
  more behind the common ones, and ends behind the frame.
\<close>

lemma frame_tolerates:
  assumes C: "parcel_contract P same same_file" and carry: "all_carry P same ws rs ls"
    and extra: "\<forall>w\<in>set ws'. moves P same w" and one: "ws' = [] \<or> rs' = []"
    and run: "write_parcelable P (ws @ ws') id p = (STATUS_OK, p')"
    and q: "getDataPosition P q = getDataPosition P p"
    and data: "same p' (getDataPosition P p) (getDataPosition P p') q"
  shows "\<exists>obj'. chain ls obj obj' \<and> read_parcelable P (rs @ rs') read_nothing obj q =
    (STATUS_OK, obj', setDataPosition P q (getDataPosition P p'))"
proof -
  let ?at = "getDataPosition P"
  have pos: "parcel_positions P same" using C by (simp add: parcel_contract_def)
  have same_refl: "same p a b p" for p a b using positionsD(6-8) [OF pos] by metis
  have "\<forall>w\<in>set (ws @ ws'). moves P same w" using all_carry_moves [OF carry] extra by auto
  moreover have "moves P same (\<lambda>p. (STATUS_OK, id p))" by (simp add: moves_def same_refl)
  ultimately have fr: "\<forall>w\<in>set (ws @ ws'). moves P same w"
    "moves P same (\<lambda>p. (STATUS_OK, id p))" by blast+
  obtain p1 p2 where w: "write_fields (ws @ ws') p1 = (STATUS_OK, p2)"
    and order: "?at p1 = ?at p + 4" "?at p' = ?at (id p2)"
    and reads: "\<And>q obj. ?at q = ?at p \<Longrightarrow> same p' (?at p) (?at p') q \<Longrightarrow>
      same (id p2) (?at p1) (?at p') (setDataPosition P q (?at p1)) \<and>
      read_parcelable P (rs @ rs') read_nothing obj q =
        (case read_fields P (?at p) (?at p' - ?at p) (rs @ rs') obj (setDataPosition P q (?at p1)) of
          (returned, status, obj', q') \<Rightarrow>
         if returned then (status, obj', q')
         else case read_nothing obj' q' of (status, obj'', q'') \<Rightarrow>
           (status, obj'', setDataPosition P q'' (?at p')))"
    by (rule frame [OF C fr refl run]) (rule that)
  note order = order [unfolded id_apply] and read = reads [OF q data, of obj, unfolded id_apply]
  let ?q1 = "setDataPosition P q (?at p1)"
  obtain pm where m: "write_fields ws p1 = (STATUS_OK, pm)" "write_fields ws' pm = (STATUS_OK, p2)"
    using w unfolding write_fields_append by blast
  note m1 = movesD [OF write_fields_moves [OF pos all_carry_moves [OF carry]] m(1)]
    and m2 = movesD [OF write_fields_moves [OF pos extra] m(2)]
  have "same p2 (?at p1) (?at pm) ?q1"
    using positionsD(9) [OF pos read [THEN conjunct1]] m2(1) order(2) by simp
  then have "same pm (?at p1) (?at pm) ?q1" using positionsD(8) [OF pos m2(2)] by blast
  then obtain obj' where chain: "chain ls obj obj'"
    and fields: "read_fields P (?at p) (?at p' - ?at p) (rs @ rs') obj ?q1 =
      read_fields P (?at p) (?at p' - ?at p) rs' obj' (setDataPosition P ?q1 (?at pm))"
    using read_fields_back [OF pos carry m(1) positions_at [OF pos], of q "?at p" "?at p' - ?at p" obj rs']
      m2(1) order(2) by auto
  have "read_parcelable P (rs @ rs') read_nothing obj q =
      (STATUS_OK, obj', setDataPosition P q (?at p'))"
  proof (cases rs')
    case Nil
    then show ?thesis
      using read [THEN conjunct2] fields by (simp add: read_nothing_def positionsD(5) [OF pos])
  next
    case (Cons r rs1)
    then have "pm = p2" using one m(2) by simp
    with Cons read [THEN conjunct2] fields order(2) show ?thesis
      by (simp add: positions_at [OF pos] positionsD(5) [OF pos])
  qed
  with chain show ?thesis by blast
qed

lemma frame_with_tail:
  assumes C: "parcel_contract P same same_file" and carry: "all_carry P same ws rs ls"
    and tail: "carries P same w r rel"
    and ok: "\<And>p1 p2. writeInt32 P 0 p = (STATUS_OK, p1) \<Longrightarrow> write_fields ws p1 = (STATUS_OK, p2) \<Longrightarrow>
      w p2 = (STATUS_OK, behind p2)"
    and run: "write_parcelable P ws behind p = (STATUS_OK, p')"
    and q: "getDataPosition P q = getDataPosition P p"
    and data: "same p' (getDataPosition P p) (getDataPosition P p') q"
  shows "\<exists>obj' y. read_parcelable P rs r obj q =
      (STATUS_OK, obj', setDataPosition P q (getDataPosition P p')) \<and> chain ls obj y \<and> rel y obj'"
proof -
  let ?at = "getDataPosition P"
  have pos: "parcel_positions P same" using C by (simp add: parcel_contract_def)
  obtain p1 p2 where start: "writeInt32 P 0 p = (STATUS_OK, p1)"
    and w: "write_fields ws p1 = (STATUS_OK, p2)"
    and order: "?at p1 = ?at p + 4" "?at p1 \<le> ?at p2" "?at p2 \<le> ?at (behind p2)"
      "?at p' = ?at (behind p2)"
    and read: "\<And>q obj. ?at q = ?at p \<Longrightarrow> same p' (?at p) (?at p') q \<Longrightarrow>
      same (behind p2) (?at p1) (?at p') (setDataPosition P q (?at p1)) \<and>
      read_parcelable P rs r obj q =
        (case read_fields P (?at p) (?at p' - ?at p) rs obj (setDataPosition P q (?at p1)) of
          (returned, status, obj', q') \<Rightarrow>
         if returned then (status, obj', q')
         else case r obj' q' of (status, obj'', q'') \<Rightarrow>
           (status, obj'', setDataPosition P q'' (?at p')))"
    by (rule frame [OF C all_carry_moves [OF carry] carries_moves [OF tail] _ run], erule (1) ok)
      (rule that)
  let ?q1 = "setDataPosition P q (?at p1)" and ?q2 = "setDataPosition P q (?at p2)"
  note rd = read [OF q data, of obj]
  note t = carriesD [OF tail ok [OF start w]]
  have s: "same (behind p2) (?at p1) (?at p2) ?q1"
    using positionsD(9) [OF pos rd [THEN conjunct1]] order by simp
  then have "same p2 (?at p1) (?at p2) ?q1" using positionsD(8) [OF pos t(2)] by blast
  then obtain y where chain: "chain ls obj y"
    and fields: "read_fields P (?at p) (?at p' - ?at p) rs obj ?q1 = (False, STATUS_OK, y, ?q2)"
    using read_fields_back [OF pos carry w positions_at [OF pos], of q "?at p" "?at p' - ?at p" obj "[]"]
      order
    by (auto simp: positionsD(5) [OF pos])
  have "same (behind p2) (?at p2) (?at (behind p2)) q"
  proof (rule positionsD(8) [OF pos])
    show "same (behind p2) (?at p2) (?at (behind p2)) ?q1"
      using positionsD(9) [OF pos rd [THEN conjunct1]] order by simp
  qed (rule positionsD(6) [OF pos])
  then have "same (behind p2) (?at p2) (?at (behind p2)) ?q2"
    using positionsD(8) [OF pos _ positionsD(7) [OF pos positionsD(6) [OF pos]]] by blast
  from t(3) [OF positions_at [OF pos] this] obtain z where
    "r y ?q2 = (STATUS_OK, z, setDataPosition P q (?at p'))" "rel y z"
    by (auto simp: positionsD(5) [OF pos] order(4))
  with chain rd [THEN conjunct2] fields show ?thesis by (auto simp: positionsD(5) [OF pos])
qed

lemma plain_frame_carries:
  assumes C: "parcel_contract P same same_file" and carry: "all_carry P same ws rs ls"
  shows "carries P same (write_parcelable P ws id) (read_parcelable P rs read_nothing) (chain ls)"
  unfolding carries_def
proof (intro allI impI conjI)
  fix p p' assume run: "write_parcelable P ws id p = (STATUS_OK, p')"
  have pos: "parcel_positions P same" using C by (simp add: parcel_contract_def)
  have same_refl: "same p a b p" for p a b using positionsD(6-8) [OF pos] by metis
  have "moves P same (\<lambda>p. (STATUS_OK, id p))" by (simp add: moves_def same_refl)
  note f = frame [OF C all_carry_moves [OF carry] this refl run]
  show "getDataPosition P p < getDataPosition P p'" by (rule f) simp
  show "same p a b p'" if "b \<le> getDataPosition P p \<or> getDataPosition P p' \<le> a" for a b
    by (rule f) (use that in blast)
  show "\<exists>obj'. read_parcelable P rs read_nothing obj q =
      (STATUS_OK, obj', setDataPosition P q (getDataPosition P p')) \<and> chain ls obj obj'"
    if "getDataPosition P q = getDataPosition P p \<and>
      same p' (getDataPosition P p) (getDataPosition P p') q" for q obj
    using frame_tolerates [OF C carry, of "[]" "[]" p p' q obj] run that by auto
qed

section \<open>Descriptors in a parcel\<close>

lemma parcel_contractD:
  assumes "parcel_contract P same same_file"
  shows "parcel_positions P same"
    and "carries P same (writeInt32 P v) (readInt32 P) (\<lambda>_ x. x = v)"
    and "carries P same (writeInt64 P u) (readInt64 P) (\<lambda>_ x. x = u)"
    and "carries P same (writeFds P fds) (readFds P) (\<lambda>_ x. list_all2 same_file fds x)"
    and "carries P same (writeInts P ints) (readInts P) (\<lambda>_ x. x = ints)"
    and "carries P same (writeText P txt) (readText P) (\<lambda>_ x. x = txt)"
    and "length ws = length gs \<Longrightarrow> (\<And>i. i < length gs \<Longrightarrow> carries P same (ws ! i) r (\<lambda>_ g. g = gs ! i)) \<Longrightarrow>
      carries P same (writeGrantors P ws) (readGrantors P r) (\<lambda>_ x. x = gs)"
    and "carries P same w rh rel \<Longrightarrow> carries P same (writeHandle P w) (readHandle P rh) rel"
    and "carries P same (writeFd P fd) (readFd P) (\<lambda>_ x. same_file fd x)"
  using assms unfolding parcel_contract_def by simp_all

lemma carries_mono:
  "carries P same w r rel \<Longrightarrow> (\<And>x y. rel x y \<Longrightarrow> rel' x y) \<Longrightarrow> carries P same w r rel'"
  unfolding carries_def by meson

lemma into_carries:
  assumes "carries P same w rd (\<lambda>_ x. Q x)"
  shows "carries P same w (into rd get put) (\<lambda>obj obj'. \<exists>x. Q x \<and> obj' = put x obj)"
  unfolding carries_def
proof (intro allI impI conjI)
  fix p p' assume w: "w p = (STATUS_OK, p')"
  note c = carriesD [OF assms w]
  show "getDataPosition P p < getDataPosition P p'" by (rule c)
  show "same p a b p'" if "b \<le> getDataPosition P p \<or> getDataPosition P p' \<le> a" for a b
    using that by (rule c)
  show "\<exists>obj'. into rd get put obj q =
      (STATUS_OK, obj', setDataPosition P q (getDataPosition P p')) \<and> (\<exists>x. Q x \<and> obj' = put x obj)"
    if "getDataPosition P q = getDataPosition P p \<and>
      same p' (getDataPosition P p) (getDataPosition P p') q" for q obj
    using c(3) [of q "get obj"] that by (auto simp: into_def)
qed

lemma grantor_carries:
  assumes C: "parcel_contract P same same_file"
  shows "carries P same (GrantorDescriptor_writeToParcel P g) (GrantorDescriptor_readFromParcel P)
    (\<lambda>_ g'. g' = g)"
  unfolding GrantorDescriptor_writeToParcel_def GrantorDescriptor_readFromParcel_def
proof (rule carries_mono [OF plain_frame_carries [OF C]])
  let ?put1 = "\<lambda>x g. g\<lparr>aidl_fdIndex := x\<rparr>" and ?put2 = "\<lambda>x g. g\<lparr>aidl_offset := x\<rparr>"
    and ?put3 = "\<lambda>x g. g\<lparr>aidl_extent := x\<rparr>"
  note D = parcel_contractD [OF C]
  show "all_carry P same
      [writeInt32 P (aidl_fdIndex g), writeInt32 P (aidl_offset g), writeInt64 P (aidl_extent g)]
      [into (readInt32 P) aidl_fdIndex ?put1, into (readInt32 P) aidl_offset ?put2,
       into (readInt64 P) aidl_extent ?put3]
      [\<lambda>x y. \<exists>v. v = aidl_fdIndex g \<and> y = ?put1 v x, \<lambda>x y. \<exists>v. v = aidl_offset g \<and> y = ?put2 v x,
       \<lambda>x y. \<exists>v. v = aidl_extent g \<and> y = ?put3 v x]"
    using into_carries [OF D(2)] into_carries [OF D(3)] by (auto simp del: ex_simps)
qed simp

lemma native_handle_carries:
  assumes C: "parcel_contract P same same_file"
  shows "carries P same (NativeHandle_writeToParcel P nh) (NativeHandle_readFromParcel P)
    (\<lambda>_ nh'. list_all2 same_file (fst nh) (fst nh') \<and> snd nh' = snd nh)"
  unfolding NativeHandle_writeToParcel_def NativeHandle_readFromParcel_def
proof (rule carries_mono [OF plain_frame_carries [OF C]])
  let ?put1 = "\<lambda>x nh :: int list \<times> int list. (x, snd nh)"
    and ?put2 = "\<lambda>x nh :: int list \<times> int list. (fst nh, x)"
  note D = parcel_contractD [OF C]
  show "all_carry P same [writeFds P (fst nh), writeInts P (snd nh)]
      [into (readFds P) fst ?put1, into (readInts P) snd ?put2]
      [\<lambda>x y. \<exists>v. list_all2 same_file (fst nh) v \<and> y = ?put1 v x,
       \<lambda>x y. \<exists>v. v = snd nh \<and> y = ?put2 v x]"
    using into_carries [OF D(4)] into_carries [OF D(5)] by (auto simp del: ex_simps)
qed auto

text \<open>The four fields of a descriptor, and what each of them leaves in the object that is read.\<close>

definition desc_fields :: "(int \<Rightarrow> int \<Rightarrow> bool) \<Rightarrow> WinMQDescriptor \<Rightarrow>
    (WinMQDescriptor \<Rightarrow> WinMQDescriptor \<Rightarrow> bool) list" where
  "desc_fields same_file d =
     [\<lambda>x y. y = x\<lparr>aidl_grantors := aidl_grantors d\<rparr>,
      \<lambda>x y. \<exists>fds. list_all2 same_file (aidl_fds d) fds \<and>
        y = x\<lparr>aidl_fds := fds, aidl_ints := aidl_ints d\<rparr>,
      \<lambda>x y. y = x\<lparr>aidl_quantum := aidl_quantum d\<rparr>, \<lambda>x y. y = x\<lparr>aidl_flags := aidl_flags d\<rparr>]"

lemma desc_carry:
  assumes C: "parcel_contract P same same_file"
  shows "all_carry P same (desc_writers P d) (desc_readers P) (desc_fields same_file d)"
proof -
  note D = parcel_contractD [OF C]
  have "carries P same (writeGrantors P (map (GrantorDescriptor_writeToParcel P) (aidl_grantors d)))
      (readGrantors P (GrantorDescriptor_readFromParcel P)) (\<lambda>_ x. x = aidl_grantors d)"
    by (rule D(7)) (simp_all add: grantor_carries [OF C])
  note g = into_carries [OF this]
  have "carries P same (writeHandle P (NativeHandle_writeToParcel P (aidl_fds d, aidl_ints d)))
      (readHandle P (NativeHandle_readFromParcel P))
      (\<lambda>_ x. list_all2 same_file (aidl_fds d) (fst x) \<and> snd x = aidl_ints d)"
    using D(8) [OF native_handle_carries [OF C, of "(aidl_fds d, aidl_ints d)"]] by simp
  note h = into_carries [OF this]
  show ?thesis
    unfolding desc_writers_def desc_readers_def desc_fields_def all_carry.simps
    by (intro conjI TrueI; rule carries_mono [OF g] carries_mono [OF h]
      carries_mono [OF into_carries [OF D(2)]]) auto
qed

lemma all_carry_take:
  "all_carry P same ws rs ls \<Longrightarrow> all_carry P same (take k ws) (take k rs) (take k ls)"
  by (induction P same ws rs ls arbitrary: k rule: all_carry.induct) (auto simp: take_Cons split: nat.split)

text \<open>
  C29: what \<open>writeToParcel\<close> sends, \<open>readFromParcel\<close> receives. If the descriptor was
  written (on Windows also its text, whose status the code drops) and the receiver has the same
  data, it gets equal grantors, integers, quantum and flags, on Windows also the text, and
  descriptors of the same files in the same order, whatever its object held before, and the
  position is behind the descriptor. The \<open>name\<close> of the object is not part of the parcel.
\<close>

theorem descriptor_parcel_round_trip:
  assumes C: "parcel_contract P same same_file"
    and run: "MQDescriptor_writeToParcel pf P d p = (STATUS_OK, p')"
    and text_ok: "pf = MSVC \<longrightarrow> (\<forall>p1 p2. writeInt32 P 0 p = (STATUS_OK, p1) \<and>
      write_fields (desc_writers P d) p1 = (STATUS_OK, p2) \<longrightarrow>
      fst (writeText P (json_decriptor d) p2) = STATUS_OK)"
    and q: "getDataPosition P q = getDataPosition P p"
    and data: "same p' (getDataPosition P p) (getDataPosition P p') q"
  shows "\<exists>fds. list_all2 same_file (aidl_fds d) fds \<and>
    MQDescriptor_readFromParcel pf P old q =
      (STATUS_OK,
       d\<lparr>aidl_fds := fds, win_name := win_name old,
         json_decriptor := (if pf = MSVC then json_decriptor d else json_decriptor old)\<rparr>,
       setDataPosition P q (getDataPosition P p'))"
proof -
  let ?put = "\<lambda>x (d :: WinMQDescriptor). d\<lparr>json_decriptor := x\<rparr>"
  have "\<exists>y. chain (desc_fields same_file d) old y \<and> MQDescriptor_readFromParcel pf P old q =
      (STATUS_OK, if pf = MSVC then ?put (json_decriptor d) y else y,
       setDataPosition P q (getDataPosition P p'))"
  proof (cases pf)
    case POSIX
    then have "write_parcelable P (desc_writers P d @ []) id p = (STATUS_OK, p')"
      using run by (simp add: MQDescriptor_writeToParcel_def)
    from frame_tolerates [OF C desc_carry [OF C] _ _ this q data, of "[]" old] POSIX show ?thesis
      by (auto simp: MQDescriptor_readFromParcel_def)
  next
    case MSVC
    let ?behind = "\<lambda>p. snd (writeText P (json_decriptor d) p)"
    have ok: "writeText P (json_decriptor d) p2 = (STATUS_OK, ?behind p2)"
      if "writeInt32 P 0 p = (STATUS_OK, p1)" "write_fields (desc_writers P d) p1 = (STATUS_OK, p2)"
      for p1 p2
      using text_ok MSVC that by (metis prod.collapse)
    have tail: "carries P same (writeText P (json_decriptor d))
        (into (readText P) json_decriptor ?put) (\<lambda>x y. \<exists>v. v = json_decriptor d \<and> y = ?put v x)"
      by (rule into_carries [OF parcel_contractD(6) [OF C]])
    have "write_parcelable P (desc_writers P d) ?behind p = (STATUS_OK, p')"
      using run MSVC by (simp add: MQDescriptor_writeToParcel_def)
    from frame_with_tail [OF C desc_carry [OF C] tail _ this q data, of old] ok MSVC show ?thesis
      by (auto simp: MQDescriptor_readFromParcel_def)
  qed
  then show ?thesis by (auto simp: desc_fields_def)
qed


end
