(* ===== verification/Samples_Parcel.thy ===== *)
theory Samples_Parcel
  imports Descriptor_Parcel
begin

text \<open>A small parcel that keeps the contract, and the instances of the properties on it.\<close>

section \<open>A parcel of cells\<close>

datatype cell = CNum int | CList "int list" | CText string

type_synonym cells = "(int \<Rightarrow> cell) \<times> 31 word"

definition cells_at :: "cells \<Rightarrow> int" where "cells_at p = uint (snd p)"

definition cells_seek :: "cells \<Rightarrow> int \<Rightarrow> cells" where "cells_seek p k = (fst p, of_int k)"

definition cells_same :: "cells same" where
  "cells_same p a b q \<longleftrightarrow> (\<forall>i. a \<le> i \<and> i < b \<longrightarrow> fst p i = fst q i)"

definition put_cell :: "int \<Rightarrow> cell \<Rightarrow> cells \<Rightarrow> int \<times> cells" where
  "put_cell n c p =
     (if cells_at p + n \<le> INT32_MAX
      then (STATUS_OK, ((fst p)(cells_at p := c), of_int (cells_at p + n)))
      else (STATUS_BAD_VALUE, p))"

definition take_cell :: "int \<Rightarrow> (cell \<Rightarrow> 'a) \<Rightarrow> 'a \<Rightarrow> cells \<Rightarrow> int \<times> 'a \<times> cells" where
  "take_cell n f old p = (STATUS_OK, f (fst p (cells_at p)), cells_seek p (cells_at p + n))"

fun cell_num :: "cell \<Rightarrow> int" where
  "cell_num (CNum i) = i" | "cell_num (CList xs) = 0" | "cell_num (CText t) = 0"

fun cell_list :: "cell \<Rightarrow> int list" where
  "cell_list (CNum i) = []" | "cell_list (CList xs) = xs" | "cell_list (CText t) = []"

fun cell_text :: "cell \<Rightarrow> string" where
  "cell_text (CNum i) = ''''" | "cell_text (CList xs) = ''''" | "cell_text (CText t) = t"

fun take_list ::
  "nat \<Rightarrow> (AidlGrantor \<Rightarrow> cells \<Rightarrow> int \<times> AidlGrantor \<times> cells) \<Rightarrow> cells \<Rightarrow> int \<times> AidlGrantor list \<times> cells"
where
  "take_list 0 r q = (STATUS_OK, [], q)"
| "take_list (Suc n) r q =
     (case r \<lparr>aidl_fdIndex = 0, aidl_offset = 0, aidl_extent = 0\<rparr> q of (status, g, q') \<Rightarrow>
        if status \<noteq> STATUS_OK then (status, [], q')
        else case take_list n r q' of (status', gs, q'') \<Rightarrow> (status', g # gs, q''))"

definition sample_parcel :: "cells aparcel" where
  "sample_parcel = \<lparr>getDataPosition = cells_at, setDataPosition = cells_seek,
     writeInt32 = (\<lambda>v. put_cell 4 (CNum (uint v))), readInt32 = take_cell 4 (\<lambda>c. of_int (cell_num c)),
     writeInt64 = (\<lambda>v. put_cell 8 (CNum (uint v))), readInt64 = take_cell 8 (\<lambda>c. of_int (cell_num c)),
     writeFds = (\<lambda>v. put_cell 4 (CList v)), readFds = take_cell 4 cell_list,
     writeFd = (\<lambda>v. put_cell 4 (CNum v)), readFd = take_cell 4 cell_num,
     writeInts = (\<lambda>v. put_cell 4 (CList v)), readInts = take_cell 4 cell_list,
     writeGrantors = (\<lambda>ws. write_fields (put_cell 4 (CNum (int (length ws))) # ws)),
     readGrantors = (\<lambda>r old q. take_list (nat (cell_num (fst q (cells_at q)))) r
       (cells_seek q (cells_at q + 4))),
     writeHandle = (\<lambda>w. w), readHandle = (\<lambda>r. r),
     writeText = (\<lambda>t. put_cell 4 (CText t)), readText = take_cell 4 cell_text\<rparr>"

lemma uint_31_max: "uint (w :: 31 word) \<le> INT32_MAX"
  using uint_bounded [of w] by (simp add: INT32_MAX_def)

lemma cells_at_range: "0 \<le> cells_at p" "cells_at p \<le> INT32_MAX"
  using uint_31_max by (simp_all add: cells_at_def)

lemma cells_seek_back: "cells_at q = cells_at p \<Longrightarrow> cells_seek q (cells_at p) = q"
  by (cases p; cases q) (simp add: cells_seek_def cells_at_def flip: word_uint_eq_iff)

lemma uint_31: "0 \<le> k \<Longrightarrow> k \<le> INT32_MAX \<Longrightarrow> uint (of_int k :: 31 word) = k"
  by (simp add: INT32_MAX_def uint_word_of_int)

lemma sample_positions: "parcel_positions sample_parcel cells_same"
  unfolding parcel_positions_def
  by (auto simp: sample_parcel_def uint_31_max cells_same_def cells_seek_def cells_at_def uint_31)

lemma put_cell_carries:
  assumes "0 < n" and "f c = x"
  shows "carries sample_parcel cells_same (put_cell n c) (take_cell n f) (\<lambda>_ y. y = x)"
  unfolding carries_def
proof (intro allI impI)
  fix p p' assume run: "put_cell n c p = (STATUS_OK, p')"
  then have fits: "cells_at p + n \<le> INT32_MAX"
    and p': "p' = ((fst p)(cells_at p := c), of_int (cells_at p + n))"
    by (auto simp: put_cell_def split: if_splits)
  then have at': "cells_at p' = cells_at p + n"
    using cells_at_range(1) [of p] assms(1) uint_31 [of "cells_at p + n"] by (simp add: cells_at_def)
  have "\<exists>y. take_cell n f old q = (STATUS_OK, y, cells_seek q (cells_at p')) \<and> y = x"
    if "cells_at q = cells_at p" "cells_same p' (cells_at p) (cells_at p') q" for q old
  proof -
    have "fst p' (cells_at p) = fst q (cells_at p)"
      using that(2) at' assms(1) by (simp add: cells_same_def)
    with that(1) at' p' assms(2) show ?thesis by (simp add: take_cell_def)
  qed
  then show "getDataPosition sample_parcel p < getDataPosition sample_parcel p' \<and>
      (\<forall>a b. b \<le> getDataPosition sample_parcel p \<or> getDataPosition sample_parcel p' \<le> a \<longrightarrow>
        cells_same p a b p') \<and>
      (\<forall>q obj. getDataPosition sample_parcel q = getDataPosition sample_parcel p \<and>
        cells_same p' (getDataPosition sample_parcel p) (getDataPosition sample_parcel p') q \<longrightarrow>
        (\<exists>obj'. take_cell n f obj q =
          (STATUS_OK, obj', setDataPosition sample_parcel q (getDataPosition sample_parcel p')) \<and> obj' = x))"
    using at' assms(1) by (auto simp: sample_parcel_def cells_same_def p')
qed

lemma take_list_back:
  "length ws = length gs \<Longrightarrow>
   (\<And>i. i < length gs \<Longrightarrow> carries sample_parcel cells_same (ws ! i) r (\<lambda>_ g. g = gs ! i)) \<Longrightarrow>
   write_fields ws p = (STATUS_OK, p') \<Longrightarrow> cells_at q = cells_at p \<Longrightarrow>
   cells_same p' (cells_at p) (cells_at p') q \<Longrightarrow>
   take_list (length gs) r q = (STATUS_OK, gs, cells_seek q (cells_at p'))"
proof (induction ws arbitrary: gs p q)
  case Nil
  then have "cells_seek q (cells_at p') = q" by (intro cells_seek_back) simp
  with Nil show ?case by simp
next
  case (Cons w ws)
  obtain g gs1 where gs: "gs = g # gs1" "length ws = length gs1"
    using Cons.prems(1) by (cases gs) auto
  have w: "carries sample_parcel cells_same w r (\<lambda>_ x. x = g)"
    using Cons.prems(2) [of 0] by (simp add: gs)
  have rest: "carries sample_parcel cells_same (ws ! i) r (\<lambda>_ x. x = gs1 ! i)"
    if "i < length gs1" for i
    using Cons.prems(2) [of "Suc i"] that by (simp add: gs)
  obtain p1 where 1: "w p = (STATUS_OK, p1)" and 2: "write_fields ws p1 = (STATUS_OK, p')"
    using Cons.prems(3) unfolding write_fields_Cons by blast
  have "\<forall>w\<in>set ws. moves sample_parcel cells_same w"
    using rest gs(2) carries_moves by (metis in_set_conv_nth)
  note m = movesD [OF write_fields_moves [OF sample_positions this] 2]
    and c = carriesD [OF w 1]
  have at: "getDataPosition sample_parcel = cells_at" "setDataPosition sample_parcel = cells_seek"
    by (simp_all add: sample_parcel_def)
  note m = m [unfolded at] and c = c [unfolded at]
  let ?q1 = "cells_seek q (cells_at p1)"
  have "cells_same p1 (cells_at p) (cells_at p1) q"
    using m(2) [of "cells_at p1" "cells_at p"] m(1) Cons.prems(5) by (auto simp: cells_same_def)
  from c(3) [OF Cons.prems(4) this] have
    r: "r \<lparr>aidl_fdIndex = 0, aidl_offset = 0, aidl_extent = 0\<rparr> q = (STATUS_OK, g, ?q1)" by auto
  have "cells_at ?q1 = cells_at p1" by (simp add: cells_seek_def cells_at_def)
  moreover have "cells_same p' (cells_at p1) (cells_at p') ?q1"
    using Cons.prems(5) c(1) by (auto simp: cells_same_def cells_seek_def)
  ultimately have "take_list (length gs1) r ?q1 = (STATUS_OK, gs1, cells_seek ?q1 (cells_at p'))"
    by (intro Cons.IH [OF gs(2) rest 2])
  then show ?case by (simp add: gs(1) r cells_seek_def)
qed

lemma sample_vector:
  assumes len: "length ws = length gs"
    and each: "\<And>i. i < length gs \<Longrightarrow> carries sample_parcel cells_same (ws ! i) r (\<lambda>_ g. g = gs ! i)"
  shows "carries sample_parcel cells_same (writeGrantors sample_parcel ws)
    (readGrantors sample_parcel r) (\<lambda>_ x. x = gs)"
  unfolding carries_def
proof (intro allI impI)
  let ?n = "CNum (int (length ws))"
  fix p p' assume run: "writeGrantors sample_parcel ws p = (STATUS_OK, p')"
  then have "write_fields (put_cell 4 ?n # ws) p = (STATUS_OK, p')" by (simp add: sample_parcel_def)
  from this obtain p1 where 1: "put_cell 4 ?n p = (STATUS_OK, p1)"
    and 2: "write_fields ws p1 = (STATUS_OK, p')"
    unfolding write_fields_Cons by blast
  have mv: "\<forall>w\<in>set ws. moves sample_parcel cells_same w"
    using each len carries_moves by (metis in_set_conv_nth)
  have head: "carries sample_parcel cells_same (put_cell 4 ?n) (take_cell 4 cell_num)
      (\<lambda>_ y. y = int (length ws))"
    by (rule put_cell_carries) simp_all
  have "\<forall>w\<in>set (put_cell 4 ?n # ws). moves sample_parcel cells_same w"
    using mv carries_moves [OF head] by simp
  note all = movesD [OF write_fields_moves [OF sample_positions this]
      \<open>write_fields (put_cell 4 ?n # ws) p = (STATUS_OK, p')\<close>]
    and m = movesD [OF write_fields_moves [OF sample_positions mv] 2]
    and c = carriesD [OF head 1]
  have at: "getDataPosition sample_parcel = cells_at" "setDataPosition sample_parcel = cells_seek"
    by (simp_all add: sample_parcel_def)
  have m: "cells_at p1 \<le> cells_at p'"
    "\<And>a b. b \<le> cells_at p1 \<or> cells_at p' \<le> a \<Longrightarrow> cells_same p1 a b p'"
    using m unfolding at by blast+
  have c: "cells_at p < cells_at p1"
    "\<And>a b. b \<le> cells_at p \<or> cells_at p1 \<le> a \<Longrightarrow> cells_same p a b p1"
    using c(1,2) unfolding at by simp_all
  have four: "cells_at p1 = cells_at p + 4" and cell: "fst p1 (cells_at p) = ?n"
    using 1 c(1) uint_31 [of "cells_at p + 4"] cells_at_range(1) [of p]
    by (auto simp: put_cell_def cells_at_def split: if_splits)
  have "readGrantors sample_parcel r old q = (STATUS_OK, gs, cells_seek q (cells_at p'))"
    if q: "cells_at q = cells_at p" and s: "cells_same p' (cells_at p) (cells_at p') q" for q old
  proof -
    have "fst q (cells_at p) = ?n"
      using s m(2) [of "cells_at p1" "cells_at p"] c(1) m(1) cell by (auto simp: cells_same_def)
    moreover have "cells_at (cells_seek q (cells_at p1)) = cells_at p1"
      by (simp add: cells_seek_def cells_at_def)
    moreover have "cells_same p' (cells_at p1) (cells_at p') (cells_seek q (cells_at p1))"
      using s c(1) by (auto simp: cells_same_def cells_seek_def)
    ultimately show ?thesis
      using take_list_back [OF len each 2, of "cells_seek q (cells_at p1)"] q len four
      by (simp add: sample_parcel_def cells_seek_def)
  qed
  then show "getDataPosition sample_parcel p < getDataPosition sample_parcel p' \<and>
      (\<forall>a b. b \<le> getDataPosition sample_parcel p \<or> getDataPosition sample_parcel p' \<le> a \<longrightarrow>
        cells_same p a b p') \<and>
      (\<forall>q obj. getDataPosition sample_parcel q = getDataPosition sample_parcel p \<and>
        cells_same p' (getDataPosition sample_parcel p) (getDataPosition sample_parcel p') q \<longrightarrow>
        (\<exists>obj'. readGrantors sample_parcel r obj q =
          (STATUS_OK, obj', setDataPosition sample_parcel q (getDataPosition sample_parcel p')) \<and>
          obj' = gs))"
    using m(1) c(1) all(2) unfolding at by auto
qed

lemma sample_ops:
  "writeInt32 sample_parcel v = put_cell 4 (CNum (uint v))"
  "readInt32 sample_parcel = take_cell 4 (\<lambda>c. of_int (cell_num c))"
  "writeInt64 sample_parcel u = put_cell 8 (CNum (uint u))"
  "readInt64 sample_parcel = take_cell 8 (\<lambda>c. of_int (cell_num c))"
  "writeFds sample_parcel xs = put_cell 4 (CList xs)" "readFds sample_parcel = take_cell 4 cell_list"
  "writeFd sample_parcel fd = put_cell 4 (CNum fd)" "readFd sample_parcel = take_cell 4 cell_num"
  "writeInts sample_parcel xs = put_cell 4 (CList xs)" "readInts sample_parcel = take_cell 4 cell_list"
  "writeText sample_parcel t = put_cell 4 (CText t)" "readText sample_parcel = take_cell 4 cell_text"
  "writeHandle sample_parcel w = w" "readHandle sample_parcel r = r"
  by (simp_all add: sample_parcel_def)

lemma sample_contract: "parcel_contract sample_parcel cells_same (=)"
proof -
  have at: "getDataPosition sample_parcel = cells_at" "setDataPosition sample_parcel = cells_seek"
    by (simp_all add: sample_parcel_def)
  have num: "of_int (cell_num (CNum (uint v))) = (v :: 'a :: len word)" for v by simp
  have over: "getDataPosition sample_parcel p' = getDataPosition sample_parcel p + 4 \<and>
      (\<forall>q u. cells_same p' (getDataPosition sample_parcel p) (getDataPosition sample_parcel p') q \<longrightarrow>
        fst (writeInt32 sample_parcel u
          (setDataPosition sample_parcel q (getDataPosition sample_parcel p))) = STATUS_OK)"
    if "writeInt32 sample_parcel v p = (STATUS_OK, p')" for v p p'
  proof -
    have "cells_at p + 4 \<le> INT32_MAX" "p' = ((fst p)(cells_at p := CNum (uint v)), of_int (cells_at p + 4))"
      using that by (auto simp: sample_parcel_def put_cell_def split: if_splits)
    moreover have "cells_at (cells_seek q (cells_at p)) = cells_at p" for q
      by (simp add: cells_seek_def cells_at_def)
    ultimately show ?thesis
      using uint_31 [of "cells_at p + 4"] cells_at_range(1) [of p]
      by (simp add: at) (simp add: sample_parcel_def put_cell_def cells_at_def)
  qed
  show ?thesis
    unfolding parcel_contract_def
  proof (intro conjI allI impI)
    show "parcel_positions sample_parcel cells_same" by (rule sample_positions)
    show "carries sample_parcel cells_same (writeFds sample_parcel xs) (readFds sample_parcel)
        (\<lambda>_ x. list_all2 (=) xs x)" for xs
      unfolding sample_ops
      by (rule carries_mono [OF put_cell_carries [of 4 cell_list "CList xs" xs]]) (simp_all add: list.rel_eq)
    show "carries sample_parcel cells_same (writeFd sample_parcel fd) (readFd sample_parcel)
        (\<lambda>_ x. fd = x)" for fd
      unfolding sample_ops
      by (rule carries_mono [OF put_cell_carries [of 4 cell_num "CNum fd" fd]]) simp_all
    show "carries sample_parcel cells_same (writeGrantors sample_parcel ws)
        (readGrantors sample_parcel r) (\<lambda>_ x. x = gs)"
      if "length ws = length gs \<and> (\<forall>i<length gs.
        carries sample_parcel cells_same (ws ! i) r (\<lambda>_ g. g = gs ! i))" for ws r gs
      using that by (intro sample_vector) simp_all
    fix v p p' assume "writeInt32 sample_parcel v p = (STATUS_OK, p')"
    note o = over [OF this]
    show "getDataPosition sample_parcel p' = getDataPosition sample_parcel p + 4" using o by blast
    show "fst (writeInt32 sample_parcel u
        (setDataPosition sample_parcel q (getDataPosition sample_parcel p))) = STATUS_OK"
      if "cells_same p' (getDataPosition sample_parcel p) (getDataPosition sample_parcel p') q" for q u
      using o that by blast
  qed (simp_all add: sample_ops put_cell_carries)
qed

section \<open>Descriptors in the parcel\<close>

definition sent_desc :: WinMQDescriptor where
  "sent_desc = \<lparr>aidl_grantors = [\<lparr>aidl_fdIndex = 0, aidl_offset = 16, aidl_extent = 8\<rparr>],
     aidl_fds = [7], aidl_ints = [], aidl_quantum = 4, aidl_flags = 1, win_name = '''',
     json_decriptor = ''x''\<rparr>"

definition blank_desc :: WinMQDescriptor where
  "blank_desc = \<lparr>aidl_grantors = [], aidl_fds = [], aidl_ints = [], aidl_quantum = 0,
     aidl_flags = 0, win_name = '''', json_decriptor = ''''\<rparr>"

abbreviation empty_parcel :: cells where "empty_parcel \<equiv> (\<lambda>_. CNum 0, 0)"

lemmas sample_parcel_run = desc_writers_def write_parcelable_def GrantorDescriptor_writeToParcel_def
  NativeHandle_writeToParcel_def sent_desc_def Let_def sample_parcel_def put_cell_def cells_at_def
  cells_seek_def INT32_MAX_def STATUS_OK_def

lemma sample_text_written:
  assumes "writeInt32 sample_parcel 0 empty_parcel = (STATUS_OK, p1)"
    and "write_fields (desc_writers sample_parcel sent_desc) p1 = (STATUS_OK, p2)"
  shows "fst (writeText sample_parcel (json_decriptor sent_desc) p2) = STATUS_OK"
proof -
  have "p1 = snd (writeInt32 sample_parcel 0 empty_parcel)" using assms(1) by simp
  moreover have "p2 = snd (write_fields (desc_writers sample_parcel sent_desc) p1)"
    using assms(2) by simp
  ultimately show ?thesis by (simp add: sample_parcel_run)
qed

lemma sample_seek: "getDataPosition sample_parcel (cells_seek p' 0) = getDataPosition sample_parcel empty_parcel"
  "cells_same p' a b (cells_seek p' 0)"
  by (simp_all add: sample_parcel_def cells_at_def cells_seek_def cells_same_def)

theorem descriptor_parcel_round_trip_witness:
  "\<exists>p' q'. MQDescriptor_writeToParcel MSVC sample_parcel sent_desc empty_parcel = (STATUS_OK, p') \<and>
     MQDescriptor_readFromParcel MSVC sample_parcel blank_desc (cells_seek p' 0) =
       (STATUS_OK, sent_desc, q')"
proof -
  have "fst (MQDescriptor_writeToParcel MSVC sample_parcel sent_desc empty_parcel) = STATUS_OK"
    by (simp add: MQDescriptor_writeToParcel_def sample_parcel_run)
  then obtain p' where
    w: "MQDescriptor_writeToParcel MSVC sample_parcel sent_desc empty_parcel = (STATUS_OK, p')"
    by (metis prod.collapse)
  have "sent_desc\<lparr>aidl_fds := aidl_fds sent_desc, win_name := win_name blank_desc,
      json_decriptor := json_decriptor sent_desc\<rparr> = sent_desc"
    by (simp add: sent_desc_def blank_desc_def)
  with descriptor_parcel_round_trip [OF sample_contract w _ sample_seek, of blank_desc] w
    sample_text_written show ?thesis by (auto simp: list.rel_eq)
qed


end
