(* ===== verification/File_Parcel.thy ===== *)
theory File_Parcel
  imports Descriptor_Parcel
begin

text \<open>
  The two other parcelables of the package \<open>android.hardware.common\<close>: \<open>writeToParcel\<close> and
  \<open>readFromParcel\<close> of \<open>Ashmem\<close> and \<open>MappableFile\<close> under \<open>generated_files\<close>. They are frames like
  those of the descriptor, around a file descriptor and numbers.
\<close>

section \<open>The parcelables\<close>

record Ashmem =
  ash_fd :: int
  ash_size :: u64

record MappableFile =
  mf_length :: u64
  mf_prot :: u32
  mf_fd :: int
  mf_offset :: u64

definition ashmem_writers :: "'p aparcel \<Rightarrow> Ashmem \<Rightarrow> ('p \<Rightarrow> int \<times> 'p) list" where
  "ashmem_writers P a = [writeFd P (ash_fd a), writeInt64 P (ash_size a)]"

definition Ashmem_writeToParcel :: "'p aparcel \<Rightarrow> Ashmem \<Rightarrow> 'p \<Rightarrow> int \<times> 'p" where
  "Ashmem_writeToParcel P a = write_parcelable P (ashmem_writers P a) id"

definition Ashmem_readFromParcel :: "'p aparcel \<Rightarrow> Ashmem \<Rightarrow> 'p \<Rightarrow> int \<times> Ashmem \<times> 'p" where
  "Ashmem_readFromParcel P =
     read_parcelable P
       [into (readFd P) ash_fd (\<lambda>x a. a\<lparr>ash_fd := x\<rparr>),
        into (readInt64 P) ash_size (\<lambda>x a. a\<lparr>ash_size := x\<rparr>)] read_nothing"

definition file_writers :: "'p aparcel \<Rightarrow> MappableFile \<Rightarrow> ('p \<Rightarrow> int \<times> 'p) list" where
  "file_writers P f =
     [writeInt64 P (mf_length f), writeInt32 P (mf_prot f), writeFd P (mf_fd f),
      writeInt64 P (mf_offset f)]"

definition MappableFile_writeToParcel :: "'p aparcel \<Rightarrow> MappableFile \<Rightarrow> 'p \<Rightarrow> int \<times> 'p" where
  "MappableFile_writeToParcel P f = write_parcelable P (file_writers P f) id"

definition MappableFile_readFromParcel ::
  "'p aparcel \<Rightarrow> MappableFile \<Rightarrow> 'p \<Rightarrow> int \<times> MappableFile \<times> 'p" where
  "MappableFile_readFromParcel P =
     read_parcelable P
       [into (readInt64 P) mf_length (\<lambda>x f. f\<lparr>mf_length := x\<rparr>),
        into (readInt32 P) mf_prot (\<lambda>x f. f\<lparr>mf_prot := x\<rparr>),
        into (readFd P) mf_fd (\<lambda>x f. f\<lparr>mf_fd := x\<rparr>),
        into (readInt64 P) mf_offset (\<lambda>x f. f\<lparr>mf_offset := x\<rparr>)] read_nothing"

section \<open>What is sent is received\<close>

lemma ashmem_carries:
  assumes C: "parcel_contract P same same_file"
  shows "carries P same (Ashmem_writeToParcel P a) (Ashmem_readFromParcel P)
    (\<lambda>_ a'. same_file (ash_fd a) (ash_fd a') \<and> ash_size a' = ash_size a)"
  unfolding Ashmem_writeToParcel_def Ashmem_readFromParcel_def ashmem_writers_def
proof (rule carries_mono [OF plain_frame_carries [OF C]])
  let ?put1 = "\<lambda>x a. a\<lparr>ash_fd := x\<rparr>" and ?put2 = "\<lambda>x a. a\<lparr>ash_size := x\<rparr>"
  note D = parcel_contractD [OF C]
  show "all_carry P same [writeFd P (ash_fd a), writeInt64 P (ash_size a)]
      [into (readFd P) ash_fd ?put1, into (readInt64 P) ash_size ?put2]
      [\<lambda>x y. \<exists>v. same_file (ash_fd a) v \<and> y = ?put1 v x, \<lambda>x y. \<exists>v. v = ash_size a \<and> y = ?put2 v x]"
    using into_carries [OF D(9)] into_carries [OF D(3)] by (auto simp del: ex_simps)
qed auto

lemma file_carries:
  assumes C: "parcel_contract P same same_file"
  shows "carries P same (MappableFile_writeToParcel P f) (MappableFile_readFromParcel P)
    (\<lambda>_ f'. same_file (mf_fd f) (mf_fd f') \<and> f' = f\<lparr>mf_fd := mf_fd f'\<rparr>)"
  unfolding MappableFile_writeToParcel_def MappableFile_readFromParcel_def file_writers_def
proof (rule carries_mono [OF plain_frame_carries [OF C]])
  let ?put1 = "\<lambda>x f. f\<lparr>mf_length := x\<rparr>" and ?put2 = "\<lambda>x f. f\<lparr>mf_prot := x\<rparr>"
    and ?put3 = "\<lambda>x f. f\<lparr>mf_fd := x\<rparr>" and ?put4 = "\<lambda>x f. f\<lparr>mf_offset := x\<rparr>"
  note D = parcel_contractD [OF C]
  show "all_carry P same
      [writeInt64 P (mf_length f), writeInt32 P (mf_prot f), writeFd P (mf_fd f),
       writeInt64 P (mf_offset f)]
      [into (readInt64 P) mf_length ?put1, into (readInt32 P) mf_prot ?put2,
       into (readFd P) mf_fd ?put3, into (readInt64 P) mf_offset ?put4]
      [\<lambda>x y. \<exists>v. v = mf_length f \<and> y = ?put1 v x, \<lambda>x y. \<exists>v. v = mf_prot f \<and> y = ?put2 v x,
       \<lambda>x y. \<exists>v. same_file (mf_fd f) v \<and> y = ?put3 v x,
       \<lambda>x y. \<exists>v. v = mf_offset f \<and> y = ?put4 v x]"
    using into_carries [OF D(2)] into_carries [OF D(3)] into_carries [OF D(9)]
    by (auto simp del: ex_simps)
qed auto

text \<open>
  Whatever stands behind an object in a parcel is found by the reader of the object: a sequence of
  parcelables is read back as it was written.
\<close>

lemma file_then_ashmem:
  assumes C: "parcel_contract P same same_file"
    and run: "write_fields [MappableFile_writeToParcel P f, Ashmem_writeToParcel P a] p = (STATUS_OK, p')"
    and q: "getDataPosition P q = getDataPosition P p"
    and data: "same p' (getDataPosition P p) (getDataPosition P p') q"
  shows "\<exists>f' a' q1. MappableFile_readFromParcel P f0 q = (STATUS_OK, f', q1) \<and>
    Ashmem_readFromParcel P a0 q1 = (STATUS_OK, a', setDataPosition P q (getDataPosition P p')) \<and>
    same_file (mf_fd f) (mf_fd f') \<and> f' = f\<lparr>mf_fd := mf_fd f'\<rparr> \<and>
    same_file (ash_fd a) (ash_fd a') \<and> ash_size a' = ash_size a"
proof -
  let ?at = "getDataPosition P"
  have pos: "parcel_positions P same" by (rule parcel_contractD [OF C])
  obtain p1 where 1: "MappableFile_writeToParcel P f p = (STATUS_OK, p1)"
    and "write_fields [Ashmem_writeToParcel P a] p1 = (STATUS_OK, p')"
    using run unfolding write_fields_Cons by blast
  then have 2: "Ashmem_writeToParcel P a p1 = (STATUS_OK, p')"
    unfolding write_fields_Cons by simp
  note c1 = carriesD [OF file_carries [OF C] 1] and c2 = carriesD [OF ashmem_carries [OF C] 2]
  let ?q1 = "setDataPosition P q (?at p1)"
  have "same p1 (?at p) (?at p1) p'" by (rule c2(2)) simp
  moreover have "same p' (?at p) (?at p1) q" using positionsD(9) [OF pos data] c2(1) by simp
  ultimately have "same p1 (?at p) (?at p1) q" by (rule positionsD(8) [OF pos])
  from c1(3) [OF q this] obtain f' where f: "MappableFile_readFromParcel P f0 q = (STATUS_OK, f', ?q1)"
    "same_file (mf_fd f) (mf_fd f')" "f' = f\<lparr>mf_fd := mf_fd f'\<rparr>" by blast
  have "same p' (?at p1) (?at p') q" using positionsD(9) [OF pos data] c1(1) by simp
  from positionsD(8) [OF pos this positionsD(7) [OF pos positionsD(6) [OF pos]]]
  have "same p' (?at p1) (?at p') ?q1" .
  from c2(3) [OF positions_at [OF pos] this] obtain a' where
    "Ashmem_readFromParcel P a0 ?q1 = (STATUS_OK, a', setDataPosition P q (?at p'))"
    "same_file (ash_fd a) (ash_fd a')" "ash_size a' = ash_size a"
    by (auto simp: positionsD(5) [OF pos])
  with f show ?thesis by blast
qed

end
