(* ===== verification/Descriptor_Order.thy ===== *)
theory Descriptor_Order
  imports File_Parcel "HOL-Library.Product_Lexorder" "HOL-Library.List_Lexorder"
begin

text \<open>
  The comparison operators of the parcelables under \<open>generated_files\<close>. All six of a class compare
  the \<open>std::tie\<close> of the same members, that is, their tuple in lexicographic order, in which a
  vector is compared like a word in a dictionary, a descriptor of a file by its number, and
  integers with their sign.
\<close>

section \<open>Comparing tuples\<close>

datatype comparison = CNe | CLt | CLe | CEq | CGt | CGe

fun compare_tie :: "comparison \<Rightarrow> 'a :: linorder \<Rightarrow> 'a \<Rightarrow> bool" where
  "compare_tie CNe x y \<longleftrightarrow> x \<noteq> y"
| "compare_tie CLt x y \<longleftrightarrow> x < y"
| "compare_tie CLe x y \<longleftrightarrow> x \<le> y"
| "compare_tie CEq x y \<longleftrightarrow> x = y"
| "compare_tie CGt x y \<longleftrightarrow> x > y"
| "compare_tie CGe x y \<longleftrightarrow> x \<ge> y"

definition grantor_tie :: "'z AidlGrantor_scheme \<Rightarrow> int \<times> int \<times> int" where
  "grantor_tie g = (sint (aidl_fdIndex g), sint (aidl_offset g), sint (aidl_extent g))"

lemma grantor_tie_inj:
  "grantor_tie g = grantor_tie g' \<longleftrightarrow> aidl_fdIndex g = aidl_fdIndex g' \<and>
     aidl_offset g = aidl_offset g' \<and> aidl_extent g = aidl_extent g'"
  by (auto simp: grantor_tie_def intro: signed_word_eqI)

lemma grantor_eqI:
  fixes g g' :: "'z AidlGrantor_scheme"
  assumes "grantor_tie g = grantor_tie g'" and "AidlGrantor.more g = AidlGrantor.more g'"
  shows "g = g'"
  using assms by (cases g; cases g') (simp add: grantor_tie_inj)

text \<open>Grantors are ordered by their operators, so that vectors of them are.\<close>

instantiation AidlGrantor_ext :: (linorder) linorder
begin

definition less_eq_AidlGrantor_ext :: "'a AidlGrantor_scheme \<Rightarrow> 'a AidlGrantor_scheme \<Rightarrow> bool" where
  "g \<le> g' \<longleftrightarrow> (grantor_tie g, AidlGrantor.more g) \<le> (grantor_tie g', AidlGrantor.more g')"

definition less_AidlGrantor_ext :: "'a AidlGrantor_scheme \<Rightarrow> 'a AidlGrantor_scheme \<Rightarrow> bool" where
  "g < g' \<longleftrightarrow> (grantor_tie g, AidlGrantor.more g) < (grantor_tie g', AidlGrantor.more g')"

instance
proof
  fix x y z :: "'a AidlGrantor_scheme"
  show "(x < y) = (x \<le> y \<and> \<not> y \<le> x)"
    unfolding less_eq_AidlGrantor_ext_def less_AidlGrantor_ext_def by (rule less_le_not_le)
  show "x \<le> x" by (simp only: less_eq_AidlGrantor_ext_def order.refl)
  show "x \<le> y \<Longrightarrow> y \<le> z \<Longrightarrow> x \<le> z"
    unfolding less_eq_AidlGrantor_ext_def by (rule order.trans)
  show "x = y" if "x \<le> y" "y \<le> x"
  proof -
    have "(grantor_tie x, AidlGrantor.more x) = (grantor_tie y, AidlGrantor.more y)"
      using that unfolding less_eq_AidlGrantor_ext_def by (rule order.antisym)
    then show ?thesis by (simp add: grantor_eqI)
  qed
  show "x \<le> y \<or> y \<le> x" unfolding less_eq_AidlGrantor_ext_def by (rule linear)
qed

end

section \<open>The operators\<close>

definition GrantorDescriptor_compare :: "comparison \<Rightarrow> AidlGrantor \<Rightarrow> AidlGrantor \<Rightarrow> bool" where
  "GrantorDescriptor_compare c g rhs = compare_tie c (grantor_tie g) (grantor_tie rhs)"

definition NativeHandle_compare :: "comparison \<Rightarrow> int list \<times> int list \<Rightarrow> int list \<times> int list \<Rightarrow> bool" where
  "NativeHandle_compare c nh rhs = compare_tie c (fst nh, snd nh) (fst rhs, snd rhs)"

definition Ashmem_compare :: "comparison \<Rightarrow> Ashmem \<Rightarrow> Ashmem \<Rightarrow> bool" where
  "Ashmem_compare c a rhs =
     compare_tie c (ash_fd a, sint (ash_size a)) (ash_fd rhs, sint (ash_size rhs))"

definition MappableFile_compare :: "comparison \<Rightarrow> MappableFile \<Rightarrow> MappableFile \<Rightarrow> bool" where
  "MappableFile_compare c f rhs =
     compare_tie c (sint (mf_length f), sint (mf_prot f), mf_fd f, sint (mf_offset f))
       (sint (mf_length rhs), sint (mf_prot rhs), mf_fd rhs, sint (mf_offset rhs))"

definition desc_tie ::
  "'z AidlMQDescriptor_scheme \<Rightarrow> AidlGrantor list \<times> (int list \<times> int list) \<times> int \<times> int" where
  "desc_tie d = (aidl_grantors d, (aidl_fds d, aidl_ints d), sint (aidl_quantum d), sint (aidl_flags d))"

definition MQDescriptor_compare ::
  "comparison \<Rightarrow> 'z AidlMQDescriptor_scheme \<Rightarrow> 'z AidlMQDescriptor_scheme \<Rightarrow> bool" where
  "MQDescriptor_compare c d rhs = compare_tie c (desc_tie d) (desc_tie rhs)"

text \<open>The order of the class instance is that of the operators.\<close>

lemma grantor_operators:
  "GrantorDescriptor_compare CLt g g' \<longleftrightarrow> g < g'"
  "GrantorDescriptor_compare CLe g g' \<longleftrightarrow> g \<le> g'"
  "GrantorDescriptor_compare CEq g g' \<longleftrightarrow> g = g'"
  by (auto simp: GrantorDescriptor_compare_def less_AidlGrantor_ext_def less_eq_AidlGrantor_ext_def
      grantor_eqI less_le)

text \<open>
  The operators of a descriptor are a linear order on what travels of it on POSIX: exactly one of
  less, equal and greater holds, and descriptors are equal if all their fields are.
\<close>

lemma descriptor_order:
  fixes d d' :: AidlMQDescriptor
  shows "MQDescriptor_compare CEq d d' \<longleftrightarrow> d = d'"
    and "MQDescriptor_compare CNe d d' \<longleftrightarrow> \<not> MQDescriptor_compare CEq d d'"
    and "MQDescriptor_compare CLe d d' \<longleftrightarrow> \<not> MQDescriptor_compare CGt d d'"
    and "MQDescriptor_compare CGe d d' \<longleftrightarrow> \<not> MQDescriptor_compare CLt d d'"
    and "MQDescriptor_compare CLt d d' \<or> d = d' \<or> MQDescriptor_compare CGt d d'"
    and "MQDescriptor_compare CLt d d' \<Longrightarrow> MQDescriptor_compare CLt d' d'' \<Longrightarrow>
      MQDescriptor_compare CLt d d''"
proof -
  have inj: "d = d'" if "desc_tie d = desc_tie d'" for d d' :: AidlMQDescriptor
    using that by (cases d; cases d') (auto simp: desc_tie_def intro: signed_word_eqI)
  then show "MQDescriptor_compare CEq d d' \<longleftrightarrow> d = d'"
    by (auto simp: MQDescriptor_compare_def)
  show "MQDescriptor_compare CLt d d' \<or> d = d' \<or> MQDescriptor_compare CGt d d'"
    unfolding MQDescriptor_compare_def compare_tie.simps
    using inj [of d d'] less_linear [of "desc_tie d" "desc_tie d'"] by blast
  show "MQDescriptor_compare CLt d d' \<Longrightarrow> MQDescriptor_compare CLt d' d'' \<Longrightarrow>
      MQDescriptor_compare CLt d d''"
    unfolding MQDescriptor_compare_def compare_tie.simps by (rule less_trans)
qed (simp_all add: MQDescriptor_compare_def not_less not_le)

text \<open>
  On Windows the name of the shared memory is not compared: the descriptors of two queues that
  differ in nothing but this name, and so use different memory, are equal.
\<close>

lemma equal_descriptors_of_other_queue:
  assumes "win_dupeDesc J (Some d) = Inr sent"
  shows "\<exists>sent'. win_dupeDesc J (Some (d\<lparr>mName := name\<rparr>)) = Inr sent' \<and>
    MQDescriptor_compare CEq sent sent' \<and>
    json_decriptor sent' = Shim_toString J (d\<lparr>mName := name\<rparr>)"
  using assms
  by (auto simp: win_dupeDesc_def Let_def bind_res_eq_Inr MQDescriptor_compare_def desc_tie_def
      getQuantum_def getFlags_def split: option.splits)

end
