(* ===== verification/Descriptor_Print.thy ===== *)
theory Descriptor_Print
  imports Descriptor_Order
begin

text \<open>
  The texts that the generated types print: \<open>toString\<close> of the parcelables, and of the two
  enumerations that name the flavors of a queue.
\<close>

section \<open>Numbers\<close>

text \<open>\<open>std::to_string\<close>: decimal digits, after a sign for a negative number.\<close>

definition digit :: "nat \<Rightarrow> char" where
  "digit d = char_of (48 + d)"

fun decimal_nat :: "nat \<Rightarrow> string" where
  "decimal_nat n = (if n < 10 then [digit n] else decimal_nat (n div 10) @ [digit (n mod 10)])"

declare decimal_nat.simps [simp del]

definition decimal :: "int \<Rightarrow> string" where
  "decimal i = (if i < 0 then CHR ''-'' # decimal_nat (nat (- i)) else decimal_nat (nat i))"

definition digit_value :: "char \<Rightarrow> nat" where
  "digit_value c = of_char c - 48"

definition nat_of_decimal :: "string \<Rightarrow> nat" where
  "nat_of_decimal s = foldl (\<lambda>n c. 10 * n + digit_value c) 0 s"

lemma digit_value_digit [simp]: "d < 10 \<Longrightarrow> digit_value (digit d) = d"
  by (simp add: digit_value_def digit_def)

lemma decimal_nat_back [simp]: "nat_of_decimal (decimal_nat n) = n"
proof (induction n rule: decimal_nat.induct)
  case (1 n)
  then show ?case
    by (subst decimal_nat.simps) (simp add: nat_of_decimal_def)
qed

lemma decimal_nat_digits: "set (decimal_nat n) \<subseteq> set ''0123456789''"
proof -
  define D where "D = set ''0123456789''"
  have "map digit [0..<10] = ''0123456789''" by code_simp
  then have digits: "digit d \<in> D" if "d < 10" for d
    unfolding D_def using that by (metis atLeastLessThan_iff image_eqI list.set_map set_upt zero_le)
  have "set (decimal_nat n) \<subseteq> D"
  proof (induction n rule: decimal_nat.induct)
    case (1 n)
    then show ?case by (subst decimal_nat.simps) (auto simp: digits)
  qed
  then show ?thesis by (simp only: D_def)
qed

lemma decimal_nat_unsigned: "CHR ''-'' \<notin> set (decimal_nat n)"
  using decimal_nat_digits [of n] by auto

lemma decimal_not_name: "decimal i \<noteq> CHR ''E'' # s"
proof
  assume "decimal i = CHR ''E'' # s"
  then have "CHR ''E'' \<in> set (decimal_nat (nat i))" by (auto simp: decimal_def split: if_splits)
  then show False using decimal_nat_digits [of "nat i"] by auto
qed

lemma decimal_inj: "decimal i = decimal j \<longleftrightarrow> i = j"
proof
  assume eq: "decimal i = decimal j"
  have signed: "decimal i \<noteq> decimal j" if "i < 0" "0 \<le> j" for i j
    using decimal_nat_unsigned [of "nat j"] that by (auto simp: decimal_def) (metis list.set_intros(1))
  then have "i < 0 \<longleftrightarrow> j < 0" using eq by (metis not_less)
  with eq have "decimal_nat (nat \<bar>i\<bar>) = decimal_nat (nat \<bar>j\<bar>)"
    by (auto simp: decimal_def split: if_splits)
  then have "nat \<bar>i\<bar> = nat \<bar>j\<bar>" by (metis decimal_nat_back)
  with \<open>i < 0 \<longleftrightarrow> j < 0\<close> show "i = j" by linarith
qed simp

section \<open>The enumerations\<close>

text \<open>\<open>enum class\<close> over \<open>int8_t\<close>, whose only named value is \<open>EMPTY\<close>.\<close>

type_synonym int8_t = "8 word"

definition SynchronizedReadWrite_EMPTY :: int8_t where
  "SynchronizedReadWrite_EMPTY = 0"

definition SynchronizedReadWrite_toString :: "int8_t \<Rightarrow> string" where
  "SynchronizedReadWrite_toString val =
     (if val = SynchronizedReadWrite_EMPTY then ''EMPTY'' else decimal (sint val))"

definition UnsynchronizedWrite_EMPTY :: int8_t where
  "UnsynchronizedWrite_EMPTY = 0"

definition UnsynchronizedWrite_toString :: "int8_t \<Rightarrow> string" where
  "UnsynchronizedWrite_toString val =
     (if val = UnsynchronizedWrite_EMPTY then ''EMPTY'' else decimal (sint val))"

text \<open>The two types stand for the flavors as arguments of the templates.\<close>

datatype flavor_type = SynchronizedReadWrite | UnsynchronizedWrite

fun FlavorTypeToValue :: "flavor_type \<Rightarrow> MQFlavor" where
  "FlavorTypeToValue SynchronizedReadWrite = kSynchronizedReadWrite"
| "FlavorTypeToValue UnsynchronizedWrite = kUnsynchronizedWrite"

section \<open>The parcelables\<close>

text \<open>
  \<open>android::internal::ToString\<close> of the NDK is a parameter: for a number, a file descriptor, and a
  vector whose elements have been printed.
\<close>

record printer =
  ToString_int :: "int \<Rightarrow> string"
  ToString_fd :: "int \<Rightarrow> string"
  ToString_vector :: "string list \<Rightarrow> string"

definition GrantorDescriptor_toString :: "printer \<Rightarrow> AidlGrantor \<Rightarrow> string" where
  "GrantorDescriptor_toString P g =
     ''GrantorDescriptor{'' @
     ''fdIndex: '' @ ToString_int P (sint (aidl_fdIndex g)) @
     '', offset: '' @ ToString_int P (sint (aidl_offset g)) @
     '', extent: '' @ ToString_int P (sint (aidl_extent g)) @ ''}''"

definition NativeHandle_toString :: "printer \<Rightarrow> int list \<times> int list \<Rightarrow> string" where
  "NativeHandle_toString P nh =
     ''NativeHandle{'' @
     ''fds: '' @ ToString_vector P (map (ToString_fd P) (fst nh)) @
     '', ints: '' @ ToString_vector P (map (ToString_int P) (snd nh)) @ ''}''"

definition Ashmem_toString :: "printer \<Rightarrow> Ashmem \<Rightarrow> string" where
  "Ashmem_toString P a =
     ''Ashmem{'' @
     ''fd: '' @ ToString_fd P (ash_fd a) @
     '', size: '' @ ToString_int P (sint (ash_size a)) @ ''}''"

definition MappableFile_toString :: "printer \<Rightarrow> MappableFile \<Rightarrow> string" where
  "MappableFile_toString P f =
     ''MappableFile{'' @
     ''length: '' @ ToString_int P (sint (mf_length f)) @
     '', prot: '' @ ToString_int P (sint (mf_prot f)) @
     '', fd: '' @ ToString_fd P (mf_fd f) @
     '', offset: '' @ ToString_int P (sint (mf_offset f)) @ ''}''"

definition MQDescriptor_toString :: "printer \<Rightarrow> 'z AidlMQDescriptor_scheme \<Rightarrow> string" where
  "MQDescriptor_toString P d =
     ''MQDescriptor{'' @
     ''grantors: '' @ ToString_vector P (map (GrantorDescriptor_toString P) (aidl_grantors d)) @
     '', handle: '' @ NativeHandle_toString P (aidl_fds d, aidl_ints d) @
     '', quantum: '' @ ToString_int P (sint (aidl_quantum d)) @
     '', flags: '' @ ToString_int P (sint (aidl_flags d)) @ ''}''"

text \<open>Descriptors that the operators call equal print the same text.\<close>

lemma equal_descriptors_print_the_same:
  "MQDescriptor_compare CEq d d' \<Longrightarrow> MQDescriptor_toString P d = MQDescriptor_toString P d'"
  by (simp add: MQDescriptor_compare_def desc_tie_def MQDescriptor_toString_def)

lemma enumeration_texts_differ:
  "SynchronizedReadWrite_toString v = SynchronizedReadWrite_toString w \<longleftrightarrow> v = w"
  "UnsynchronizedWrite_toString v = UnsynchronizedWrite_toString w \<longleftrightarrow> v = w"
  by (auto simp: SynchronizedReadWrite_toString_def UnsynchronizedWrite_toString_def decimal_inj
      decimal_not_name decimal_not_name [symmetric] intro: signed_word_eqI)

end
